(* ===== verification/Tlpi_Prelude.thy ===== *)
theory Tlpi_Prelude
  imports Main "HOL-Library.Word" "HOL-Library.Sublist"
begin

unbundle bit_operations_syntax

text \<open>
  Shared vocabulary of the development.
  A C function that may terminate the process is a function from the program state to a
  \<open>run\<close>: either it returns (\<open>Done\<close> with its result and the new state) or the process
  stops (\<open>Halt\<close> with the way it stopped and the state at that moment).
  \<open>andThen\<close> is the semicolon of such functions, \<open>forEach\<close> a \<open>for\<close> loop over a list, and
  \<open>holds\<close> the assertion used to state what both outcomes satisfy.
  The second part models the C string functions the sources call, on strings without
  their terminating null byte, and the third part collects list facts about linear
  searches through arrays.
\<close>

named_theorems run_intros \<open>introduction rules for assertions about runs\<close>
named_theorems frame_simps \<open>which components of a state an operation leaves alone\<close>

section \<open>Functions that may terminate the process\<close>

datatype halt =
    Exit int            \<comment> \<open>\<open>exit(3)\<close>: stdio buffers are flushed, exit handlers run\<close>
  | Exit_now int        \<comment> \<open>\<open>_exit(2)\<close>\<close>
  | Abort               \<comment> \<open>\<open>abort(3)\<close>\<close>
  | Killed nat          \<comment> \<open>terminated by a signal\<close>
  | Fault               \<comment> \<open>the C program has undefined behaviour here\<close>
  | Blocked             \<comment> \<open>waiting for input that the environment never supplies\<close>

abbreviation (input) EXIT_SUCCESS :: int where "EXIT_SUCCESS \<equiv> 0"
abbreviation (input) EXIT_FAILURE :: int where "EXIT_FAILURE \<equiv> 1"

datatype ('s, 'a) run = Done (res: 'a) (final: 's) | Halt (how: halt) (final: 's)

fun andThen :: "('s, 'a) run \<Rightarrow> ('a \<Rightarrow> 's \<Rightarrow> ('s, 'b) run) \<Rightarrow> ('s, 'b) run" where
  "andThen (Done a s) f = f a s"
| "andThen (Halt h s) f = Halt h s"

fun forEach :: "('x \<Rightarrow> 's \<Rightarrow> ('s, unit) run) \<Rightarrow> 'x list \<Rightarrow> 's \<Rightarrow> ('s, unit) run" where
  "forEach f [] s = Done () s"
| "forEach f (x # xs) s = andThen (f x s) (\<lambda>_. forEach f xs)"

fun holds :: "('a \<Rightarrow> 's \<Rightarrow> bool) \<Rightarrow> (halt \<Rightarrow> 's \<Rightarrow> bool) \<Rightarrow> ('s, 'a) run \<Rightarrow> bool" where
  "holds Q E (Done a s) = Q a s"
| "holds Q E (Halt h s) = E h s"

abbreviation keeps :: "('s \<Rightarrow> bool) \<Rightarrow> ('s, 'a) run \<Rightarrow> bool" where
  "keeps I \<equiv> holds (\<lambda>_. I) (\<lambda>_. I)"

lemma holds_andThen [run_intros]:
  assumes "holds Q E r" and "\<And>a s. Q a s \<Longrightarrow> holds R E (f a s)"
  shows "holds R E (andThen r f)"
  using assms by (cases r) auto

lemma holds_weaken:
  assumes "holds Q E r" and "\<And>a s. Q a s \<Longrightarrow> Q' a s" and "\<And>h s. E h s \<Longrightarrow> E' h s"
  shows "holds Q' E' r"
  using assms by (cases r) auto

lemma holds_forEach [run_intros]:
  assumes "I s" and "\<And>x s. x \<in> set xs \<Longrightarrow> I s \<Longrightarrow> holds (\<lambda>_. I) E (f x s)"
  shows "holds (\<lambda>_. I) E (forEach f xs s)"
  using assms by (induction xs arbitrary: s) (auto intro!: holds_andThen)

lemma holds_if [run_intros]:
  "(c \<Longrightarrow> holds Q E r) \<Longrightarrow> (\<not> c \<Longrightarrow> holds Q E r') \<Longrightarrow> holds Q E (if c then r else r')"
  by simp

lemma andThen_assoc: "andThen (andThen r f) g = andThen r (\<lambda>a s. andThen (f a s) g)"
  by (cases r) auto

lemma andThen_Done_iff:
  "andThen r f = Done b t \<longleftrightarrow> (\<exists>a s. r = Done a s \<and> f a s = Done b t)"
  by (cases r) auto

lemma forEach_append:
  "forEach f (xs @ ys) s = andThen (forEach f xs s) (\<lambda>_. forEach f ys)"
proof (induction xs arbitrary: s)
  case (Cons x xs)
  then show ?case by (cases "f x s") auto
qed simp

lemma run_split_iff: "holds Q E r \<longleftrightarrow>
    (\<forall>a s. r = Done a s \<longrightarrow> Q a s) \<and> (\<forall>h s. r = Halt h s \<longrightarrow> E h s)"
  by (cases r) auto

section \<open>Messages\<close>

text \<open>
  A printed message: the format string and its arguments, not rendered (\<open>Ptr\<close> is an
  address printed with \<^verbatim>\<open>%p\<close>).  The line breaks of the format strings are left out.
\<close>

datatype farg = I int | S string | StrError int | Ptr

type_synonym logrec = "string \<times> farg list"

section \<open>C strings\<close>

text \<open>
  A C string is the list of its characters before the terminating null byte, so a
  well-formed one contains no null character.
\<close>

abbreviation (input) NUL :: char where "NUL \<equiv> CHR 0x00"

definition char_at :: "string \<Rightarrow> nat \<Rightarrow> char" where
  "char_at s i = (if i < length s then s ! i else NUL)"

text \<open>\<open>strncmp(a, b, n) == 0\<close>\<close>

definition strncmp_eq :: "string \<Rightarrow> string \<Rightarrow> nat \<Rightarrow> bool" where
  "strncmp_eq a b n = (take n a = take n b)"

text \<open>\<open>strchr\<close>: the offset of the first occurrence of a character other than null.\<close>

fun strchr :: "string \<Rightarrow> char \<Rightarrow> nat option" where
  "strchr [] c = None"
| "strchr (x # xs) c = (if x = c then Some 0 else map_option Suc (strchr xs c))"

text \<open>
  \<open>strncpy(dst, src, n)\<close> into a buffer of \<open>n\<close> bytes keeps the first \<open>n\<close> characters (with no
  terminator when there are \<open>n\<close> or more); \<open>snprintf(dst, n, ...)\<close> keeps \<open>n - 1\<close>.
\<close>

definition strncpy :: "nat \<Rightarrow> string \<Rightarrow> string" where
  "strncpy n src = take n src"

definition snprintf_str :: "nat \<Rightarrow> string \<Rightarrow> string" where
  "snprintf_str n src = take (n - 1) src"

abbreviation (input) PATH_MAX :: nat where "PATH_MAX \<equiv> 4096"
abbreviation (input) NAME_MAX :: nat where "NAME_MAX \<equiv> 255"

lemma strncmp_eq_prefix: "strncmp_eq a b (length a) \<longleftrightarrow> prefix a b"
proof
  assume "strncmp_eq a b (length a)"
  then have "a = take (length a) b" by (simp add: strncmp_eq_def)
  then show "prefix a b" by (metis take_is_prefix)
qed (auto simp: strncmp_eq_def prefix_def)

lemma strchr_Some:
  "strchr s c = Some i \<Longrightarrow> i < length s \<and> s ! i = c \<and> c \<notin> set (take i s)"
  by (induction s arbitrary: i) (auto split: if_splits)

lemma strchr_None: "strchr s c = None \<longleftrightarrow> c \<notin> set s"
  by (induction s) auto

lemma strchr_append: "c \<notin> set a \<Longrightarrow> strchr (a @ c # b) c = Some (length a)"
  by (induction a) auto

lemma strchr_append_None:
  "c \<notin> set a \<Longrightarrow> strchr (a @ b) c = map_option (\<lambda>i. length a + i) (strchr b c)"
  by (cases "strchr b c"; induction a) auto

section \<open>Linear search through an array\<close>

text \<open>\<open>for (j = 0; j < size; j++) if (P(a[j])) return j;\<close>\<close>

fun find_index :: "('a \<Rightarrow> bool) \<Rightarrow> 'a list \<Rightarrow> nat option" where
  "find_index P [] = None"
| "find_index P (x # xs) = (if P x then Some 0 else map_option Suc (find_index P xs))"

lemma find_index_Some:
  "find_index P xs = Some i \<Longrightarrow> i < length xs \<and> P (xs ! i) \<and> (\<forall>j<i. \<not> P (xs ! j))"
proof (induction xs arbitrary: i)
  case (Cons x xs)
  then show ?case by (auto split: if_splits simp: less_Suc_eq_0_disj)
qed simp

lemma find_index_None: "find_index P xs = None \<longleftrightarrow> (\<forall>x\<in>set xs. \<not> P x)"
  by (induction xs) auto

lemma find_index_Some_iff:
  "(\<exists>i. find_index P xs = Some i) \<longleftrightarrow> (\<exists>x\<in>set xs. P x)"
  using find_index_None [of P xs] by auto

lemma find_index_unique:
  assumes "i < length xs" "P (xs ! i)" "\<And>j. j < length xs \<Longrightarrow> P (xs ! j) \<Longrightarrow> j = i"
  shows "find_index P xs = Some i"
proof -
  from assms(1,2) have "\<exists>k. find_index P xs = Some k"
    by (auto simp: find_index_Some_iff intro: nth_mem)
  then obtain k where k: "find_index P xs = Some k" ..
  from find_index_Some [OF this] assms(3) have "k = i" by blast
  with k show ?thesis by simp
qed

lemma option_eqI: "(\<And>v. x = Some v \<longleftrightarrow> y = Some v) \<Longrightarrow> x = y"
  by (metis option.exhaust)

text \<open>A loop that updates every array element on its own.\<close>

lemma fold_list_update:
  "fold (\<lambda>j ys. ys[j := f j]) [m..<m + n] xs =
     take m xs @ map f [m..<min (m + n) (length xs)] @ drop (m + n) xs"
  if "m \<le> length xs"
  using that
proof (induction n)
  case 0
  then show ?case by simp
next
  case (Suc n)
  let ?ys = "take m xs @ map f [m..<min (m + n) (length xs)] @ drop (m + n) xs"
  have len: "length ?ys = length xs" using Suc.prems by auto
  have "fold (\<lambda>j ys. ys[j := f j]) [m..<m + Suc n] xs = ?ys[m + n := f (m + n)]"
    using Suc by (simp add: fold_append)
  also have "\<dots> = take m xs @ map f [m..<min (m + Suc n) (length xs)] @ drop (m + Suc n) xs"
  proof (cases "m + n < length xs")
    case True
    then have "drop (m + n) xs = xs ! (m + n) # drop (m + Suc n) xs"
      by (simp add: Cons_nth_drop_Suc)
    then show ?thesis using True Suc.prems
      by (simp add: list_update_append min_def)
  next
    case False
    then show ?thesis using Suc.prems by (simp add: list_update_beyond)
  qed
  finally show ?case .
qed

lemma fold_update_each:
  "fold (\<lambda>j ys. ys[j := g (ys ! j)]) [0..<length xs] xs = map g xs"
proof -
  have "fold (\<lambda>j ys. ys[j := g (ys ! j)]) [0..<n] xs = map g (take n xs) @ drop n xs"
    if "n \<le> length xs" for n
    using that
  proof (induction n)
    case (Suc n)
    then have "drop n xs = xs ! n # drop (Suc n) xs" by (simp add: Cons_nth_drop_Suc)
    with Suc show ?case by (simp add: nth_append list_update_append take_Suc_conv_app_nth)
  qed simp
  from this [of "length xs"] show ?thesis by simp
qed

lemma find_index_map: "find_index P (map h xs) = find_index (\<lambda>x. P (h x)) xs"
  by (induction xs) auto

end
