(* ===== verification/Dtree_Cache.thy ===== *)
theory Dtree_Cache
  imports Tlpi_Prelude
begin

text \<open>
  The state of \<^verbatim>\<open>inotify/inotify_dtree.c\<close> and its watch-list cache: the array
  \<^verbatim>\<open>wlCache\<close> of \<^verbatim>\<open>struct watch\<close> slots that maps watch descriptors to directory
  pathnames.  Operating-system and C-library calls are the fields of a record \<open>sys\<close>
  that every definition takes as an argument; each field maps the state \<open>'k\<close> of the
  environment to the answer of the call and the next environment state, so that the
  theorems hold for every behaviour of the environment.
  The lemmas show that the cache operations implement lookup, update and removal in a
  finite map from watch descriptors to pathnames (locale \<open>watch_store\<close>), and that they
  keep the invariant \<open>cache_ok\<close>.
\<close>

section \<open>State\<close>

record stat =
  st_isdir :: bool
  st_ino :: nat
  st_dev :: nat

record watch =
  w_wd :: int           \<comment> \<open>watch descriptor, -1 if the slot is unused\<close>
  w_path :: string

record 'k sys =
  sys_lstat :: "string \<Rightarrow> 'k \<Rightarrow> (int + stat) \<times> 'k"
  sys_realloc :: "nat \<Rightarrow> 'k \<Rightarrow> (nat \<Rightarrow> watch) option \<times> 'k"
  sys_creat :: "string option \<Rightarrow> 'k \<Rightarrow> 'k"
  sys_add_watch :: "int \<Rightarrow> string \<Rightarrow> 32 word \<Rightarrow> 'k \<Rightarrow> (int + int) \<times> 'k"
  sys_rm_watch :: "int \<Rightarrow> int \<Rightarrow> 'k \<Rightarrow> int option \<times> 'k"
  sys_nftw :: "string \<Rightarrow> 'k \<Rightarrow> ((string \<times> stat) list \<times> int option) \<times> 'k"
  sys_inotify_init :: "'k \<Rightarrow> (int + int) \<times> 'k"
  sys_close :: "int \<Rightarrow> 'k \<Rightarrow> 'k"
  sys_sigaction :: "'k \<Rightarrow> int option \<times> 'k"
  sys_fopen :: "string \<Rightarrow> 'k \<Rightarrow> int option \<times> 'k"
  sys_write_file :: "string \<Rightarrow> string list \<Rightarrow> 'k \<Rightarrow> 'k"

text \<open>
  The global and static variables of the program.  \<^verbatim>\<open>cacheSize\<close> and \<^verbatim>\<open>numRootDirs\<close> are
  the lengths of \<open>wlCache\<close> and \<open>rootDirPaths\<close>; a log file is the list of the records
  written to it.
\<close>

record 'k dt =
  verboseMask :: "32 word"
  checkCache :: bool
  dumpCache :: bool
  readBufferSize :: int
  stopFile :: "string option"
  abortOnCacheProblem :: bool
  logfp :: "logrec list option"
  stderr_out :: "logrec list"
  stdout_out :: "logrec list"
  inotifyReadCnt :: int
  wlCache :: "watch list"
  rootDirPaths :: "string option list"
  rootDirStat :: "stat list"
  ignoreRootDirs :: int
  dirCnt :: int
  ifd :: int
  reinitCnt :: int
  overflowCnt :: int
  kern :: 'k

abbreviation (input) VB_BASIC :: "32 word" where "VB_BASIC \<equiv> 1"
abbreviation (input) VB_NOISY :: "32 word" where "VB_NOISY \<equiv> 2"

section \<open>Output\<close>

definition eprint :: "string \<Rightarrow> farg list \<Rightarrow> 'k dt \<Rightarrow> 'k dt" where
  "eprint fmt args s = s\<lparr>stderr_out := stderr_out s @ [(fmt, args)]\<rparr>"

definition oprint :: "string \<Rightarrow> farg list \<Rightarrow> 'k dt \<Rightarrow> 'k dt" where
  "oprint fmt args s = s\<lparr>stdout_out := stdout_out s @ [(fmt, args)]\<rparr>"

definition logMessage :: "32 word \<Rightarrow> string \<Rightarrow> farg list \<Rightarrow> 'k dt \<Rightarrow> 'k dt" where
  "logMessage vb_mask fmt args s =
     (let s = (if vb_mask = 0 \<or> vb_mask AND verboseMask s \<noteq> 0 then eprint fmt args s else s)
      in case logfp s of
           None \<Rightarrow> s
         | Some l \<Rightarrow> s\<lparr>logfp := Some (l @ [(fmt, args)])\<rparr>)"

text \<open>The macro \<^verbatim>\<open>errExit\<close>: \<^verbatim>\<open>perror(msg); exit(EXIT_FAILURE)\<close>.\<close>

definition errExit :: "string \<Rightarrow> int \<Rightarrow> 'k dt \<Rightarrow> ('k dt, 'a) run" where
  "errExit msg err s = Halt (Exit EXIT_FAILURE) (eprint ''%s: %s'' [S msg, StrError err] s)"

section \<open>The watch-list cache\<close>

definition freeCache :: "'k dt \<Rightarrow> 'k dt" where
  "freeCache s = s\<lparr>wlCache := []\<rparr>"

text \<open>The slots a loop guarded by \<^verbatim>\<open>wlCache[j].wd >= 0\<close> visits, with their indexes.\<close>

definition used_slots :: "watch list \<Rightarrow> (nat \<times> watch) list" where
  "used_slots c = filter (\<lambda>(j, w). 0 \<le> w_wd w) (enumerate 0 c)"

fun check_slots :: "'k sys \<Rightarrow> (nat \<times> watch) list \<Rightarrow> int \<Rightarrow> 'k dt \<Rightarrow> ('k dt, int) run" where
  "check_slots sys [] failures s = Done failures s"
| "check_slots sys ((j, w) # ws) failures s =
     (case sys_lstat sys (w_path w) (kern s) of
        (Inl err, k) \<Rightarrow> check_slots sys ws (failures + 1)
          (logMessage 0 ''checkCacheConsistency: stat: [slot = %d; wd = %d] %s: %s''
             [I (int j), I (w_wd w), S (w_path w), StrError err] (s\<lparr>kern := k\<rparr>))
      | (Inr sb, k) \<Rightarrow>
          if \<not> st_isdir sb
          then Halt (Exit EXIT_FAILURE)
                 (logMessage 0 ''checkCacheConsistency: %s is not a directory''
                    [S (w_path w)] (s\<lparr>kern := k\<rparr>))
          else check_slots sys ws failures (s\<lparr>kern := k\<rparr>))"

definition checkCacheConsistency :: "'k sys \<Rightarrow> 'k dt \<Rightarrow> ('k dt, unit) run" where
  "checkCacheConsistency sys s =
     andThen (check_slots sys (used_slots (wlCache s)) 0 s) (\<lambda>failures s.
       Done () (if failures > 0
                then logMessage VB_NOISY ''checkCacheConsistency: %d failures'' [I failures] s
                else s))"

definition findWatch :: "int \<Rightarrow> 'k dt \<Rightarrow> nat option" where
  "findWatch wd s = find_index (\<lambda>w. w_wd w = wd) (wlCache s)"

text \<open>Writing to the log with no log file open dereferences a null \<^verbatim>\<open>FILE *\<close>.\<close>

definition dumpCacheToLog :: "'k dt \<Rightarrow> ('k dt, unit) run" where
  "dumpCacheToLog s =
     (case logfp s of
        None \<Rightarrow> Halt Fault s
      | Some l \<Rightarrow> Done () (s\<lparr>logfp := Some (l
          @ map (\<lambda>(j, w). (''%d: wd = %d; %s'', [I (int j), I (w_wd w), S (w_path w)]))
                (used_slots (wlCache s))
          @ [(''Total entries: %d'', [I (int (length (used_slots (wlCache s))))])])\<rparr>))"

definition createStopFileAndAbort :: "'k sys \<Rightarrow> 'k dt \<Rightarrow> ('k dt, 'a) run" where
  "createStopFileAndAbort sys s =
     andThen (dumpCacheToLog (s\<lparr>kern := sys_creat sys (stopFile s) (kern s)\<rparr>))
       (\<lambda>_ s. Halt Abort s)"

definition findWatchChecked :: "'k sys \<Rightarrow> int \<Rightarrow> 'k dt \<Rightarrow> ('k dt, nat option) run" where
  "findWatchChecked sys wd s =
     (case findWatch wd s of
        Some slot \<Rightarrow> Done (Some slot) s
      | None \<Rightarrow>
          (let s = logMessage 0 ''Could not find watch %d'' [I wd] s
           in if abortOnCacheProblem s then createStopFileAndAbort sys s else Done None s))"

definition markCacheSlotEmpty :: "nat \<Rightarrow> 'k dt \<Rightarrow> 'k dt" where
  "markCacheSlotEmpty slot s =
     (let s = logMessage VB_NOISY ''markCacheSlotEmpty: slot = %d;  wd = %d; path = %s''
                [I (int slot), I (w_wd (wlCache s ! slot)), S (w_path (wlCache s ! slot))] s
      in s\<lparr>wlCache := (wlCache s)[slot := \<lparr>w_wd = -1, w_path = []\<rparr>]\<rparr>)"

definition ALLOC_INCR :: nat where "ALLOC_INCR = 200"
abbreviation (input) ENOMEM :: int where "ENOMEM \<equiv> 12"

text \<open>
  \<^verbatim>\<open>realloc()\<close> fails or extends the array by slots of indeterminate content, given by
  \<open>sys_realloc\<close>.
\<close>

definition findEmptyCacheSlot :: "'k sys \<Rightarrow> 'k dt \<Rightarrow> ('k dt, nat) run" where
  "findEmptyCacheSlot sys s =
     (case find_index (\<lambda>w. w_wd w = -1) (wlCache s) of
        Some j \<Rightarrow> Done j s
      | None \<Rightarrow>
          (let n = length (wlCache s)
           in case sys_realloc sys (n + ALLOC_INCR) (kern s) of
                (None, k) \<Rightarrow> errExit ''realloc'' ENOMEM (s\<lparr>kern := k\<rparr>)
              | (Some junk, k) \<Rightarrow>
                  Done n (fold markCacheSlotEmpty [n..<n + ALLOC_INCR]
                    (s\<lparr>kern := k, wlCache := wlCache s @ map junk [0..<ALLOC_INCR]\<rparr>))))"

definition addWatchToCache :: "'k sys \<Rightarrow> int \<Rightarrow> string \<Rightarrow> 'k dt \<Rightarrow> ('k dt, nat) run" where
  "addWatchToCache sys wd pathname s =
     andThen (findEmptyCacheSlot sys s) (\<lambda>slot s. Done slot
       (s\<lparr>wlCache := (wlCache s)[slot := \<lparr>w_wd = wd, w_path = strncpy PATH_MAX pathname\<rparr>]\<rparr>))"

definition pathnameToCacheSlot :: "string \<Rightarrow> 'k dt \<Rightarrow> nat option" where
  "pathnameToCacheSlot pathname s =
     find_index (\<lambda>w. 0 \<le> w_wd w \<and> w_path w = pathname) (wlCache s)"

definition pathnameInCache :: "string \<Rightarrow> 'k dt \<Rightarrow> bool" where
  "pathnameInCache pathname s = (pathnameToCacheSlot pathname s \<noteq> None)"

section \<open>Invariant and abstraction\<close>

text \<open>
  A slot is free exactly when its descriptor is -1, and then its pathname is empty; no
  descriptor occurs twice; the array grows in steps of \<open>ALLOC_INCR\<close>.
\<close>

definition cache_ok :: "watch list \<Rightarrow> bool" where
  "cache_ok c \<longleftrightarrow>
     (\<forall>i<length c. -1 \<le> w_wd (c ! i)) \<and>
     (\<forall>i<length c. w_wd (c ! i) = -1 \<longrightarrow> w_path (c ! i) = []) \<and>
     (\<forall>i<length c. \<forall>j<length c. 0 \<le> w_wd (c ! i) \<and> w_wd (c ! i) = w_wd (c ! j) \<longrightarrow> i = j) \<and>
     ALLOC_INCR dvd length c"

definition cache_map :: "watch list \<Rightarrow> int \<rightharpoonup> string" where
  "cache_map c wd =
     (if wd < 0 then None
      else map_option (\<lambda>j. w_path (c ! j)) (find_index (\<lambda>w. w_wd w = wd) c))"

text \<open>The descriptors and pathnames the cache holds.\<close>

abbreviation cmap :: "'k dt \<Rightarrow> int \<rightharpoonup> string" where
  "cmap s \<equiv> cache_map (wlCache s)"

abbreviation dt_ok :: "'k dt \<Rightarrow> bool" where
  "dt_ok s \<equiv> cache_ok (wlCache s)"

lemma logMessage_frame [frame_simps, simp]:
  "wlCache (logMessage vb f a s) = wlCache s"
  "rootDirPaths (logMessage vb f a s) = rootDirPaths s"
  "ignoreRootDirs (logMessage vb f a s) = ignoreRootDirs s"
  "rootDirStat (logMessage vb f a s) = rootDirStat s"
  "kern (logMessage vb f a s) = kern s"
  "abortOnCacheProblem (logMessage vb f a s) = abortOnCacheProblem s"
  "checkCache (logMessage vb f a s) = checkCache s"
  "dumpCache (logMessage vb f a s) = dumpCache s"
  "dirCnt (logMessage vb f a s) = dirCnt s"
  "ifd (logMessage vb f a s) = ifd s"
  "reinitCnt (logMessage vb f a s) = reinitCnt s"
  "overflowCnt (logMessage vb f a s) = overflowCnt s"
  "inotifyReadCnt (logMessage vb f a s) = inotifyReadCnt s"
  "readBufferSize (logMessage vb f a s) = readBufferSize s"
  "stopFile (logMessage vb f a s) = stopFile s"
  "verboseMask (logMessage vb f a s) = verboseMask s"
  "stdout_out (logMessage vb f a s) = stdout_out s"
  "(logfp (logMessage vb f a s) = None) = (logfp s = None)"
  by (auto simp: logMessage_def eprint_def Let_def split: option.splits)

lemma eprint_frame [frame_simps, simp]:
  "wlCache (eprint f a s) = wlCache s"
  "rootDirPaths (eprint f a s) = rootDirPaths s"
  "ignoreRootDirs (eprint f a s) = ignoreRootDirs s"
  "kern (eprint f a s) = kern s"
  by (auto simp: eprint_def)

lemma oprint_frame [frame_simps, simp]:
  "wlCache (oprint f a s) = wlCache s"
  "rootDirPaths (oprint f a s) = rootDirPaths s"
  "ignoreRootDirs (oprint f a s) = ignoreRootDirs s"
  "kern (oprint f a s) = kern s"
  by (auto simp: oprint_def)

lemma markCacheSlotEmpty_frame [frame_simps, simp]:
  "wlCache (markCacheSlotEmpty j s) = (wlCache s)[j := \<lparr>w_wd = -1, w_path = []\<rparr>]"
  "rootDirPaths (markCacheSlotEmpty j s) = rootDirPaths s"
  "ignoreRootDirs (markCacheSlotEmpty j s) = ignoreRootDirs s"
  "kern (markCacheSlotEmpty j s) = kern s"
  "dirCnt (markCacheSlotEmpty j s) = dirCnt s"
  by (auto simp: markCacheSlotEmpty_def Let_def)

lemma fold_markCacheSlotEmpty [frame_simps, simp]:
  "wlCache (fold markCacheSlotEmpty js s) = fold (\<lambda>j c. c[j := \<lparr>w_wd = -1, w_path = []\<rparr>]) js (wlCache s)"
  "rootDirPaths (fold markCacheSlotEmpty js s) = rootDirPaths s"
  "ignoreRootDirs (fold markCacheSlotEmpty js s) = ignoreRootDirs s"
  "kern (fold markCacheSlotEmpty js s) = kern s"
  "dirCnt (fold markCacheSlotEmpty js s) = dirCnt s"
  by (induction js arbitrary: s) auto

lemma cache_ok_Nil [simp]: "cache_ok []"
  by (simp add: cache_ok_def)

lemma cache_ok_grow:
  "cache_ok c \<Longrightarrow> cache_ok (c @ replicate ALLOC_INCR \<lparr>w_wd = -1, w_path = []\<rparr>)"
  by (auto simp: cache_ok_def nth_append split: if_splits)

lemma cache_ok_free:
  assumes "cache_ok c"
  shows "cache_ok (c[j := \<lparr>w_wd = -1, w_path = []\<rparr>])"
proof (cases "j < length c")
  case True
  with assms show ?thesis unfolding cache_ok_def by (auto simp: nth_list_update)
qed (use assms in \<open>simp add: list_update_beyond\<close>)

lemma cache_map_eq_Some_iff:
  assumes "cache_ok c"
  shows "cache_map c wd = Some p \<longleftrightarrow> 0 \<le> wd \<and> (\<exists>j<length c. w_wd (c ! j) = wd \<and> w_path (c ! j) = p)"
    (is "?L \<longleftrightarrow> ?R")
proof
  assume ?L
  then show ?R by (auto simp: cache_map_def dest: find_index_Some split: if_splits)
next
  assume ?R
  then obtain j where j: "0 \<le> wd" "j < length c" "w_wd (c ! j) = wd" "w_path (c ! j) = p" by blast
  with assms have "find_index (\<lambda>w. w_wd w = wd) c = Some j"
    by (intro find_index_unique) (auto simp: cache_ok_def)
  with j show ?L by (simp add: cache_map_def)
qed

lemma cache_map_grow:
  assumes "cache_ok c"
  shows "cache_map (c @ replicate ALLOC_INCR \<lparr>w_wd = -1, w_path = []\<rparr>) = cache_map c"
proof
  fix wd
  let ?c = "c @ replicate ALLOC_INCR \<lparr>w_wd = -1, w_path = []\<rparr>"
  have slots: "(\<exists>j<length ?c. w_wd (?c ! j) = wd \<and> w_path (?c ! j) = p) \<longleftrightarrow>
      (\<exists>j<length c. w_wd (c ! j) = wd \<and> w_path (c ! j) = p)" if "0 \<le> wd" for p
  proof
    assume "\<exists>j<length ?c. w_wd (?c ! j) = wd \<and> w_path (?c ! j) = p"
    then obtain j where "j < length ?c" "w_wd (?c ! j) = wd" "w_path (?c ! j) = p" by blast
    with that show "\<exists>j<length c. w_wd (c ! j) = wd \<and> w_path (c ! j) = p"
      by (cases "j < length c") (auto simp: nth_append)
  next
    assume "\<exists>j<length c. w_wd (c ! j) = wd \<and> w_path (c ! j) = p"
    then obtain j where "j < length c" "w_wd (c ! j) = wd" "w_path (c ! j) = p" by blast
    then show "\<exists>j<length ?c. w_wd (?c ! j) = wd \<and> w_path (?c ! j) = p"
      by (intro exI [of _ j]) (simp add: nth_append)
  qed
  show "cache_map ?c wd = cache_map c wd"
    by (rule option_eqI)
      (simp add: cache_map_eq_Some_iff assms cache_ok_grow slots del: length_append cong: conj_cong)
qed

lemma cache_map_free:
  assumes "cache_ok c" "j < length c" "0 \<le> w_wd (c ! j)"
  shows "cache_map (c[j := \<lparr>w_wd = -1, w_path = []\<rparr>]) = (cache_map c)(w_wd (c ! j) := None)"
proof
  fix wd
  show "cache_map (c[j := \<lparr>w_wd = -1, w_path = []\<rparr>]) wd = ((cache_map c)(w_wd (c ! j) := None)) wd"
  proof (rule option_eqI)
    fix p
    have "i = j" if "i < length c" "w_wd (c ! i) = w_wd (c ! j)" for i
      using assms that by (auto simp: cache_ok_def)
    then show "cache_map (c[j := \<lparr>w_wd = -1, w_path = []\<rparr>]) wd = Some p \<longleftrightarrow>
        ((cache_map c)(w_wd (c ! j) := None)) wd = Some p"
      using assms
      by (auto simp: cache_map_eq_Some_iff cache_ok_free nth_list_update split: if_splits) metis
  qed
qed

lemma cache_map_put:
  assumes ok: "cache_ok c" and j: "j < length c" "w_wd (c ! j) = -1"
    and wd: "0 \<le> wd" "cache_map c wd = None"
  shows "cache_ok (c[j := \<lparr>w_wd = wd, w_path = p\<rparr>])"
    and "cache_map (c[j := \<lparr>w_wd = wd, w_path = p\<rparr>]) = (cache_map c)(wd \<mapsto> p)"
proof -
  have new: "w_wd (c ! i) \<noteq> wd" if "i < length c" for i
    using wd that ok cache_map_eq_Some_iff [OF ok, of wd] by fastforce
  show ok': "cache_ok (c[j := \<lparr>w_wd = wd, w_path = p\<rparr>])"
    using ok new wd j unfolding cache_ok_def
    by (auto simp: nth_list_update split: if_splits)
  show "cache_map (c[j := \<lparr>w_wd = wd, w_path = p\<rparr>]) = (cache_map c)(wd \<mapsto> p)"
  proof
    fix d
    show "cache_map (c[j := \<lparr>w_wd = wd, w_path = p\<rparr>]) d = ((cache_map c)(wd \<mapsto> p)) d"
    proof (rule option_eqI)
      fix q
      have "j \<noteq> i" if "i < length c" "0 \<le> w_wd (c ! i)" for i using that j by auto
      with j new wd show "cache_map (c[j := \<lparr>w_wd = wd, w_path = p\<rparr>]) d = Some q \<longleftrightarrow>
          ((cache_map c)(wd \<mapsto> p)) d = Some q"
        by (auto simp: cache_map_eq_Some_iff ok ok' nth_list_update split: if_splits)
    qed
  qed
qed

section \<open>The cache operations implement a finite map\<close>

text \<open>The variables about the command-line directories, which no cache operation changes.\<close>

abbreviation same_roots :: "'k dt \<Rightarrow> 'k dt \<Rightarrow> bool" where
  "same_roots s t \<equiv> rootDirPaths t = rootDirPaths s \<and> ignoreRootDirs t = ignoreRootDirs s"

lemma fold_free_new_slots:
  "fold (\<lambda>j c. c[j := e]) [length c..<length c + n] (c @ map f [0..<n]) = c @ replicate n e"
proof -
  have "fold (\<lambda>j c. c[j := e]) [length c..<length c + n] (c @ map f [0..<n]) =
      c @ map (\<lambda>_. e) [length c..<length c + n]"
    using fold_list_update [of "length c" "c @ map f [0..<n]" "\<lambda>_. e" n] by simp
  then show ?thesis by (simp add: map_replicate_const)
qed

lemma findEmptyCacheSlot_spec:
  assumes "dt_ok s"
  shows "holds (\<lambda>j t. dt_ok t \<and> cmap t = cmap s \<and> same_roots s t \<and> dirCnt t = dirCnt s \<and>
                   j < length (wlCache t) \<and> w_wd (wlCache t ! j) = -1)
               (\<lambda>h t. h = Exit EXIT_FAILURE \<and> wlCache t = wlCache s \<and> same_roots s t)
               (findEmptyCacheSlot sys s)"
proof (cases "find_index (\<lambda>w. w_wd w = -1) (wlCache s)")
  case (Some j)
  with assms show ?thesis by (auto simp: findEmptyCacheSlot_def dest: find_index_Some)
next
  case None
  have "0 < ALLOC_INCR" by (simp add: ALLOC_INCR_def)
  with None assms show ?thesis
    by (auto simp: findEmptyCacheSlot_def Let_def errExit_def fold_free_new_slots cache_ok_grow
        cache_map_grow nth_append split: prod.splits option.splits)
qed

lemma findWatch_None_iff:
  "dt_ok s \<Longrightarrow> 0 \<le> wd \<Longrightarrow> findWatch wd s = None \<longleftrightarrow> cmap s wd = None"
  by (auto simp: findWatch_def cache_map_def)

lemma findWatch_Some_iff:
  assumes "dt_ok s" "0 \<le> wd"
  shows "findWatch wd s = Some j \<longleftrightarrow> j < length (wlCache s) \<and> w_wd (wlCache s ! j) = wd"
proof
  assume "j < length (wlCache s) \<and> w_wd (wlCache s ! j) = wd"
  with assms show "findWatch wd s = Some j"
    unfolding findWatch_def by (intro find_index_unique) (auto simp: cache_ok_def)
qed (auto simp: findWatch_def dest: find_index_Some)

lemma addWatchToCache_spec:
  fixes s :: "'k dt"
  assumes "dt_ok s" "0 \<le> wd" "cmap s wd = None"
  shows "holds (\<lambda>j t. dt_ok t \<and> cmap t = (cmap s)(wd \<mapsto> strncpy PATH_MAX p) \<and>
                   same_roots s t \<and> dirCnt t = dirCnt s \<and> findWatch wd t = Some j)
               (\<lambda>h t. h = Exit EXIT_FAILURE \<and> wlCache t = wlCache s \<and> same_roots s t)
               (addWatchToCache sys wd p s)"
  unfolding addWatchToCache_def
proof (rule holds_andThen [OF findEmptyCacheSlot_spec [OF assms(1)]], elim conjE)
  fix j and t :: "'k dt"
  assume t: "dt_ok t" "cmap t = cmap s" "j < length (wlCache t)" "w_wd (wlCache t ! j) = -1"
    "rootDirPaths t = rootDirPaths s" "ignoreRootDirs t = ignoreRootDirs s" "dirCnt t = dirCnt s"
  let ?t = "t\<lparr>wlCache := (wlCache t)[j := \<lparr>w_wd = wd, w_path = strncpy PATH_MAX p\<rparr>]\<rparr>"
  have "cmap t wd = None" using assms t(2) by simp
  note put = cache_map_put [OF t(1,3,4) assms(2) this, of "strncpy PATH_MAX p"]
  have "findWatch wd ?t = Some j"
    using put assms(2) t(3) by (subst findWatch_Some_iff) auto
  with put t show "holds (\<lambda>j t. dt_ok t \<and> cmap t = (cmap s)(wd \<mapsto> strncpy PATH_MAX p) \<and>
      same_roots s t \<and> dirCnt t = dirCnt s \<and> findWatch wd t = Some j)
    (\<lambda>h t. h = Exit EXIT_FAILURE \<and> wlCache t = wlCache s \<and> same_roots s t) (Done j ?t)"
    by simp
qed

lemma markCacheSlotEmpty_spec:
  assumes "dt_ok s" "0 \<le> wd" "findWatch wd s = Some j"
  shows "dt_ok (markCacheSlotEmpty j s)"
    and "cmap (markCacheSlotEmpty j s) = (cmap s)(wd := None)"
  using assms cache_map_free [of "wlCache s" j]
  by (auto simp: findWatch_Some_iff cache_ok_free)

text \<open>
  What the event handlers rely on: a table keyed by watch descriptors, with a slot number
  handed out by \<open>add\<close> and \<open>find_wd\<close> and taken by \<open>remove_at\<close>.
\<close>

locale watch_store =
  fixes lookup :: "'s \<Rightarrow> int \<rightharpoonup> string"
    and valid :: "'s \<Rightarrow> bool"
    and find_wd :: "int \<Rightarrow> 's \<Rightarrow> nat option"
    and add :: "int \<Rightarrow> string \<Rightarrow> 's \<Rightarrow> ('s, nat) run"
    and remove_at :: "nat \<Rightarrow> 's \<Rightarrow> 's"
  assumes find_wd_None: "valid s \<Longrightarrow> 0 \<le> wd \<Longrightarrow> find_wd wd s = None \<longleftrightarrow> lookup s wd = None"
    and add: "valid s \<Longrightarrow> 0 \<le> wd \<Longrightarrow> lookup s wd = None \<Longrightarrow>
      holds (\<lambda>j t. valid t \<and> lookup t = (lookup s)(wd \<mapsto> strncpy PATH_MAX p) \<and> find_wd wd t = Some j)
            (\<lambda>_ t. valid t \<and> lookup t = lookup s) (add wd p s)"
    and remove_at: "valid s \<Longrightarrow> 0 \<le> wd \<Longrightarrow> find_wd wd s = Some j \<Longrightarrow>
      valid (remove_at j s) \<and> lookup (remove_at j s) = (lookup s)(wd := None)"
begin

lemma removed_not_found:
  "valid s \<Longrightarrow> 0 \<le> wd \<Longrightarrow> find_wd wd s = Some j \<Longrightarrow> find_wd wd (remove_at j s) = None"
  using find_wd_None [of "remove_at j s" wd] remove_at [of s wd j] by simp

text \<open>Adding a new descriptor and removing it again restores the table.\<close>

lemma add_remove:
  assumes "valid s" "0 \<le> wd" "lookup s wd = None" "add wd p s = Done j t"
  shows "valid (remove_at j t) \<and> lookup (remove_at j t) = lookup s"
proof -
  from add [OF assms(1-3), of p] assms(4)
  have t: "valid t" "lookup t = (lookup s)(wd \<mapsto> strncpy PATH_MAX p)" "find_wd wd t = Some j"
    by auto
  from remove_at [OF t(1) assms(2) t(3)] t(2) assms(3) show ?thesis by auto
qed

text \<open>An entry survives the addition or removal of every other descriptor.\<close>

lemma other_survives:
  assumes "valid s" "0 \<le> wd" "wd' \<noteq> wd" "lookup s wd' = Some q"
  shows "lookup s wd = None \<Longrightarrow> keeps (\<lambda>t. lookup t wd' = Some q) (add wd p s)"
    and "find_wd wd s = Some j \<Longrightarrow> lookup (remove_at j s) wd' = Some q"
  using add [OF assms(1,2), of p] remove_at [OF assms(1,2), of j] assms(3,4)
  by (auto elim!: holds_weaken)

end

interpretation cache: watch_store cmap dt_ok findWatch "addWatchToCache sys" markCacheSlotEmpty
  for sys
proof
  fix s :: "'a dt" and wd :: int and p j
  assume s: "dt_ok s" "0 \<le> wd"
  show "findWatch wd s = None \<longleftrightarrow> cmap s wd = None"
    using s by (rule findWatch_None_iff)
  show "cmap s wd = None \<Longrightarrow>
      holds (\<lambda>j t. dt_ok t \<and> cmap t = (cmap s)(wd \<mapsto> strncpy PATH_MAX p) \<and> findWatch wd t = Some j)
            (\<lambda>_ t. dt_ok t \<and> cmap t = cmap s) (addWatchToCache sys wd p s)"
    using addWatchToCache_spec [OF s, of p sys] s by (auto elim!: holds_weaken)
  show "findWatch wd s = Some j \<Longrightarrow>
      dt_ok (markCacheSlotEmpty j s) \<and> cmap (markCacheSlotEmpty j s) = (cmap s)(wd := None)"
    using s markCacheSlotEmpty_spec by blast
qed

end
