(* ===== verification/Dtree_Tree.thy ===== *)
theory Dtree_Tree
  imports Dtree_Cache
begin

text \<open>
  The directory-tree operations of \<^verbatim>\<open>inotify/inotify_dtree.c\<close>: the list of root
  directories given on the command line, the \<^verbatim>\<open>nftw()\<close> callback that adds watches,
  the renaming and removal of a whole subtree in the cache, and the rebuilding of the
  cache.  The lemmas describe each of them as a transformation of the finite map
  \<open>cmap\<close>, and show that each keeps the invariant.
\<close>

section \<open>Root directories\<close>

abbreviation (input) quoted :: "string \<Rightarrow> string" where
  "quoted f \<equiv> CHR 0x27 # f @ [CHR 0x27]"

text \<open>First pass of \<^verbatim>\<open>copyRootDirPaths()\<close>: every argument must be a directory.\<close>

fun check_root_args :: "'k sys \<Rightarrow> string list \<Rightarrow> 'k dt \<Rightarrow> ('k dt, unit) run" where
  "check_root_args sys [] s = Done () s"
| "check_root_args sys (p # ps) s =
     (case sys_lstat sys p (kern s) of
        (Inl _, k) \<Rightarrow> Halt (Exit EXIT_FAILURE) (eprint (''lstat() failed on '' @ quoted ''%s'') [S p] (s\<lparr>kern := k\<rparr>))
      | (Inr sb, k) \<Rightarrow>
          if \<not> st_isdir sb
          then Halt (Exit EXIT_FAILURE) (eprint (quoted ''%s'' @ '' is not a directory'') [S p] (s\<lparr>kern := k\<rparr>))
          else check_root_args sys ps (s\<lparr>kern := k\<rparr>))"

definition same_object :: "stat \<Rightarrow> stat \<Rightarrow> bool" where
  "same_object a b \<longleftrightarrow> st_ino a = st_ino b \<and> st_dev a = st_dev b"

text \<open>
  Second pass: \<^verbatim>\<open>argv[j]\<close> is duplicated into \<^verbatim>\<open>rootDirPaths[j]\<close> and compared by i-node and
  device with the earlier arguments.
\<close>

fun copy_root_args :: "'k sys \<Rightarrow> string list \<Rightarrow> 'k dt \<Rightarrow> ('k dt, unit) run" where
  "copy_root_args sys [] s = Done () s"
| "copy_root_args sys (p # ps) s =
     (let s = s\<lparr>rootDirPaths := rootDirPaths s @ [Some p]\<rparr>
      in case sys_lstat sys p (kern s) of
           (Inl err, k) \<Rightarrow> errExit ''lstat'' err (s\<lparr>kern := k\<rparr>)
         | (Inr sb, k) \<Rightarrow>
             (case find_index (same_object sb) (rootDirStat s) of
                Some i \<Rightarrow> Halt (Exit EXIT_FAILURE)
                  (eprint ''Duplicate filesystem objects: %s, %s''
                     [S p, S (case rootDirPaths s ! i of Some q \<Rightarrow> q | None \<Rightarrow> [])] (s\<lparr>kern := k\<rparr>))
              | None \<Rightarrow> copy_root_args sys ps
                  (s\<lparr>kern := k, rootDirStat := rootDirStat s @ [sb]\<rparr>)))"

definition copyRootDirPaths :: "'k sys \<Rightarrow> string list \<Rightarrow> 'k dt \<Rightarrow> ('k dt, unit) run" where
  "copyRootDirPaths sys argv s =
     andThen (check_root_args sys argv s) (\<lambda>_ s.
     andThen (copy_root_args sys argv (s\<lparr>rootDirPaths := [], rootDirStat := []\<rparr>)) (\<lambda>_ s.
       Done () (s\<lparr>ignoreRootDirs := 0\<rparr>)))"

definition findRootDirPath :: "string \<Rightarrow> 'k dt \<Rightarrow> nat option" where
  "findRootDirPath path s = find_index (\<lambda>r. r = Some path) (rootDirPaths s)"

definition isRootDirPath :: "string \<Rightarrow> 'k dt \<Rightarrow> bool" where
  "isRootDirPath path s = (findRootDirPath path s \<noteq> None)"

definition zapRootDirPath :: "string \<Rightarrow> 'k dt \<Rightarrow> ('k dt, unit) run" where
  "zapRootDirPath path s =
     (let s = oprint ''zapRootDirPath: %s'' [S path] s
      in case findRootDirPath path s of
           None \<Rightarrow> Halt (Exit EXIT_FAILURE) (eprint ''zapRootDirPath(): path not found!'' [] s)
         | Some p \<Rightarrow>
             (let s = s\<lparr>rootDirPaths := (rootDirPaths s)[p := None],
                        ignoreRootDirs := ignoreRootDirs s + 1\<rparr>
              in if ignoreRootDirs s = int (length (rootDirPaths s))
                 then Halt (Exit EXIT_SUCCESS) (eprint ''No more root paths left to monitor; bye!'' [] s)
                 else Done () s))"

section \<open>Adding watches for a tree\<close>

abbreviation (input) IN_MOVED_FROM :: "32 word" where "IN_MOVED_FROM \<equiv> 0x40"
abbreviation (input) IN_MOVED_TO :: "32 word" where "IN_MOVED_TO \<equiv> 0x80"
abbreviation (input) IN_CREATE :: "32 word" where "IN_CREATE \<equiv> 0x100"
abbreviation (input) IN_DELETE_SELF :: "32 word" where "IN_DELETE_SELF \<equiv> 0x400"
abbreviation (input) IN_MOVE_SELF :: "32 word" where "IN_MOVE_SELF \<equiv> 0x800"
abbreviation (input) IN_UNMOUNT :: "32 word" where "IN_UNMOUNT \<equiv> 0x2000"
abbreviation (input) IN_Q_OVERFLOW :: "32 word" where "IN_Q_OVERFLOW \<equiv> 0x4000"
abbreviation (input) IN_IGNORED :: "32 word" where "IN_IGNORED \<equiv> 0x8000"
abbreviation (input) IN_ONLYDIR :: "32 word" where "IN_ONLYDIR \<equiv> 0x01000000"
abbreviation (input) IN_ISDIR :: "32 word" where "IN_ISDIR \<equiv> 0x40000000"
abbreviation (input) ENOENT :: int where "ENOENT \<equiv> 2"

definition watch_flags :: "string \<Rightarrow> 'k dt \<Rightarrow> 32 word" where
  "watch_flags pathname s =
     (let flags = IN_CREATE OR IN_MOVED_FROM OR IN_MOVED_TO OR IN_DELETE_SELF
      in if isRootDirPath pathname s then flags OR IN_MOVE_SELF else flags)"

definition traverseTree :: "'k sys \<Rightarrow> string \<times> stat \<Rightarrow> 'k dt \<Rightarrow> ('k dt, unit) run" where
  "traverseTree sys v s =
     (let (pathname, sb) = v
      in if \<not> st_isdir sb then Done () s
         else
           case sys_add_watch sys (ifd s) pathname (watch_flags pathname s OR IN_ONLYDIR) (kern s) of
             (Inl err, k) \<Rightarrow>
               (let s = logMessage VB_BASIC ''inotify_add_watch: %s: %s'' [S pathname, StrError err]
                          (s\<lparr>kern := k\<rparr>)
                in if err = ENOENT then Done () s else Halt (Exit EXIT_FAILURE) s)
           | (Inr wd, k) \<Rightarrow>
               (let s = s\<lparr>kern := k\<rparr>
                in if findWatch wd s \<noteq> None
                   then Done () (logMessage VB_BASIC ''WD %d already in cache (%s)'' [I wd, S pathname] s)
                   else
                     andThen (addWatchToCache sys wd pathname (s\<lparr>dirCnt := dirCnt s + 1\<rparr>))
                       (\<lambda>slot s. Done ()
                         (logMessage VB_NOISY ''watchDir: wd = %d [cache slot: %d]; %s''
                            [I wd, I (int slot), S pathname] s))))"

text \<open>
  \<^verbatim>\<open>nftw()\<close> calls the callback for the files it visits, in order, and returns an error
  number when it could not start or finish the traversal.  The callback returns 0 or
  terminates the process, so it never stops the traversal early.
\<close>

definition watchDir :: "'k sys \<Rightarrow> int \<Rightarrow> string \<Rightarrow> 'k dt \<Rightarrow> ('k dt, int) run" where
  "watchDir sys inotifyFd pathname s =
     (case sys_nftw sys pathname (kern s) of
        ((visits, err), k) \<Rightarrow>
          andThen (forEach (traverseTree sys) visits (s\<lparr>dirCnt := 0, ifd := inotifyFd, kern := k\<rparr>))
            (\<lambda>_ s.
              let s = (case err of
                         None \<Rightarrow> s
                       | Some e \<Rightarrow> logMessage VB_BASIC
                           ''nftw: %s: %s (directory probably deleted before we could watch)''
                           [S pathname, StrError e] s)
              in Done (dirCnt s) s))"

definition watchSubtree :: "'k sys \<Rightarrow> int \<Rightarrow> string \<Rightarrow> 'k dt \<Rightarrow> ('k dt, unit) run" where
  "watchSubtree sys inotifyFd path s =
     andThen (watchDir sys inotifyFd path s) (\<lambda>cnt s.
       Done () (logMessage VB_BASIC ''watchSubtree: %s: %d entries added'' [S path, I cnt] s))"

section \<open>Renaming and removing a subtree\<close>

text \<open>
  The test of both loops: \<open>p\<close> is the directory \<open>dir\<close> or lies below it, that is
  \<^verbatim>\<open>strncmp(dir, p, len) == 0 && (p[len] == '/' || p[len] == '\0')\<close>.
\<close>

definition in_subtree :: "string \<Rightarrow> string \<Rightarrow> bool" where
  "in_subtree dir p \<longleftrightarrow>
     strncmp_eq dir p (length dir) \<and>
     (char_at p (length dir) = CHR ''/'' \<or> char_at p (length dir) = NUL)"

definition rewrite_slot :: "string \<Rightarrow> string \<Rightarrow> nat \<Rightarrow> 'k dt \<Rightarrow> 'k dt" where
  "rewrite_slot fullPath newPrefix j s =
     (let w = wlCache s ! j; len = length fullPath
      in if in_subtree fullPath (w_path w)
         then
           let full = newPrefix @ drop len (w_path w);
               newPath = snprintf_str PATH_MAX full;
               s = (if length full > PATH_MAX
                    then logMessage VB_BASIC ''Truncated pathname: %s'' [S newPath] s else s);
               s = s\<lparr>wlCache := (wlCache s)[j := w\<lparr>w_path := strncpy PATH_MAX newPath\<rparr>]\<rparr>
           in logMessage VB_NOISY ''wd %d [cache slot %d] ==> %s'' [I (w_wd w), I (int j), S newPath] s
         else s)"

definition rewriteCachedPaths :: "string \<Rightarrow> string \<Rightarrow> string \<Rightarrow> string \<Rightarrow> 'k dt \<Rightarrow> 'k dt" where
  "rewriteCachedPaths oldPathPrefix oldName newPathPrefix newName s =
     (let fullPath = snprintf_str PATH_MAX (oldPathPrefix @ ''/'' @ oldName);
          newPrefix = snprintf_str PATH_MAX (newPathPrefix @ ''/'' @ newName);
          s = logMessage VB_BASIC ''Rename: %s ==> %s'' [S fullPath, S newPrefix] s
      in fold (rewrite_slot fullPath newPrefix) [0..<length (wlCache s)] s)"

text \<open>The loop of \<^verbatim>\<open>zapSubtree()\<close>; the result -1 (\<open>None\<close>) is the \<^verbatim>\<open>break\<close>.\<close>

fun zap_slots :: "'k sys \<Rightarrow> int \<Rightarrow> string \<Rightarrow> nat list \<Rightarrow> nat \<Rightarrow> 'k dt \<Rightarrow> nat option \<times> 'k dt" where
  "zap_slots sys inotifyFd pn [] cnt s = (Some cnt, s)"
| "zap_slots sys inotifyFd pn (j # js) cnt s =
     (let w = wlCache s ! j
      in if 0 \<le> w_wd w \<and> in_subtree pn (w_path w)
         then
           let s = logMessage VB_NOISY ''removing watch: wd = %d (%s)'' [I (w_wd w), S (w_path w)] s
           in case sys_rm_watch sys inotifyFd (w_wd w) (kern s) of
                (Some err, k) \<Rightarrow>
                  (None, logMessage 0 ''inotify_rm_watch wd = %d (%s): %s''
                           [I (w_wd w), S (w_path w), StrError err] (s\<lparr>kern := k\<rparr>))
              | (None, k) \<Rightarrow>
                  zap_slots sys inotifyFd pn js (Suc cnt) (markCacheSlotEmpty j (s\<lparr>kern := k\<rparr>))
         else zap_slots sys inotifyFd pn js cnt s)"

definition zapSubtree :: "'k sys \<Rightarrow> int \<Rightarrow> string \<Rightarrow> 'k dt \<Rightarrow> nat option \<times> 'k dt" where
  "zapSubtree sys inotifyFd path s =
     (let s = logMessage VB_NOISY ''Zapping subtree: %s'' [S path] s
      in zap_slots sys inotifyFd path [0..<length (wlCache s)] 0 s)"

section \<open>Rebuilding the cache\<close>

definition reinitialize :: "'k sys \<Rightarrow> int \<Rightarrow> 'k dt \<Rightarrow> ('k dt, int) run" where
  "reinitialize sys oldInotifyFd s =
     (let s = (if oldInotifyFd \<ge> 0
               then
                 let s = s\<lparr>kern := sys_close sys oldInotifyFd (kern s), reinitCnt := reinitCnt s + 1\<rparr>
                 in logMessage 0 ''Reinitializing cache and inotify FD (reinitCnt = %d)''
                      [I (reinitCnt s)] s
               else (logMessage 0 ''Initializing cache'' [] s)\<lparr>reinitCnt := 0\<rparr>)
      in case sys_inotify_init sys (kern s) of
           (Inl err, k) \<Rightarrow> errExit ''inotify_init'' err (s\<lparr>kern := k\<rparr>)
         | (Inr inotifyFd, k) \<Rightarrow>
             (let s = logMessage VB_BASIC ''new inotifyFd = %d'' [I inotifyFd] (s\<lparr>kern := k\<rparr>);
                  s = freeCache s
              in andThen (forEach (\<lambda>r s. case r of None \<Rightarrow> Done () s
                                            | Some p \<Rightarrow> watchSubtree sys inotifyFd p s)
                            (rootDirPaths s) s)
                   (\<lambda>_ s.
                     let cnt = length (used_slots (wlCache s));
                         s = (if oldInotifyFd \<ge> 0
                              then logMessage 0 ''Rebuilt cache with %d entries'' [I (int cnt)] s else s)
                     in Done inotifyFd s)))"

section \<open>The invariant of the program state\<close>

text \<open>
  Besides the invariant of the cache, \<^verbatim>\<open>ignoreRootDirs\<close> counts the root directories that
  are no longer monitored.
\<close>

definition dead_roots :: "string option list \<Rightarrow> nat" where
  "dead_roots rs = length (filter (\<lambda>r. r = None) rs)"

definition dt_inv :: "'k dt \<Rightarrow> bool" where
  "dt_inv s \<longleftrightarrow> dt_ok s \<and> ignoreRootDirs s = int (dead_roots (rootDirPaths s))"

text \<open>What inotify(7) promises: a watch descriptor is never negative.\<close>

definition wd_nonneg :: "'k sys \<Rightarrow> bool" where
  "wd_nonneg sys \<longleftrightarrow>
     (\<forall>fd p fl k. case sys_add_watch sys fd p fl k of (Inl _, _) \<Rightarrow> True | (Inr wd, _) \<Rightarrow> 0 \<le> wd)"

lemma wd_nonnegD: "wd_nonneg sys \<Longrightarrow> sys_add_watch sys fd p fl k = (Inr wd, k') \<Longrightarrow> 0 \<le> wd"
  unfolding wd_nonneg_def by (drule spec [of _ fd], drule spec [of _ p], drule spec [of _ fl],
      drule spec [of _ k]) simp

lemma finite_dom_cache_map [simp]: "finite (dom (cache_map c))"
proof (rule finite_subset)
  show "dom (cache_map c) \<subseteq> set (map w_wd c)"
    by (fastforce simp: cache_map_def dest: find_index_Some split: if_splits)
qed simp

lemma dead_roots_update:
  "p < length rs \<Longrightarrow> rs ! p \<noteq> None \<Longrightarrow> dead_roots (rs[p := None]) = Suc (dead_roots rs)"
proof (induction rs arbitrary: p)
  case (Cons r rs)
  then show ?case by (cases p) (auto simp: dead_roots_def)
qed simp

lemma zapRootDirPath_spec:
  assumes "dt_inv s"
  shows "holds (\<lambda>_ t. dt_inv t \<and> wlCache t = wlCache s \<and> \<not> (\<forall>r\<in>set (rootDirPaths t). r = None) \<and>
                  (\<exists>p. findRootDirPath path s = Some p \<and> rootDirPaths t = (rootDirPaths s)[p := None]))
               (\<lambda>h t. dt_inv t \<and> (h = Exit EXIT_SUCCESS \<longrightarrow> (\<forall>r\<in>set (rootDirPaths t). r = None)))
               (zapRootDirPath path s)"
proof (cases "findRootDirPath path s")
  case None
  with assms show ?thesis
    by (auto simp: zapRootDirPath_def findRootDirPath_def dt_inv_def Let_def)
next
  case (Some p)
  then have p: "p < length (rootDirPaths s)" "rootDirPaths s ! p \<noteq> None"
    by (auto simp: findRootDirPath_def dest!: find_index_Some)
  have all: "dead_roots rs = length rs \<longleftrightarrow> (\<forall>r\<in>set rs. r = None)" for rs
    unfolding dead_roots_def
  proof (induction rs)
    case (Cons r rs)
    moreover have "length (filter (\<lambda>r. r = None) rs) \<noteq> Suc (length rs)"
      by (metis Suc_n_not_le_n length_filter_le)
    ultimately show ?case by auto
  qed simp
  from Some have "findRootDirPath path (oprint f a s) = Some p" for f a
    by (simp add: findRootDirPath_def)
  with Some assms dead_roots_update [OF p] all [of "(rootDirPaths s)[p := None]"]
  show ?thesis
    by (auto simp: zapRootDirPath_def dt_inv_def Let_def)
qed

section \<open>Adding watches\<close>

text \<open>Every step of a traversal only adds entries, and only for visited directories.\<close>

definition grows :: "string set \<Rightarrow> 'k dt \<Rightarrow> 'k dt \<Rightarrow> bool" where
  "grows P s t \<longleftrightarrow> dt_ok t \<and> same_roots s t \<and> cmap s \<subseteq>\<^sub>m cmap t \<and>
     (\<forall>wd p. cmap t wd = Some p \<longrightarrow> cmap s wd = Some p \<or> p \<in> strncpy PATH_MAX ` P)"

lemma grows_refl: "dt_ok s \<Longrightarrow> grows P s s"
  by (simp add: grows_def)

lemma grows_trans:
  assumes "grows P s t" "grows P t u"
  shows "grows P s u"
proof -
  have "cmap s \<subseteq>\<^sub>m cmap u" using assms by (auto simp: grows_def intro: map_le_trans)
  moreover have "cmap s wd = Some p \<or> p \<in> strncpy PATH_MAX ` P" if "cmap u wd = Some p" for wd p
    using that assms unfolding grows_def by fast
  ultimately show ?thesis using assms by (simp add: grows_def)
qed

lemma grows_mono: "grows P s t \<Longrightarrow> P \<subseteq> Q \<Longrightarrow> grows Q s t"
  unfolding grows_def by blast

lemma grows_cong:
  "wlCache s' = wlCache s \<Longrightarrow> same_roots s s' \<Longrightarrow> grows P s' t \<longleftrightarrow> grows P s t"
  by (simp add: grows_def)

lemma grows_logMessage [simp]: "grows P s (logMessage vb f a t) = grows P s t"
  by (simp add: grows_def)

lemma traverseTree_grows:
  assumes "wd_nonneg sys" "dt_ok s"
  shows "holds (\<lambda>_ t. grows (if st_isdir sb then {p} else {}) s t \<and>
                  dirCnt t - dirCnt s = int (card (dom (cmap t))) - int (card (dom (cmap s))))
               (\<lambda>_. grows (if st_isdir sb then {p} else {}) s)
               (traverseTree sys (p, sb) s)"
proof (cases "sys_add_watch sys (ifd s) p (watch_flags p s OR IN_ONLYDIR) (kern s)")
  case (Pair r k)
  show ?thesis
  proof (cases "\<exists>wd. r = Inr wd \<and> findWatch wd s = None \<and> st_isdir sb")
    case True
    then obtain wd where wd: "r = Inr wd" "findWatch wd s = None" "st_isdir sb" by blast
    with assms Pair have nonneg: "0 \<le> wd" by (auto dest: wd_nonnegD)
    with wd assms have new: "cmap s wd = None" by (simp add: findWatch_None_iff)
    let ?s = "s\<lparr>kern := k, dirCnt := dirCnt s + 1\<rparr>"
    have "holds (\<lambda>_ t. grows {p} s t \<and>
                  dirCnt t - dirCnt s = int (card (dom (cmap t))) - int (card (dom (cmap s))))
               (\<lambda>_. grows {p} s) (addWatchToCache sys wd p ?s)"
      using addWatchToCache_spec [of ?s wd p sys] assms(2) nonneg new
      by (auto simp: grows_def map_le_def card_insert_if domIff split: if_splits
          elim!: holds_weaken)
    note add = this
    from Pair wd show ?thesis
      by (simp add: traverseTree_def findWatch_def Let_def) (rule holds_andThen [OF add], simp)
  next
    case False
    with Pair assms show ?thesis
      by (auto simp: traverseTree_def Let_def findWatch_def grows_refl grows_def split: sum.splits)
  qed
qed

lemma watchDir_grows:
  fixes s :: "'k dt"
  assumes "wd_nonneg sys" "dt_ok s"
    and "P = {p. \<exists>sb. (p, sb) \<in> set (fst (fst (sys_nftw sys path (kern s)))) \<and> st_isdir sb}"
  shows "holds (\<lambda>cnt t. grows P s t \<and>
                  cnt = int (card (dom (cmap t))) - int (card (dom (cmap s))))
               (\<lambda>_. grows P s) (watchDir sys fd path s)"
proof -
  obtain visits err k where nftw: "sys_nftw sys path (kern s) = ((visits, err), k)"
    by (metis prod.exhaust)
  let ?s = "s\<lparr>dirCnt := 0, ifd := fd, kern := k\<rparr>"
  let ?I = "\<lambda>t. grows P s t \<and> dirCnt t = int (card (dom (cmap t))) - int (card (dom (cmap s)))"
  have "holds (\<lambda>_. ?I) (\<lambda>_. grows P s) (forEach (traverseTree sys) visits ?s)"
  proof (rule holds_forEach)
    show "?I ?s" using assms(2) by (simp add: grows_def)
  next
    fix v and t :: "'k dt"
    assume v: "v \<in> set visits" and I: "?I t"
    obtain p sb where [simp]: "v = (p, sb)" by (cases v)
    have sub: "(if st_isdir sb then {p} else {}) \<subseteq> P"
      using v nftw assms(3) by auto
    have "dt_ok t" using I by (simp add: grows_def)
    then have "holds (\<lambda>_. ?I) (\<lambda>_. grows P s) (traverseTree sys (p, sb) t)"
      by (rule holds_weaken [OF traverseTree_grows [OF assms(1)]])
        (use I in \<open>auto dest: grows_mono [OF _ sub] intro: grows_trans\<close>)
    then show "holds (\<lambda>_. ?I) (\<lambda>_. grows P s) (traverseTree sys v t)" by simp
  qed
  then show ?thesis
    unfolding watchDir_def nftw prod.case
    by (rule holds_andThen) (auto simp: Let_def grows_def split: option.splits)
qed

text \<open>The directories a subtree traversal reports, for any environment state.\<close>

definition visited :: "'k sys \<Rightarrow> string \<Rightarrow> string set" where
  "visited sys path = {p. \<exists>k sb. (p, sb) \<in> set (fst (fst (sys_nftw sys path k))) \<and> st_isdir sb}"

lemma watchSubtree_grows:
  assumes "wd_nonneg sys" "dt_ok s"
  shows "keeps (grows (visited sys path) s) (watchSubtree sys fd path s)"
proof -
  have "{p. \<exists>sb. (p, sb) \<in> set (fst (fst (sys_nftw sys path (kern s)))) \<and> st_isdir sb}
      \<subseteq> visited sys path" by (auto simp: visited_def)
  note mono = grows_mono [OF _ this]
  show ?thesis
    unfolding watchSubtree_def
    by (rule holds_andThen [OF watchDir_grows [OF assms refl, THEN holds_weaken]])
      (auto intro: mono)
qed

section \<open>Renaming a subtree\<close>

text \<open>What a rename does to one pathname, with the truncations of the fixed-size buffers.\<close>

definition rename_entry :: "string \<Rightarrow> string \<Rightarrow> string \<Rightarrow> string" where
  "rename_entry old new p =
     (if in_subtree old p
      then strncpy PATH_MAX (snprintf_str PATH_MAX (new @ drop (length old) p)) else p)"

text \<open>What it should do: replace the directory prefix \<open>old\<close> by \<open>new\<close>.\<close>

definition rename_path :: "string \<Rightarrow> string \<Rightarrow> string \<Rightarrow> string" where
  "rename_path old new p =
     (if p = old \<or> prefix (old @ ''/'') p then new @ drop (length old) p else p)"

lemma in_subtree_iff:
  assumes "NUL \<notin> set p"
  shows "in_subtree d p \<longleftrightarrow> p = d \<or> prefix (d @ ''/'') p"
proof -
  have "char_at p (length d) = NUL \<longleftrightarrow> length p \<le> length d"
    using assms by (metis char_at_def linorder_not_less nth_mem)
  moreover have "prefix (d @ ''/'') p \<longleftrightarrow> prefix d p \<and> char_at p (length d) = CHR ''/''"
    by (auto simp: prefix_def char_at_def nth_append) (metis append_Nil2 list.exhaust nth_Cons_0)
  ultimately show ?thesis
    by (auto simp: in_subtree_def strncmp_eq_prefix prefix_def)
qed

lemma rename_entry_eq:
  assumes "NUL \<notin> set p" "length (rename_path old new p) < PATH_MAX"
  shows "rename_entry old new p = rename_path old new p"
  using assms by (auto simp: rename_entry_def rename_path_def in_subtree_iff strncpy_def snprintf_str_def)

lemma rewrite_slot_frame [frame_simps]:
  "wlCache (rewrite_slot old new j s) =
     (wlCache s)[j := (wlCache s ! j)\<lparr>w_path := rename_entry old new (w_path (wlCache s ! j))\<rparr>]"
  "same_roots s (rewrite_slot old new j s)"
  "kern (rewrite_slot old new j s) = kern s"
  by (auto simp: rewrite_slot_def rename_entry_def Let_def)

lemma rewriteCachedPaths_cache:
  assumes "old = snprintf_str PATH_MAX (od @ ''/'' @ on)" "new = snprintf_str PATH_MAX (nd @ ''/'' @ nn)"
  shows "wlCache (rewriteCachedPaths od on nd nn s) =
     map (\<lambda>w. w\<lparr>w_path := rename_entry old new (w_path w)\<rparr>) (wlCache s)"
    and "same_roots s (rewriteCachedPaths od on nd nn s)"
proof -
  have wl: "wlCache (fold (rewrite_slot old new) js t) =
      fold (\<lambda>j c. c[j := (c ! j)\<lparr>w_path := rename_entry old new (w_path (c ! j))\<rparr>]) js (wlCache t)"
    and "same_roots t (fold (rewrite_slot old new) js t)" for js and t :: "'a dt"
    by (induction js arbitrary: t) (auto simp: rewrite_slot_frame)
  then show "wlCache (rewriteCachedPaths od on nd nn s) =
      map (\<lambda>w. w\<lparr>w_path := rename_entry old new (w_path w)\<rparr>) (wlCache s)"
    "same_roots s (rewriteCachedPaths od on nd nn s)"
    using fold_update_each [of "\<lambda>w. w\<lparr>w_path := rename_entry old new (w_path w)\<rparr>" "wlCache s"]
    by (simp_all add: rewriteCachedPaths_def assms Let_def)
qed

lemma cache_map_map_path:
  "cache_map (map (\<lambda>w. w\<lparr>w_path := f (w_path w)\<rparr>) c) wd = map_option f (cache_map c wd)"
  by (auto simp: cache_map_def find_index_map option.map_comp o_def dest: find_index_Some
      split: option.splits intro!: option.map_cong)

lemma cache_ok_map_path:
  "cache_ok c \<Longrightarrow> f [] = [] \<Longrightarrow> cache_ok (map (\<lambda>w. w\<lparr>w_path := f (w_path w)\<rparr>) c)"
  by (auto simp: cache_ok_def)

lemma rewriteCachedPaths_spec:
  assumes "dt_ok s"
    and "old = snprintf_str PATH_MAX (od @ ''/'' @ on)" "new = snprintf_str PATH_MAX (nd @ ''/'' @ nn)"
  shows "dt_ok (rewriteCachedPaths od on nd nn s)"
    and "cmap (rewriteCachedPaths od on nd nn s) wd = map_option (rename_entry old new) (cmap s wd)"
proof -
  have "old \<noteq> []" by (simp add: assms(2) snprintf_str_def)
  then have "rename_entry old new [] = []"
    by (auto simp: rename_entry_def in_subtree_def strncmp_eq_prefix)
  then show "dt_ok (rewriteCachedPaths od on nd nn s)"
    and "cmap (rewriteCachedPaths od on nd nn s) wd = map_option (rename_entry old new) (cmap s wd)"
    using assms(1)
    by (simp_all add: rewriteCachedPaths_cache [OF assms(2,3)] cache_ok_map_path cache_map_map_path)
qed

section \<open>Removing a subtree\<close>

definition free_slots :: "nat set \<Rightarrow> watch list \<Rightarrow> watch list" where
  "free_slots Z c = map (\<lambda>i. if i \<in> Z then \<lparr>w_wd = -1, w_path = []\<rparr> else c ! i) [0..<length c]"

definition zapped :: "string \<Rightarrow> watch \<Rightarrow> bool" where
  "zapped pn w \<longleftrightarrow> 0 \<le> w_wd w \<and> in_subtree pn (w_path w)"

lemma length_free_slots [simp]: "length (free_slots Z c) = length c"
  by (simp add: free_slots_def)

lemma nth_free_slots [simp]:
  "i < length c \<Longrightarrow> free_slots Z c ! i = (if i \<in> Z then \<lparr>w_wd = -1, w_path = []\<rparr> else c ! i)"
  by (simp add: free_slots_def)

lemma free_slots_empty: "free_slots {} c = c"
  by (simp add: free_slots_def map_nth)

lemma free_slots_insert: "free_slots Z (c[j := \<lparr>w_wd = -1, w_path = []\<rparr>]) = free_slots (insert j Z) c"
  by (rule nth_equalityI) (auto simp: nth_list_update)

lemma cache_ok_free_slots: "cache_ok c \<Longrightarrow> cache_ok (free_slots Z c)"
  unfolding cache_ok_def by auto

lemma cache_map_free_slots:
  assumes "cache_ok c"
  shows "cache_map (free_slots Z c) wd = Some p \<longleftrightarrow>
    0 \<le> wd \<and> (\<exists>j<length c. j \<notin> Z \<and> w_wd (c ! j) = wd \<and> w_path (c ! j) = p)"
  using assms by (auto simp: cache_map_eq_Some_iff cache_ok_free_slots split: if_splits)

lemma zap_slots_spec:
  assumes "distinct js" "zap_slots sys fd pn js cnt s = (r, t)"
  shows "\<exists>Z \<subseteq> {j \<in> set js. zapped pn (wlCache s ! j)}.
      wlCache t = free_slots Z (wlCache s) \<and> same_roots s t \<and>
      (\<forall>n. r = Some n \<longrightarrow> Z = {j \<in> set js. zapped pn (wlCache s ! j)} \<and> n = cnt + card Z)"
  using assms
proof (induction js arbitrary: cnt s)
  case Nil
  then show ?case by (auto intro!: exI [of _ "{}"] simp: free_slots_empty)
next
  case (Cons j js)
  show ?case
  proof (cases "zapped pn (wlCache s ! j)")
    case False
    then have "zap_slots sys fd pn js cnt s = (r, t)"
      using Cons.prems(2) by (auto simp: zapped_def Let_def)
    moreover have "{i \<in> set (j # js). zapped pn (wlCache s ! i)} = {i \<in> set js. zapped pn (wlCache s ! i)}"
      using False by auto
    ultimately show ?thesis using Cons.IH [of cnt s] Cons.prems(1) by simp
  next
    case True
    let ?s = "logMessage VB_NOISY ''removing watch: wd = %d (%s)''
      [I (w_wd (wlCache s ! j)), S (w_path (wlCache s ! j))] s"
    obtain err k where rm: "sys_rm_watch sys fd (w_wd (wlCache s ! j)) (kern s) = (err, k)"
      by fastforce
    show ?thesis
    proof (cases err)
      case (Some e)
      with Cons.prems(2) True rm show ?thesis
        by (auto simp: zapped_def Let_def free_slots_empty intro!: exI [of _ "{}"])
    next
      case None
      let ?t = "markCacheSlotEmpty j (?s\<lparr>kern := k\<rparr>)"
      have "zap_slots sys fd pn js (Suc cnt) ?t = (r, t)"
        using Cons.prems(2) True rm None by (auto simp: zapped_def Let_def)
      from Cons.IH [OF _ this] Cons.prems(1) obtain Z where
        Z: "Z \<subseteq> {i \<in> set js. zapped pn (wlCache ?t ! i)}" "wlCache t = free_slots Z (wlCache ?t)"
          "same_roots ?t t"
          "\<forall>n. r = Some n \<longrightarrow> Z = {i \<in> set js. zapped pn (wlCache ?t ! i)} \<and> n = Suc cnt + card Z"
        by auto
      have same: "{i \<in> set js. zapped pn (wlCache ?t ! i)} = {i \<in> set js. zapped pn (wlCache s ! i)}"
      proof -
        have "wlCache ?t ! i = wlCache s ! i" if "i \<in> set js" for i
          using that Cons.prems(1) by (cases "i = j") auto
        then show ?thesis by auto
      qed
      have j: "j \<notin> Z" "finite Z" using Z(1) Cons.prems(1) by (auto intro: finite_subset)
      show ?thesis
      proof (intro exI [of _ "insert j Z"] conjI allI impI)
        show "insert j Z \<subseteq> {i \<in> set (j # js). zapped pn (wlCache s ! i)}"
          using Z(1) True unfolding same by auto
        show "wlCache t = free_slots (insert j Z) (wlCache s)"
          using Z(2) by (simp add: free_slots_insert)
        show "rootDirPaths t = rootDirPaths s" "ignoreRootDirs t = ignoreRootDirs s"
          using Z(3) by simp_all
        fix n assume "r = Some n"
        with Z(4) have "Z = {i \<in> set js. zapped pn (wlCache s ! i)}" "n = Suc cnt + card Z"
          unfolding same by auto
        then show "insert j Z = {i \<in> set (j # js). zapped pn (wlCache s ! i)}"
          "n = cnt + card (insert j Z)" using True j by auto
      qed
    qed
  qed
qed

lemma zapSubtree_spec:
  assumes ok: "dt_ok s" and zap: "zapSubtree sys fd pn s = (r, t)"
  shows "dt_ok t" and "same_roots s t" and "cmap t \<subseteq>\<^sub>m cmap s"
    and "r = Some n \<Longrightarrow>
       cmap t wd = (case cmap s wd of None \<Rightarrow> None | Some p \<Rightarrow> if in_subtree pn p then None else Some p)"
proof -
  from zap have "zap_slots sys fd pn [0..<length (wlCache s)] 0
      (logMessage VB_NOISY ''Zapping subtree: %s'' [S pn] s) = (r, t)"
    by (simp add: zapSubtree_def)
  from zap_slots_spec [OF distinct_upt this] obtain Z where Z: "Z \<subseteq> {j. j < length (wlCache s) \<and> zapped pn (wlCache s ! j)}"
      "wlCache t = free_slots Z (wlCache s)" "same_roots s t"
      "\<forall>n. r = Some n \<longrightarrow> Z = {j. j < length (wlCache s) \<and> zapped pn (wlCache s ! j)}"
    by (auto simp: atLeast0LessThan)
  show "dt_ok t" "same_roots s t" using Z ok by (simp_all add: cache_ok_free_slots)
  show "cmap t \<subseteq>\<^sub>m cmap s"
    unfolding map_le_def
  proof (intro ballI)
    fix d assume "d \<in> dom (cmap t)"
    then obtain p where p: "cmap t d = Some p" by auto
    then have "cmap s d = Some p"
      using Z(2) by (auto simp: cache_map_free_slots [OF ok] cache_map_eq_Some_iff [OF ok])
    with p show "cmap t d = cmap s d" by simp
  qed
  assume "r = Some n"
  with Z have Zeq: "Z = {j. j < length (wlCache s) \<and> zapped pn (wlCache s ! j)}" by simp
  show "cmap t wd = (case cmap s wd of None \<Rightarrow> None | Some p \<Rightarrow> if in_subtree pn p then None else Some p)"
    (is "_ = ?m")
  proof (rule option_eqI)
    fix p
    have "?m = Some p \<longleftrightarrow> cmap s wd = Some p \<and> \<not> in_subtree pn p"
      by (auto split: option.splits)
    then show "cmap t wd = Some p \<longleftrightarrow> ?m = Some p"
      using Z(2) Zeq
      by (auto simp: cache_map_free_slots [OF ok] cache_map_eq_Some_iff [OF ok] zapped_def)
  qed
qed

lemma zapSubtree_keeps_others:
  assumes ok: "dt_ok s" and zap: "zapSubtree sys fd pn s = (r, t)"
    and p: "cmap s wd = Some p" "\<not> in_subtree pn p"
  shows "cmap t wd = Some p"
proof -
  from zap have "zap_slots sys fd pn [0..<length (wlCache s)] 0
      (logMessage VB_NOISY ''Zapping subtree: %s'' [S pn] s) = (r, t)"
    by (simp add: zapSubtree_def)
  from zap_slots_spec [OF distinct_upt this] obtain Z where
      Z: "Z \<subseteq> {j. j < length (wlCache s) \<and> zapped pn (wlCache s ! j)}" "wlCache t = free_slots Z (wlCache s)"
    by auto
  with p show ?thesis
    by (auto simp: cache_map_free_slots [OF ok] cache_map_eq_Some_iff [OF ok] zapped_def)
qed

lemma zapSubtree_count:
  assumes ok: "dt_ok s" and zap: "zapSubtree sys fd pn s = (Some n, t)"
  shows "n = card {wd. \<exists>p. cmap s wd = Some p \<and> in_subtree pn p}"
proof -
  let ?Z = "{j. j < length (wlCache s) \<and> zapped pn (wlCache s ! j)}"
  from zap have "zap_slots sys fd pn [0..<length (wlCache s)] 0
      (logMessage VB_NOISY ''Zapping subtree: %s'' [S pn] s) = (Some n, t)"
    by (simp add: zapSubtree_def)
  from zap_slots_spec [OF distinct_upt this] have "n = card ?Z"
    by (auto simp: atLeast0LessThan)
  also have "\<dots> = card ((\<lambda>j. w_wd (wlCache s ! j)) ` ?Z)"
    using ok by (intro card_image [symmetric] inj_onI) (auto simp: cache_ok_def zapped_def)
  also have "(\<lambda>j. w_wd (wlCache s ! j)) ` ?Z = {wd. \<exists>p. cmap s wd = Some p \<and> in_subtree pn p}"
    by (auto simp: cache_map_eq_Some_iff [OF ok] zapped_def)
  finally show ?thesis .
qed

section \<open>Rebuilding the cache\<close>

lemma freeCache_frame [simp]:
  "wlCache (freeCache s) = []" "rootDirPaths (freeCache s) = rootDirPaths s"
  "ignoreRootDirs (freeCache s) = ignoreRootDirs s"
  by (simp_all add: freeCache_def)

lemma cache_map_Nil [simp]: "cache_map [] = Map.empty"
  by (simp add: cache_map_def fun_eq_iff)

text \<open>The directories below the root directories that are still monitored.\<close>

definition monitored :: "'k sys \<Rightarrow> 'k dt \<Rightarrow> string set" where
  "monitored sys s = (\<Union>r \<in> {r. Some r \<in> set (rootDirPaths s)}. visited sys r)"

text \<open>The part of \<^verbatim>\<open>reinitialize()\<close> after a new inotify instance was created.\<close>

definition rebuild :: "'k sys \<Rightarrow> int \<Rightarrow> 'k dt \<Rightarrow> ('k dt, unit) run" where
  "rebuild sys fd s = forEach (\<lambda>r s. case r of None \<Rightarrow> Done () s
                                | Some p \<Rightarrow> watchSubtree sys fd p s) (rootDirPaths s) s"

lemma rebuild_spec:
  fixes s :: "'k dt"
  assumes "wd_nonneg sys" "wlCache s = []"
  shows "keeps (grows (monitored sys s) s) (rebuild sys fd s)"
  unfolding rebuild_def
proof (rule holds_forEach)
  show "grows (monitored sys s) s s" using assms by (simp add: grows_refl)
next
  fix r and t :: "'k dt"
  assume r: "r \<in> set (rootDirPaths s)" and t: "grows (monitored sys s) s t"
  show "keeps (grows (monitored sys s) s)
      (case r of None \<Rightarrow> Done () t | Some p \<Rightarrow> watchSubtree sys fd p t)"
  proof (cases r)
    case (Some p)
    with r have sub: "visited sys p \<subseteq> monitored sys s" by (auto simp: monitored_def)
    from t have "dt_ok t" by (simp add: grows_def)
    then have "keeps (grows (monitored sys s) s) (watchSubtree sys fd p t)"
      by (rule holds_weaken [OF watchSubtree_grows [OF assms(1)]])
        (auto intro: grows_trans [OF t] dest: grows_mono [OF _ sub])
    with Some show ?thesis by simp
  qed (use t in simp)
qed

lemma reinitialize_spec:
  fixes s :: "'k dt"
  assumes "wd_nonneg sys" "dt_ok s"
  shows "holds (\<lambda>_ t. dt_ok t \<and> same_roots s t \<and> ran (cmap t) \<subseteq> strncpy PATH_MAX ` monitored sys s)
               (\<lambda>_ t. dt_ok t \<and> same_roots s t) (reinitialize sys old s)"
proof -
  let ?E = "\<lambda>(_ :: halt) t :: 'k dt. dt_ok t \<and> same_roots s t"
  let ?Q = "\<lambda>t :: 'k dt. dt_ok t \<and> same_roots s t \<and> ran (cmap t) \<subseteq> strncpy PATH_MAX ` monitored sys s"
  have rb: "holds (\<lambda>_. ?Q) ?E (rebuild sys fd t)" if "wlCache t = []" "same_roots s t" for fd and t :: "'k dt"
    by (rule holds_weaken [OF rebuild_spec [OF assms(1) that(1)]])
      (use that in \<open>auto simp: grows_def ran_def monitored_def\<close>)
  show ?thesis
    unfolding reinitialize_def Let_def rebuild_def [symmetric]
    using assms(2)
    by (auto simp: errExit_def split: prod.splits sum.splits intro!: holds_andThen [OF rb])
qed

text \<open>
  A successful rebuild does not depend on the cache it replaces, however damaged.
\<close>

lemma reinitialize_forgets_cache:
  assumes "reinitialize sys old s = Done fd t"
  shows "reinitialize sys old (s\<lparr>wlCache := c\<rparr>) = Done fd t"
proof -
  have log: "logMessage vb f a (u\<lparr>wlCache := c\<rparr>) = (logMessage vb f a u)\<lparr>wlCache := c\<rparr>" for vb f a and u :: "'a dt"
    by (simp add: logMessage_def eprint_def Let_def split: option.splits)
  have free: "freeCache (u\<lparr>wlCache := c\<rparr>) = freeCache u" for u :: "'a dt"
    by (simp add: freeCache_def)
  have upd: "u\<lparr>wlCache := c, kern := k\<rparr> = u\<lparr>kern := k, wlCache := c\<rparr>"
    "u\<lparr>wlCache := c, kern := k, reinitCnt := n\<rparr> = u\<lparr>kern := k, reinitCnt := n, wlCache := c\<rparr>"
    "u\<lparr>wlCache := c, reinitCnt := n\<rparr> = u\<lparr>reinitCnt := n, wlCache := c\<rparr>" for u :: "'a dt" and k n
    by simp_all
  show ?thesis
    using assms unfolding reinitialize_def Let_def errExit_def
    by (cases "old \<ge> 0")
      (auto simp: log free upd simp del: dt.update_convs split: prod.splits sum.splits)
qed

end
