(* ===== verification/Dtree_Events.thy ===== *)
theory Dtree_Events
  imports Dtree_Tree
begin

text \<open>
  Event processing in \<^verbatim>\<open>inotify/inotify_dtree.c\<close>.  A buffer filled by \<^verbatim>\<open>read()\<close> is the list
  of the events laid out in it from the current position, together with the number of
  bytes the program believes are left (\<^verbatim>\<open>bufSize\<close>); the two differ by one byte after an
  interrupted secondary read.  The answers of the successive \<^verbatim>\<open>read()\<close> calls on the inotify
  descriptor are a list; when it is exhausted the program waits (\<open>Blocked\<close>).  Bytes
  written beyond the end of the buffer are a \<open>Fault\<close>.
  The lemmas show that every event keeps the invariant of the program, that the loop over
  a buffer always makes progress, and what the individual events do to the cached tree.
\<close>

section \<open>Events\<close>

record inotify_event =
  ev_wd :: int
  ev_mask :: "32 word"
  ev_cookie :: "32 word"
  ev_len :: nat
  ev_name :: string

definition ev_bytes :: "inotify_event \<Rightarrow> int" where
  "ev_bytes ev = 16 + int (ev_len ev)"

abbreviation (input) INOTIFY_READ_BUF_LEN :: int where
  "INOTIFY_READ_BUF_LEN \<equiv> 100 * (16 + 255 + 1)"

definition has :: "inotify_event \<Rightarrow> 32 word \<Rightarrow> bool" where
  "has ev m \<longleftrightarrow> ev_mask ev AND m \<noteq> 0"

definition displayInotifyEvent :: "inotify_event \<Rightarrow> 'k dt \<Rightarrow> 'k dt" where
  "displayInotifyEvent ev s =
     (let flag = (\<lambda>(m, f) s. if has ev m then logMessage VB_NOISY f [] s else s);
          s = logMessage VB_NOISY ''==> wd = %d; '' [I (ev_wd ev)] s;
          s = (if ev_cookie ev > 0 then logMessage VB_NOISY ''cookie = %4d; '' [I (uint (ev_cookie ev))] s
               else s);
          s = logMessage VB_NOISY ''mask = '' [] s;
          s = fold flag
                [(IN_ISDIR, ''IN_ISDIR ''), (IN_CREATE, ''IN_CREATE ''),
                 (IN_DELETE_SELF, ''IN_DELETE_SELF ''), (IN_MOVE_SELF, ''IN_MOVE_SELF ''),
                 (IN_MOVED_FROM, ''IN_MOVED_FROM ''), (IN_MOVED_TO, ''IN_MOVED_TO ''),
                 (IN_IGNORED, ''IN_IGNORED ''), (IN_Q_OVERFLOW, ''IN_Q_OVERFLOW ''),
                 (IN_UNMOUNT, ''IN_UNMOUNT '')] s;
          s = logMessage VB_NOISY '''' [] s
      in if ev_len ev > 0 then logMessage VB_NOISY ''        name = %s'' [S (ev_name ev)] s else s)"

section \<open>Processing one event\<close>

text \<open>
  How a branch of \<^verbatim>\<open>processNextInotifyEvent()\<close> ends: with the event consumed, with the
  cache known to be inconsistent (the branch rebuilds it and discards the buffer), with a
  queue overflow, or with a request for another \<^verbatim>\<open>read()\<close>.
\<close>

datatype verdict = Consumed int | Lost | Overflow | Hanging

text \<open>
  The lookup at the start: \<open>None\<close> when the watch descriptor is not cached; otherwise the
  value of \<^verbatim>\<open>evCacheSlot\<close>, which stays uninitialised (\<open>Some None\<close>) for events without a watch
  descriptor and for \<^verbatim>\<open>IN_IGNORED\<close>.
\<close>

definition event_slot :: "'k sys \<Rightarrow> inotify_event \<Rightarrow> 'k dt \<Rightarrow> ('k dt, nat option option) run" where
  "event_slot sys ev s =
     (if ev_wd ev \<noteq> -1 \<and> \<not> has ev IN_IGNORED
      then andThen (findWatchChecked sys (ev_wd ev) s) (\<lambda>r s. Done (map_option Some r) s)
      else Done (Some None) s)"

text \<open>Reading \<^verbatim>\<open>wlCache[evCacheSlot]\<close> with the index uninitialised is undefined.\<close>

fun with_slot :: "nat option \<Rightarrow> (nat \<Rightarrow> 'k dt \<Rightarrow> ('k dt, 'a) run) \<Rightarrow> 'k dt \<Rightarrow> ('k dt, 'a) run" where
  "with_slot None f s = Halt Fault s"
| "with_slot (Some j) f s = f j s"

definition ev_full_path :: "inotify_event \<Rightarrow> nat \<Rightarrow> 'k dt \<Rightarrow> string" where
  "ev_full_path ev j s =
     snprintf_str (PATH_MAX + NAME_MAX) (w_path (wlCache s ! j) @ ''/'' @ ev_name ev)"

definition on_dir_created :: "'k sys \<Rightarrow> int \<Rightarrow> inotify_event \<Rightarrow> nat \<Rightarrow> 'k dt \<Rightarrow> ('k dt, verdict) run" where
  "on_dir_created sys inotifyFd ev j s =
     (let fullPath = ev_full_path ev j s;
          s = logMessage VB_BASIC ''Directory creation on wd %d: %s'' [I (ev_wd ev), S fullPath] s
      in andThen (if \<not> pathnameInCache fullPath s then watchSubtree sys inotifyFd fullPath s
                  else Done () s)
           (\<lambda>_ s. Done (Consumed (ev_bytes ev)) s))"

definition on_delete_self :: "inotify_event \<Rightarrow> nat \<Rightarrow> 'k dt \<Rightarrow> ('k dt, verdict) run" where
  "on_delete_self ev j s =
     (let p = w_path (wlCache s ! j);
          s = logMessage VB_BASIC ''Clearing watchlist item %d (%s)'' [I (ev_wd ev), S p] s
      in andThen (if isRootDirPath p s then zapRootDirPath p s else Done () s)
           (\<lambda>_ s. Done (Consumed (ev_bytes ev)) (markCacheSlotEmpty j s)))"

text \<open>The directory was moved out of the monitored trees.\<close>

definition on_moved_out ::
  "'k sys \<Rightarrow> int \<Rightarrow> inotify_event \<Rightarrow> nat \<Rightarrow> int \<Rightarrow> bool \<Rightarrow> 'k dt \<Rightarrow> ('k dt, verdict) run" where
  "on_moved_out sys inotifyFd ev j bufSize firstTry s =
     (let s = logMessage VB_NOISY ''MOVED_OUT: %p %p'' [Ptr, Ptr] s;
          s = logMessage VB_NOISY ''firstTry = %d; remaining bytes = %d''
                [I (of_bool firstTry), I (bufSize - ev_bytes ev)] s
      in case zapSubtree sys inotifyFd (ev_full_path ev j s) s of
           (None, s) \<Rightarrow> Done Lost s
         | (Some _, s) \<Rightarrow> Done (Consumed (ev_bytes ev)) s)"

text \<open>
  The \<^verbatim>\<open>IN_MOVED_FROM\<close> branch.  The next event is looked at only if it starts within the
  \<open>bufSize\<close> bytes; there being none there although the byte count says so would be a read
  of stale buffer contents.
\<close>

definition on_moved_from ::
  "'k sys \<Rightarrow> int \<Rightarrow> inotify_event \<Rightarrow> nat \<Rightarrow> inotify_event list \<Rightarrow> int \<Rightarrow> bool \<Rightarrow> 'k dt \<Rightarrow> ('k dt, verdict) run"
where
  "on_moved_from sys inotifyFd ev j rest bufSize firstTry s =
     (if ev_bytes ev < bufSize
      then case rest of
             [] \<Rightarrow> Halt Fault s
           | nextEv # _ \<Rightarrow>
               if has nextEv IN_MOVED_TO \<and> ev_cookie nextEv = ev_cookie ev
               then andThen (findWatchChecked sys (ev_wd nextEv) s) (\<lambda>r s.
                      case r of
                        None \<Rightarrow> Done Lost s
                      | Some nj \<Rightarrow>
                          Done (Consumed (ev_bytes ev + ev_bytes nextEv))
                            (rewriteCachedPaths (w_path (wlCache s ! j)) (ev_name ev)
                               (w_path (wlCache s ! nj)) (ev_name nextEv) s))
               else on_moved_out sys inotifyFd ev j bufSize firstTry s
      else if \<not> firstTry then on_moved_out sys inotifyFd ev j bufSize firstTry s
      else Done Hanging (logMessage VB_NOISY ''HANGING IN_MOVED_FROM'' [] s))"

definition on_overflow :: "'k dt \<Rightarrow> ('k dt, verdict) run" where
  "on_overflow s =
     (let s = s\<lparr>overflowCnt := overflowCnt s + 1\<rparr>
      in Done Overflow
           (logMessage 0 ''Queue overflow (%d) (inotifyReadCnt = %d)''
              [I (overflowCnt s), I (inotifyReadCnt s)] s))"

definition on_unmount :: "inotify_event \<Rightarrow> nat \<Rightarrow> 'k dt \<Rightarrow> ('k dt, verdict) run" where
  "on_unmount ev j s =
     Done (Consumed (ev_bytes ev))
       (markCacheSlotEmpty j
          (logMessage 0 ''Filesystem unmounted: %s'' [S (w_path (wlCache s ! j))] s))"

definition on_root_moved :: "'k sys \<Rightarrow> int \<Rightarrow> inotify_event \<Rightarrow> nat \<Rightarrow> 'k dt \<Rightarrow> ('k dt, verdict) run" where
  "on_root_moved sys inotifyFd ev j s =
     (let p = w_path (wlCache s ! j);
          s = logMessage 0 ''Root path moved: %s'' [S p] s
      in andThen (zapRootDirPath p s) (\<lambda>_ s.
           case zapSubtree sys inotifyFd p s of
             (None, s) \<Rightarrow> Done Lost s
           | (Some _, s) \<Rightarrow> Done (Consumed (ev_bytes ev)) s))"

definition dispatch ::
  "'k sys \<Rightarrow> int \<Rightarrow> inotify_event \<Rightarrow> nat option \<Rightarrow> inotify_event list \<Rightarrow> int \<Rightarrow> bool \<Rightarrow> 'k dt \<Rightarrow> ('k dt, verdict) run"
where
  "dispatch sys inotifyFd ev slot rest bufSize firstTry s =
     (if has ev IN_ISDIR \<and> has ev (IN_CREATE OR IN_MOVED_TO)
      then with_slot slot (on_dir_created sys inotifyFd ev) s
      else if has ev IN_DELETE_SELF
      then with_slot slot (on_delete_self ev) s
      else if ev_mask ev AND (IN_MOVED_FROM OR IN_ISDIR) = IN_MOVED_FROM OR IN_ISDIR
      then with_slot slot (\<lambda>j. on_moved_from sys inotifyFd ev j rest bufSize firstTry) s
      else if has ev IN_Q_OVERFLOW
      then on_overflow s
      else if has ev IN_UNMOUNT
      then with_slot slot (on_unmount ev) s
      else if has ev IN_MOVE_SELF
      then with_slot slot (\<lambda>j s.
             if isRootDirPath (w_path (wlCache s ! j)) s then on_root_moved sys inotifyFd ev j s
             else Done (Consumed (ev_bytes ev)) s) s
      else Done (Consumed (ev_bytes ev)) s)"

text \<open>The checks at the end of the function.\<close>

definition after_event :: "'k sys \<Rightarrow> 'a \<Rightarrow> 'k dt \<Rightarrow> ('k dt, 'a) run" where
  "after_event sys r s =
     andThen (if checkCache s then checkCacheConsistency sys s else Done () s) (\<lambda>_ s.
     andThen (if dumpCache s then dumpCacheToLog s else Done () s) (\<lambda>_ s. Done r s))"

definition reinit_discard :: "'k sys \<Rightarrow> int \<Rightarrow> 'k dt \<Rightarrow> ('k dt, int \<times> int) run" where
  "reinit_discard sys inotifyFd s =
     andThen (reinitialize sys inotifyFd s) (\<lambda>fd s. Done (INOTIFY_READ_BUF_LEN, fd) s)"

text \<open>The result is the number of bytes consumed, or -1, and the inotify descriptor.\<close>

definition processNextInotifyEvent ::
  "'k sys \<Rightarrow> int \<Rightarrow> inotify_event list \<Rightarrow> int \<Rightarrow> bool \<Rightarrow> 'k dt \<Rightarrow> ('k dt, int \<times> int) run" where
  "processNextInotifyEvent sys inotifyFd buf bufSize firstTry s =
     (case buf of
        [] \<Rightarrow> Halt Fault s
      | ev # rest \<Rightarrow>
          andThen (event_slot sys ev (displayInotifyEvent ev s)) (\<lambda>sl s.
            case sl of
              None \<Rightarrow> reinit_discard sys inotifyFd s
            | Some slot \<Rightarrow>
                andThen (dispatch sys inotifyFd ev slot rest bufSize firstTry s) (\<lambda>v s.
                  case v of
                    Lost \<Rightarrow> reinit_discard sys inotifyFd s
                  | Hanging \<Rightarrow> Done (-1, inotifyFd) s
                  | Overflow \<Rightarrow>
                      andThen (reinitialize sys inotifyFd s)
                        (\<lambda>fd s. after_event sys (INOTIFY_READ_BUF_LEN, fd) s)
                  | Consumed n \<Rightarrow> after_event sys (n, inotifyFd) s)))"

section \<open>Processing a buffer\<close>

text \<open>
  The answers of the successive calls \<^verbatim>\<open>read(inotifyFd, ..., cnt)\<close>, each a function of \<^verbatim>\<open>cnt\<close>.
  An empty list of events is the return value 0.
\<close>

datatype read_result = ReadErr int | ReadEvents "inotify_event list"

type_synonym reads = "(int \<Rightarrow> read_result) list"

abbreviation (input) EINTR :: int where "EINTR \<equiv> 4"

definition total_bytes :: "inotify_event list \<Rightarrow> int" where
  "total_bytes evs = sum_list (map ev_bytes evs)"

text \<open>Advancing the position in the buffer by a number of bytes.\<close>

fun drop_bytes :: "int \<Rightarrow> inotify_event list \<Rightarrow> inotify_event list" where
  "drop_bytes n [] = []"
| "drop_bytes n (e # es) = (if n \<le> 0 then e # es else drop_bytes (n - ev_bytes e) es)"

text \<open>
  The event loop.  After an interrupted secondary read (\<^verbatim>\<open>nr == -1\<close>, \<^verbatim>\<open>errno == EINTR\<close>) the
  test \<^verbatim>\<open>errno != -1\<close> still holds, so the program adds -1 to the byte count and counts a read.
\<close>

definition secondary_read :: "int \<Rightarrow> 'k dt \<Rightarrow> 'k dt" where
  "secondary_read nr s =
     (let s = s\<lparr>inotifyReadCnt := inotifyReadCnt s + 1\<rparr>
      in logMessage VB_NOISY ''==========> SECONDARY Read %d: got %zd bytes''
           [I (inotifyReadCnt s), I nr] s)"

function process_loop ::
  "'k sys \<Rightarrow> reads \<Rightarrow> int \<Rightarrow> inotify_event list \<Rightarrow> int \<Rightarrow> bool \<Rightarrow> 'k dt \<Rightarrow>
     ('k dt, int \<times> reads) run"
where
  "process_loop sys reads fd evs numRead firstTry s =
     (if numRead \<le> 0 then Done (fd, reads) s
      else case processNextInotifyEvent sys fd evs numRead firstTry s of
        Halt h t \<Rightarrow> Halt h t
      | Done (evLen, fd') t \<Rightarrow>
          if evLen > 0
          then process_loop sys reads fd' (drop_bytes evLen evs) (numRead - evLen) True t
          else
            (case reads of
               [] \<Rightarrow> Halt Blocked t
             | rd # reads' \<Rightarrow>
                 (case rd (INOTIFY_READ_BUF_LEN - numRead) of
                    ReadErr err \<Rightarrow>
                      if err \<noteq> EINTR then errExit ''read'' err t
                      else process_loop sys reads' fd' evs (numRead - 1) False
                             (secondary_read (-1) t)
                  | ReadEvents new \<Rightarrow>
                      if new = []
                      then Halt (Exit EXIT_FAILURE) (eprint ''read() from inotify fd returned 0!'' [] t)
                      else if numRead + total_bytes new > INOTIFY_READ_BUF_LEN then Halt Fault t
                      else process_loop sys reads' fd' (evs @ new) (numRead + total_bytes new) False
                             (secondary_read (total_bytes new) t))))"
  by pat_completeness auto

termination
  by (relation "measures [\<lambda>(sys, reads, fd, evs, numRead, firstTry, s). length reads,
                          \<lambda>(sys, reads, fd, evs, numRead, firstTry, s). nat numRead]") auto

declare process_loop.simps [simp del]

definition read_count :: "'k dt \<Rightarrow> int" where
  "read_count s = (if readBufferSize s > 0 then readBufferSize s else INOTIFY_READ_BUF_LEN)"

definition processInotifyEvents ::
  "'k sys \<Rightarrow> reads \<Rightarrow> int \<Rightarrow> 'k dt \<Rightarrow> ('k dt, int \<times> reads) run" where
  "processInotifyEvents sys reads fd s =
     (case sys_sigaction sys (kern s) of
        (Some err, k) \<Rightarrow> errExit ''sigaction'' err (s\<lparr>kern := k\<rparr>)
      | (None, k) \<Rightarrow>
          (let s = s\<lparr>kern := k\<rparr>
           in case reads of
                [] \<Rightarrow> Halt Blocked s
              | rd # reads' \<Rightarrow>
                  (case rd (read_count s) of
                     ReadErr err \<Rightarrow> errExit ''read'' err s
                   | ReadEvents evs \<Rightarrow>
                       if evs = []
                       then Halt (Exit EXIT_FAILURE) (eprint ''read() from inotify fd returned 0!'' [] s)
                       else if total_bytes evs > INOTIFY_READ_BUF_LEN then Halt Fault s
                       else
                         let s = s\<lparr>inotifyReadCnt := inotifyReadCnt s + 1\<rparr>;
                             s = logMessage VB_NOISY ''==========> Read %d: got %zd bytes''
                                   [I (inotifyReadCnt s), I (total_bytes evs)] s
                         in process_loop sys reads' fd evs (total_bytes evs) True s)))"

section \<open>Every event keeps the invariant\<close>

lemma dt_inv_cong:
  "wlCache t = wlCache s \<Longrightarrow> same_roots s t \<Longrightarrow> dt_inv t \<longleftrightarrow> dt_inv s"
  by (simp add: dt_inv_def)

lemma dt_inv_logMessage [simp]: "dt_inv (logMessage vb f a s) = dt_inv s"
  by (simp add: dt_inv_def)

lemma dt_inv_eprint [simp]: "dt_inv (eprint f a s) = dt_inv s"
  by (simp add: dt_inv_def)

lemma dt_inv_oprint [simp]: "dt_inv (oprint f a s) = dt_inv s"
  by (simp add: dt_inv_def)

lemma dt_inv_updates [simp]:
  "dt_inv (s\<lparr>kern := k\<rparr>) = dt_inv s" "dt_inv (s\<lparr>inotifyReadCnt := n\<rparr>) = dt_inv s"
  "dt_inv (s\<lparr>overflowCnt := n\<rparr>) = dt_inv s" "dt_inv (s\<lparr>logfp := l\<rparr>) = dt_inv s"
  by (simp_all add: dt_inv_def)

lemma displayInotifyEvent_frame [frame_simps, simp]:
  "wlCache (displayInotifyEvent ev s) = wlCache s"
  "rootDirPaths (displayInotifyEvent ev s) = rootDirPaths s"
  "ignoreRootDirs (displayInotifyEvent ev s) = ignoreRootDirs s"
  "checkCache (displayInotifyEvent ev s) = checkCache s"
  "dumpCache (displayInotifyEvent ev s) = dumpCache s"
  "abortOnCacheProblem (displayInotifyEvent ev s) = abortOnCacheProblem s"
  "(logfp (displayInotifyEvent ev s) = None) = (logfp s = None)"
  by (auto simp: displayInotifyEvent_def Let_def)

lemma fold_commute: "(\<And>x u. g x (h u) = h (g x u)) \<Longrightarrow> fold g xs (h u) = h (fold g xs u)"
  by (induction xs arbitrary: u) auto

lemma logMessage_wlCache:
  "logMessage vb f a (s\<lparr>wlCache := c\<rparr>) = (logMessage vb f a s)\<lparr>wlCache := c\<rparr>"
  by (simp add: logMessage_def eprint_def Let_def split: option.splits)

lemma displayInotifyEvent_wlCache:
  "displayInotifyEvent ev (s\<lparr>wlCache := c\<rparr>) = (displayInotifyEvent ev s)\<lparr>wlCache := c\<rparr>"
proof -
  let ?flag = "\<lambda>(m, f) s. if has ev m then logMessage VB_NOISY f [] s else s"
  have "fold ?flag ms (u\<lparr>wlCache := c\<rparr>) = (fold ?flag ms u)\<lparr>wlCache := c\<rparr>" for ms and u :: "'a dt"
    by (rule fold_commute) (auto simp: logMessage_wlCache)
  note fold = this
  show ?thesis
    unfolding displayInotifyEvent_def Let_def
    by (cases "ev_cookie ev > 0"; cases "ev_len ev > 0")
      (simp_all only: fold logMessage_wlCache if_True if_False)
qed

lemma dt_inv_displayInotifyEvent [simp]: "dt_inv (displayInotifyEvent ev s) = dt_inv s"
  by (simp add: dt_inv_def)

lemma dt_inv_markCacheSlotEmpty: "dt_inv s \<Longrightarrow> dt_inv (markCacheSlotEmpty j s)"
  by (simp add: dt_inv_def cache_ok_free)

lemma dumpCacheToLog_keeps: "dt_inv s \<Longrightarrow> keeps dt_inv (dumpCacheToLog s)"
  by (simp add: dumpCacheToLog_def split: option.splits)

lemma check_slots_keeps: "dt_inv s \<Longrightarrow> keeps dt_inv (check_slots sys ws n s)"
  by (induction sys ws n s rule: check_slots.induct) (auto split: prod.splits sum.splits)

lemma findWatchChecked_keeps:
  assumes "dt_inv s"
  shows "holds (\<lambda>r t. dt_inv t \<and> wlCache t = wlCache s \<and> same_roots s t \<and> r = findWatch wd s)
           (\<lambda>_. dt_inv) (findWatchChecked sys wd s)"
  using assms
  by (auto simp: findWatchChecked_def createStopFileAndAbort_def dumpCacheToLog_def Let_def
      split: option.splits)

lemma event_slot_keeps:
  "dt_inv s \<Longrightarrow> keeps dt_inv (event_slot sys ev s)"
  unfolding event_slot_def
  by (auto intro!: holds_andThen [OF findWatchChecked_keeps])

lemma watchSubtree_keeps:
  assumes "wd_nonneg sys" "dt_inv s"
  shows "keeps dt_inv (watchSubtree sys fd path s)"
  using assms by (auto intro!: holds_weaken [OF watchSubtree_grows] simp: dt_inv_def grows_def)

lemma reinitialize_keeps:
  assumes "wd_nonneg sys" "dt_inv s"
  shows "keeps dt_inv (reinitialize sys fd s)"
  using assms by (auto intro!: holds_weaken [OF reinitialize_spec] simp: dt_inv_def)

lemma zapSubtree_keeps:
  assumes "dt_inv s" "zapSubtree sys fd pn s = (r, t)"
  shows "dt_inv t"
  using zapSubtree_spec(1,2) [OF _ assms(2)] assms(1) by (simp add: dt_inv_def)

lemma rewriteCachedPaths_keeps:
  "dt_inv s \<Longrightarrow> dt_inv (rewriteCachedPaths od on nd nn s)"
  by (simp add: dt_inv_def rewriteCachedPaths_spec(1) rewriteCachedPaths_cache(2))

lemma zapRootDirPath_keeps: "dt_inv s \<Longrightarrow> keeps dt_inv (zapRootDirPath path s)"
  by (rule holds_weaken [OF zapRootDirPath_spec]) auto

lemma on_moved_out_keeps:
  "dt_inv s \<Longrightarrow> keeps dt_inv (on_moved_out sys fd ev j n b s)"
  by (auto simp: on_moved_out_def Let_def dest!: zapSubtree_keeps [rotated]
      split: prod.splits option.splits)

lemma on_moved_from_keeps:
  "dt_inv s \<Longrightarrow> keeps dt_inv (on_moved_from sys fd ev j rest n b s)"
  by (auto simp: on_moved_from_def on_moved_out_keeps rewriteCachedPaths_keeps
      intro!: holds_andThen [OF findWatchChecked_keeps] split: list.splits option.splits)

lemma on_root_moved_keeps:
  assumes "dt_inv s"
  shows "keeps dt_inv (on_root_moved sys fd ev j s)"
  using assms unfolding on_root_moved_def Let_def
  by (auto intro!: holds_andThen [OF zapRootDirPath_keeps] dest: zapSubtree_keeps [rotated]
      split: prod.splits option.splits)

lemma on_delete_self_keeps: "dt_inv s \<Longrightarrow> keeps dt_inv (on_delete_self ev j s)"
  unfolding on_delete_self_def Let_def
  by (auto intro!: holds_andThen [OF zapRootDirPath_keeps] dt_inv_markCacheSlotEmpty)

lemma on_dir_created_keeps:
  "wd_nonneg sys \<Longrightarrow> dt_inv s \<Longrightarrow> keeps dt_inv (on_dir_created sys fd ev j s)"
  unfolding on_dir_created_def Let_def
  by (auto intro!: holds_andThen [OF watchSubtree_keeps])

lemma with_slot_keeps:
  "P s \<Longrightarrow> (\<And>j. P s \<Longrightarrow> keeps P (f j s)) \<Longrightarrow> keeps P (with_slot slot f s)"
  by (cases slot) auto

lemma dispatch_keeps:
  assumes "wd_nonneg sys" "dt_inv s"
  shows "keeps dt_inv (dispatch sys fd ev slot rest n b s)"
  using assms unfolding dispatch_def
  by (auto intro!: with_slot_keeps on_dir_created_keeps on_delete_self_keeps on_moved_from_keeps
      on_root_moved_keeps simp: on_overflow_def on_unmount_def Let_def dt_inv_markCacheSlotEmpty)

lemma after_event_keeps: "dt_inv s \<Longrightarrow> keeps dt_inv (after_event sys r s)"
  unfolding after_event_def checkCacheConsistency_def
  by (auto simp: andThen_assoc intro!: holds_andThen [OF check_slots_keeps]
      holds_andThen [OF dumpCacheToLog_keeps])

lemma reinit_discard_keeps:
  "wd_nonneg sys \<Longrightarrow> dt_inv s \<Longrightarrow> keeps dt_inv (reinit_discard sys fd s)"
  unfolding reinit_discard_def by (auto intro!: holds_andThen [OF reinitialize_keeps])

lemma processNext_keeps:
  assumes "wd_nonneg sys" "dt_inv s"
  shows "keeps dt_inv (processNextInotifyEvent sys fd evs n b s)"
proof (cases evs)
  case (Cons ev rest)
  have "keeps dt_inv (case v of Lost \<Rightarrow> reinit_discard sys fd t | Hanging \<Rightarrow> Done (-1, fd) t
          | Overflow \<Rightarrow> andThen (reinitialize sys fd t) (\<lambda>fd s. after_event sys (INOTIFY_READ_BUF_LEN, fd) s)
          | Consumed n \<Rightarrow> after_event sys (n, fd) t)" if "dt_inv t" for v t
    using assms(1) that
    by (cases v) (auto intro!: after_event_keeps reinit_discard_keeps holds_andThen [OF reinitialize_keeps])
  then show ?thesis
    using assms unfolding processNextInotifyEvent_def Cons list.case
    by (intro holds_andThen [OF event_slot_keeps])
      (auto split: option.splits intro!: reinit_discard_keeps holds_andThen [OF dispatch_keeps])
qed (use assms in \<open>simp add: processNextInotifyEvent_def\<close>)

section \<open>Progress of the event loop\<close>

lemma ev_bytes_pos [simp]: "0 < ev_bytes ev"
  by (simp add: ev_bytes_def)

text \<open>How much each outcome consumes.\<close>

definition consumes :: "inotify_event \<Rightarrow> inotify_event list \<Rightarrow> int \<Rightarrow> bool \<Rightarrow> verdict \<Rightarrow> bool" where
  "consumes ev rest bufSize firstTry v \<longleftrightarrow>
     (case v of
        Consumed n \<Rightarrow> n = ev_bytes ev \<or>
          (ev_bytes ev < bufSize \<and> rest \<noteq> [] \<and> n = ev_bytes ev + ev_bytes (hd rest))
      | Hanging \<Rightarrow> firstTry \<and> bufSize \<le> ev_bytes ev
      | _ \<Rightarrow> True)"

lemma on_moved_out_consumes:
  "holds (\<lambda>v _. consumes ev rest n b v) E (on_moved_out sys fd ev j n' b' s)"
  by (simp add: on_moved_out_def consumes_def Let_def split: option.splits prod.splits)

lemma with_slot_consumes:
  "(\<And>j. holds Q (\<lambda>_ _. True) (f j s)) \<Longrightarrow> holds Q (\<lambda>_ _. True) (with_slot slot f s)"
  by (cases slot) auto

lemma andThen_result:
  "(\<And>a t. holds Q (\<lambda>_ _. True) (f a t)) \<Longrightarrow> holds Q (\<lambda>_ _. True) (andThen r f)"
  by (cases r) auto

lemma consumes_own [simp]: "consumes ev rest n b (Consumed (ev_bytes ev))" "consumes ev rest n b Lost"
  "consumes ev rest n b Overflow"
  by (simp_all add: consumes_def)

lemma on_moved_from_consumes:
  "holds (\<lambda>v _. consumes ev rest n b v) (\<lambda>_ _. True) (on_moved_from sys fd ev j rest n b s)"
  by (cases rest)
    (auto simp: on_moved_from_def on_moved_out_consumes intro!: andThen_result split: option.split,
     auto simp: consumes_def)

lemma dispatch_consumes:
  "holds (\<lambda>v _. consumes ev rest n b v) (\<lambda>_ _. True) (dispatch sys fd ev slot rest n b s)"
  unfolding dispatch_def
  by (simp add: on_dir_created_def on_delete_self_def on_overflow_def on_unmount_def on_root_moved_def
      Let_def with_slot_consumes on_moved_from_consumes andThen_result split: option.split prod.split)

definition advances :: "inotify_event list \<Rightarrow> int \<Rightarrow> bool \<Rightarrow> int \<Rightarrow> bool" where
  "advances evs bufSize firstTry n \<longleftrightarrow>
     (n = -1 \<and> firstTry \<and> bufSize \<le> ev_bytes (hd evs)) \<or>
     n = INOTIFY_READ_BUF_LEN \<or>
     n = ev_bytes (hd evs) \<or>
     (ev_bytes (hd evs) < bufSize \<and> tl evs \<noteq> [] \<and> n = ev_bytes (hd evs) + ev_bytes (hd (tl evs)))"

lemma after_event_result: "Q r \<Longrightarrow> holds (\<lambda>r _. Q r) (\<lambda>_ _. True) (after_event sys r s)"
  unfolding after_event_def by (intro andThen_result) simp

lemma processNext_advances:
  "holds (\<lambda>r _. advances evs n b (fst r)) (\<lambda>_ _. True) (processNextInotifyEvent sys fd evs n b s)"
proof (cases evs)
  case (Cons ev rest)
  have "holds (\<lambda>r _. advances evs n b (fst r)) (\<lambda>_ _. True)
         (case v of Lost \<Rightarrow> reinit_discard sys fd t | Hanging \<Rightarrow> Done (-1, fd) t
          | Overflow \<Rightarrow> andThen (reinitialize sys fd t) (\<lambda>fd s. after_event sys (INOTIFY_READ_BUF_LEN, fd) s)
          | Consumed n \<Rightarrow> after_event sys (n, fd) t)" if "consumes ev rest n b v" for v t
    using that
    by (cases v) (auto simp: consumes_def advances_def Cons reinit_discard_def
        intro!: andThen_result after_event_result)
  note tail = this
  have disc: "holds (\<lambda>r _. advances evs n b (fst r)) (\<lambda>_ _. True) (reinit_discard sys fd t)" for t
    using tail [of Lost t] by (simp add: consumes_def)
  show ?thesis
    unfolding processNextInotifyEvent_def Cons list.case
    by (intro andThen_result)
      (auto simp: Cons [symmetric] disc split: option.split intro!: holds_andThen [OF dispatch_consumes] tail)
qed (simp add: processNextInotifyEvent_def)

lemma dt_inv_secondary_read [simp]: "dt_inv (secondary_read n s) = dt_inv s"
  by (simp add: secondary_read_def Let_def)

text \<open>
  A proof rule for the loop: \<open>P\<close> holds each time its condition is evaluated.
\<close>

definition reread ::
  "(reads \<Rightarrow> inotify_event list \<Rightarrow> int \<Rightarrow> bool \<Rightarrow> 'k dt \<Rightarrow> bool) \<Rightarrow> (halt \<Rightarrow> 'k dt \<Rightarrow> bool) \<Rightarrow>
     reads \<Rightarrow> inotify_event list \<Rightarrow> int \<Rightarrow> 'k dt \<Rightarrow> bool" where
  "reread P E reads evs n t \<longleftrightarrow>
     (case reads of
        [] \<Rightarrow> E Blocked t
      | rd # reads' \<Rightarrow>
          (case rd (INOTIFY_READ_BUF_LEN - n) of
             ReadErr err \<Rightarrow>
               (if err = EINTR then P reads' evs (n - 1) False (secondary_read (-1) t)
                else E (Exit EXIT_FAILURE) (eprint ''%s: %s'' [S ''read'', StrError err] t))
           | ReadEvents new \<Rightarrow>
               (if new = [] then E (Exit EXIT_FAILURE) (eprint ''read() from inotify fd returned 0!'' [] t)
                else if n + total_bytes new > INOTIFY_READ_BUF_LEN then E Fault t
                else P reads' (evs @ new) (n + total_bytes new) False
                       (secondary_read (total_bytes new) t))))"

lemma process_loop_rule:
  assumes step: "\<And>reads evs n b s fd. P reads evs n b s \<Longrightarrow> 0 < n \<Longrightarrow>
      holds (\<lambda>(len, fd) t. if 0 < len then P reads (drop_bytes len evs) (n - len) True t
                           else reread P E reads evs n t)
        E (processNextInotifyEvent sys fd evs n b s)"
    and exit: "\<And>reads evs n b s. P reads evs n b s \<Longrightarrow> n \<le> 0 \<Longrightarrow> Q s"
    and init: "P reads evs n b s"
  shows "holds (\<lambda>_. Q) E (process_loop sys reads fd evs n b s)"
proof -
  have "sys' = sys \<Longrightarrow> P reads evs n b s \<Longrightarrow> holds (\<lambda>_. Q) E (process_loop sys' reads fd evs n b s)" for sys'
  proof (induction sys' reads fd evs n b s rule: process_loop.induct)
    case (1 sys' reads fd evs n b s)
    show ?case
    proof (cases "n \<le> 0")
      case True
      with exit "1.prems"(2) show ?thesis by (subst process_loop.simps) simp
    next
      case n: False
      note st = step [OF "1.prems"(2), of fd, folded "1.prems"(1)]
      show ?thesis
      proof (cases "processNextInotifyEvent sys' fd evs n b s")
        case (Halt h t)
        with st n show ?thesis by (subst process_loop.simps) simp
      next
        case (Done r t)
        obtain len fd' where r: "(len, fd') = r" by (cases r) auto
        note unf = process_loop.simps [of sys' reads fd evs n b s] Done r [symmetric]
        show ?thesis
        proof (cases "0 < len")
          case True
          with st n Done r have "P reads (drop_bytes len evs) (n - len) True t" by auto
          then have "holds (\<lambda>_. Q) E (process_loop sys' reads fd' (drop_bytes len evs) (n - len) True t)"
            by (rule "1.IH"(1) [OF n Done r True "1.prems"(1)])
          with True n show ?thesis by (simp add: unf)
        next
          case len: False
          with st n Done r have re: "reread P E reads evs n t" by auto
          show ?thesis
          proof (cases reads)
            case Nil
            with re len n show ?thesis unfolding unf by (simp add: reread_def)
          next
            case (Cons rd reads')
            show ?thesis
            proof (cases "rd (INOTIFY_READ_BUF_LEN - n)")
              case (ReadErr err)
              note IH = "1.IH"(2) [OF n Done r len Cons ReadErr _ "1.prems"(1)]
              from re Cons ReadErr len n IH show ?thesis
                unfolding unf by (cases "err = EINTR") (simp_all add: reread_def errExit_def)
            next
              case (ReadEvents new)
              note IH = "1.IH"(3) [OF n Done r len Cons ReadEvents _ _ "1.prems"(1)]
              from re Cons ReadEvents len n IH show ?thesis
                unfolding unf by (cases "new = [] \<or> n + total_bytes new > INOTIFY_READ_BUF_LEN")
                  (auto simp: reread_def)
            qed
          qed
        qed
      qed
    qed
  qed
  from this [OF refl init] show ?thesis .
qed

lemma process_loop_keeps:
  assumes "wd_nonneg sys" "dt_inv s"
  shows "keeps dt_inv (process_loop sys reads fd evs n b s)"
  using assms(2)
  by (intro process_loop_rule [where P = "\<lambda>_ _ _ _. dt_inv"] holds_weaken [OF processNext_keeps [OF assms(1)]])
    (auto simp: reread_def split: list.split read_result.split)

lemma processInotifyEvents_keeps:
  assumes "wd_nonneg sys" "dt_inv s"
  shows "keeps dt_inv (processInotifyEvents sys reads fd s)"
  using assms
  by (auto simp: processInotifyEvents_def errExit_def Let_def process_loop_keeps
      split: prod.split option.split list.split read_result.split)

section \<open>Memory safety of event processing\<close>

text \<open>The settings that no event changes, among them those that decide on the use of a log file.\<close>

definition conf :: "'k dt \<Rightarrow> bool \<times> bool \<times> bool \<times> bool" where
  "conf s = (checkCache s, dumpCache s, abortOnCacheProblem s, logfp s = None)"

lemma conf_eqD:
  "conf t = conf s \<Longrightarrow> checkCache t = checkCache s"
  "conf t = conf s \<Longrightarrow> dumpCache t = dumpCache s"
  by (auto simp: conf_def)

definition log_ok :: "'k dt \<Rightarrow> bool" where
  "log_ok s \<longleftrightarrow> (dumpCache s \<or> abortOnCacheProblem s \<longrightarrow> logfp s \<noteq> None)"

lemma log_ok_conf: "conf t = conf s \<Longrightarrow> log_ok t = log_ok s"
  by (auto simp: conf_def log_ok_def)

text \<open>A run that keeps the settings and involves no undefined behaviour.\<close>

abbreviation quiet :: "'k dt \<Rightarrow> ('k dt, 'a) run \<Rightarrow> bool" where
  "quiet s \<equiv> holds (\<lambda>_ t. conf t = conf s) (\<lambda>h _. h \<noteq> Fault)"

lemma quiet_andThen:
  "quiet s r \<Longrightarrow> (\<And>a t. conf t = conf s \<Longrightarrow> quiet s (f a t)) \<Longrightarrow> quiet s (andThen r f)"
  by (rule holds_andThen)

lemma conf_simps [simp]:
  "conf (logMessage vb f a s) = conf s" "conf (eprint f a s) = conf s" "conf (oprint f a s) = conf s"
  "conf (s\<lparr>kern := k\<rparr>) = conf s" "conf (s\<lparr>wlCache := c\<rparr>) = conf s"
  "conf (s\<lparr>dirCnt := n\<rparr>) = conf s" "conf (s\<lparr>ifd := n\<rparr>) = conf s"
  "conf (s\<lparr>reinitCnt := n\<rparr>) = conf s" "conf (s\<lparr>inotifyReadCnt := n\<rparr>) = conf s"
  "conf (s\<lparr>overflowCnt := n\<rparr>) = conf s" "conf (s\<lparr>rootDirPaths := rs\<rparr>) = conf s"
  "conf (s\<lparr>ignoreRootDirs := n\<rparr>) = conf s"
  by (simp_all add: conf_def eprint_def oprint_def)

lemma conf_markCacheSlotEmpty [simp]: "conf (markCacheSlotEmpty j s) = conf s"
  by (simp add: markCacheSlotEmpty_def Let_def)

lemma conf_fold_markCacheSlotEmpty [simp]: "conf (fold markCacheSlotEmpty js s) = conf s"
  by (induction js arbitrary: s) auto

lemma conf_displayInotifyEvent [simp]: "conf (displayInotifyEvent ev s) = conf s"
  by (simp add: conf_def)

lemma conf_rewriteCachedPaths [simp]: "conf (rewriteCachedPaths od on nd nn s) = conf s"
proof -
  have "conf (fold (rewrite_slot old new) js t) = conf t" for old new js and t :: "'a dt"
    by (induction js arbitrary: t) (auto simp: rewrite_slot_def Let_def)
  then show ?thesis by (simp add: rewriteCachedPaths_def Let_def)
qed

lemma conf_zapSubtree: "zapSubtree sys fd pn s = (r, t) \<Longrightarrow> conf t = conf s"
proof -
  have "zap_slots sys fd pn js n u = (r, t) \<Longrightarrow> conf t = conf u" for js n and u :: "'a dt"
    by (induction js arbitrary: n u) (auto simp: Let_def split: if_splits prod.splits option.splits)
  then show "zapSubtree sys fd pn s = (r, t) \<Longrightarrow> conf t = conf s"
    by (fastforce simp: zapSubtree_def Let_def)
qed

lemma errExit_quiet: "quiet s (errExit msg err t)"
  by (simp add: errExit_def)

lemma check_slots_quiet: "conf t = conf s \<Longrightarrow> quiet s (check_slots sys ws n t)"
  by (induction sys ws n t rule: check_slots.induct) (auto split: prod.splits sum.splits)

lemma addWatchToCache_quiet: "conf t = conf s \<Longrightarrow> quiet s (addWatchToCache sys wd p t)"
  by (auto simp: addWatchToCache_def findEmptyCacheSlot_def errExit_def Let_def
      split: option.splits prod.splits)

lemma traverseTree_quiet: "conf t = conf s \<Longrightarrow> quiet s (traverseTree sys v t)"
  by (auto simp: traverseTree_def errExit_def Let_def intro!: quiet_andThen addWatchToCache_quiet
      split: sum.splits prod.splits)

lemma watchSubtree_quiet: "conf t = conf s \<Longrightarrow> quiet s (watchSubtree sys fd p t)"
  by (auto simp: watchSubtree_def watchDir_def andThen_assoc Let_def
      intro!: quiet_andThen [OF holds_forEach] traverseTree_quiet
      split: prod.splits option.splits)

lemma reinitialize_quiet: "conf t = conf s \<Longrightarrow> quiet s (reinitialize sys fd t)"
  by (auto simp: reinitialize_def errExit_def freeCache_def Let_def
      intro!: quiet_andThen [OF holds_forEach] watchSubtree_quiet
      split: prod.splits option.splits sum.splits)

lemma zapRootDirPath_quiet: "conf t = conf s \<Longrightarrow> quiet s (zapRootDirPath p t)"
  by (auto simp: zapRootDirPath_def Let_def split: option.splits)

lemma dumpCacheToLog_quiet:
  "conf t = conf s \<Longrightarrow> logfp t \<noteq> None \<Longrightarrow> quiet s (dumpCacheToLog t)"
  by (auto simp: dumpCacheToLog_def conf_def split: option.splits)

lemma findWatchChecked_quiet:
  assumes "conf t = conf s" "log_ok s"
  shows "quiet s (findWatchChecked sys wd t)"
proof -
  have "logfp t \<noteq> None" if "abortOnCacheProblem t"
    using that assms by (auto simp: conf_def log_ok_def)
  moreover have "conf (logMessage vb f a t) = conf s" "logfp (logMessage vb f a t) = None \<longleftrightarrow> logfp t = None" for vb f a
    using assms(1) by simp_all
  ultimately show ?thesis
    using assms(1) unfolding findWatchChecked_def createStopFileAndAbort_def dumpCacheToLog_def Let_def
    by (cases "abortOnCacheProblem t") (auto split: option.split)
qed

lemma after_event_quiet:
  assumes "conf t = conf s" "log_ok s"
  shows "quiet s (after_event sys r t)"
proof -
  have "logfp u \<noteq> None" if "conf u = conf s" "dumpCache u" for u :: "'a dt"
    using that assms(2) by (auto simp: conf_def log_ok_def)
  then show ?thesis
    using assms(1) unfolding after_event_def checkCacheConsistency_def
    by (auto intro!: quiet_andThen check_slots_quiet dumpCacheToLog_quiet)
qed

text \<open>
  What inotify(7) promises about events: only the overflow event has no watch descriptor,
  and \<^verbatim>\<open>IN_IGNORED\<close> comes alone.
\<close>

definition ev_valid :: "inotify_event \<Rightarrow> bool" where
  "ev_valid ev \<longleftrightarrow>
     (ev_wd ev = -1 \<longrightarrow> ev_mask ev = IN_Q_OVERFLOW) \<and>
     (has ev IN_IGNORED \<longrightarrow> ev_mask ev = IN_IGNORED)"

lemma event_slot_quiet:
  fixes s t :: "'k dt"
  assumes "conf t = conf s" "log_ok s"
  shows "holds (\<lambda>r u. conf u = conf s \<and> (r = Some None \<longrightarrow> ev_wd ev = -1 \<or> has ev IN_IGNORED))
           (\<lambda>h _. h \<noteq> Fault) (event_slot sys ev t)"
  using assms unfolding event_slot_def
  by (auto intro!: holds_andThen [OF findWatchChecked_quiet [OF assms]])

lemma on_moved_out_quiet: "conf t = conf s \<Longrightarrow> quiet s (on_moved_out sys fd ev j n b t)"
  by (auto simp: on_moved_out_def Let_def dest!: conf_zapSubtree split: prod.split option.split)

lemma on_moved_from_quiet:
  assumes "conf t = conf s" "log_ok s" "ev_bytes ev < n \<Longrightarrow> rest \<noteq> []"
  shows "quiet s (on_moved_from sys fd ev j rest n b t)"
  using assms
  by (auto simp: on_moved_from_def on_moved_out_quiet intro!: quiet_andThen findWatchChecked_quiet
      split: list.split option.split)

lemma on_root_moved_quiet: "conf t = conf s \<Longrightarrow> quiet s (on_root_moved sys fd ev j t)"
  unfolding on_root_moved_def Let_def
  by (auto intro!: quiet_andThen zapRootDirPath_quiet dest!: conf_zapSubtree split: prod.split option.split)

lemma dispatch_quiet:
  assumes "conf t = conf s" "log_ok s" "ev_valid ev" "ev_bytes ev < n \<Longrightarrow> rest \<noteq> []"
    and "slot = None \<Longrightarrow> ev_wd ev = -1 \<or> has ev IN_IGNORED"
  shows "quiet s (dispatch sys fd ev slot rest n b t)"
proof (cases slot)
  case None
  with assms(3,5) have "ev_mask ev = IN_Q_OVERFLOW \<or> ev_mask ev = IN_IGNORED"
    by (auto simp: ev_valid_def)
  with assms(1) show ?thesis
    by (auto simp: dispatch_def has_def on_overflow_def Let_def)
next
  case (Some j)
  have created: "quiet s (on_dir_created sys fd ev j t)" and deleted: "quiet s (on_delete_self ev j t)"
    using assms(1) unfolding on_dir_created_def on_delete_self_def Let_def
    by (auto intro!: quiet_andThen watchSubtree_quiet zapRootDirPath_quiet)
  show ?thesis
    using assms(1,2,4) unfolding Some dispatch_def with_slot.simps
    by (simp add: created deleted on_moved_from_quiet on_root_moved_quiet on_overflow_def on_unmount_def Let_def)
qed

lemma processNext_quiet:
  assumes "log_ok s" "ev_valid ev" "ev_bytes ev < n \<Longrightarrow> rest \<noteq> []"
  shows "quiet s (processNextInotifyEvent sys fd (ev # rest) n b s)"
proof -
  have reinit: "quiet s (reinit_discard sys fd t)" if "conf t = conf s" for t
    using that unfolding reinit_discard_def by (auto intro!: quiet_andThen reinitialize_quiet)
  have tail: "quiet s (case v of Lost \<Rightarrow> reinit_discard sys fd t | Hanging \<Rightarrow> Done (-1, fd) t
          | Overflow \<Rightarrow> andThen (reinitialize sys fd t) (\<lambda>fd s. after_event sys (INOTIFY_READ_BUF_LEN, fd) s)
          | Consumed n \<Rightarrow> after_event sys (n, fd) t)" if "conf t = conf s" for v t
    using assms(1) that
    by (cases v) (auto intro!: quiet_andThen reinitialize_quiet after_event_quiet reinit)
  show ?thesis
    unfolding processNextInotifyEvent_def list.case
    by (rule holds_andThen [OF event_slot_quiet [where s = s]])
      (use assms in \<open>auto split: option.split intro!: reinit quiet_andThen [OF dispatch_quiet] tail\<close>)
qed

text \<open>
  What inotify(7) promises about \<^verbatim>\<open>read()\<close>: it returns whole, valid events that fit in the
  \<^verbatim>\<open>cnt\<close> bytes asked for.
\<close>

definition reads_ok :: "reads \<Rightarrow> bool" where
  "reads_ok reads \<longleftrightarrow>
     (\<forall>rd \<in> set reads. \<forall>cnt \<ge> 0. case rd cnt of
        ReadErr _ \<Rightarrow> True
      | ReadEvents evs \<Rightarrow> total_bytes evs \<le> cnt \<and> (\<forall>ev \<in> set evs. ev_valid ev))"

lemma total_bytes_simps [simp]:
  "total_bytes [] = 0" "total_bytes (ev # evs) = ev_bytes ev + total_bytes evs"
  "total_bytes (evs @ evs') = total_bytes evs + total_bytes evs'"
  by (simp_all add: total_bytes_def)

lemma total_bytes_nonneg [simp]: "0 \<le> total_bytes evs"
  by (induction evs) (auto simp: ev_bytes_def)

lemma total_bytes_le_0 [simp]: "total_bytes evs \<le> 0 \<longleftrightarrow> evs = []"
proof (cases evs)
  case (Cons ev rest)
  moreover have "0 < ev_bytes ev + total_bytes rest" by (intro add_pos_nonneg) simp_all
  ultimately show ?thesis by (simp add: not_le)
qed simp

lemma drop_bytes_le_0 [simp]: "n \<le> 0 \<Longrightarrow> drop_bytes n evs = evs"
  by (cases evs) auto

lemma set_drop_bytes: "set (drop_bytes n evs) \<subseteq> set evs"
  by (induction n evs rule: drop_bytes.induct) auto

text \<open>
  What the byte count is worth when the loop condition is evaluated: it is the size of
  the events left, or one less when a secondary read was interrupted, and then only the
  unpaired event is left.
\<close>

definition loop_ok :: "reads \<Rightarrow> inotify_event list \<Rightarrow> int \<Rightarrow> bool \<Rightarrow> 'k dt \<Rightarrow> bool" where
  "loop_ok reads evs n firstTry s \<longleftrightarrow>
     log_ok s \<and> reads_ok reads \<and> n \<le> INOTIFY_READ_BUF_LEN \<and> (\<forall>ev \<in> set evs. ev_valid ev) \<and>
     (0 < n \<longrightarrow> n = total_bytes evs \<or> (\<not> firstTry \<and> n = total_bytes evs - 1 \<and> length evs = 1))"

lemma loop_ok_advance:
  assumes ok: "loop_ok reads evs n b s" and n: "0 < n" and adv: "advances evs n b len" "0 < len"
    and t: "log_ok t"
  shows "loop_ok reads (drop_bytes len evs) (n - len) True t"
proof -
  have "n - len = total_bytes (drop_bytes len evs)" if pos: "0 < n - len"
  proof (cases evs)
    case Nil
    with ok n show ?thesis by (simp add: loop_ok_def)
  next
    case (Cons ev rest)
    with ok n pos adv have len: "len = ev_bytes ev \<or>
        (\<exists>ev' rest'. rest = ev' # rest' \<and> len = ev_bytes ev + ev_bytes ev')"
      by (auto simp: advances_def loop_ok_def neq_Nil_conv)
    have "n = total_bytes evs"
      using ok n pos len Cons by (auto simp: loop_ok_def)
    with len show ?thesis
      by (auto simp: Cons ev_bytes_def)
  qed
  with ok t set_drop_bytes [of len evs] adv(2) show ?thesis by (auto simp: loop_ok_def)
qed

lemma loop_ok_reread:
  assumes ok: "loop_ok reads evs n b s" and n: "0 < n" and adv: "advances evs n b len" "\<not> 0 < len"
    and t: "log_ok t"
  shows "reread loop_ok (\<lambda>h _. h \<noteq> Fault) reads evs n t"
proof -
  obtain ev rest where evs: "evs = ev # rest" using ok n by (cases evs) (auto simp: loop_ok_def)
  from adv have "b" "n \<le> ev_bytes ev" by (auto simp: advances_def evs ev_bytes_def)
  with ok n have tot: "n = total_bytes evs" by (auto simp: loop_ok_def)
  with \<open>n \<le> ev_bytes ev\<close> have "total_bytes rest \<le> 0" by (simp add: evs)
  then have rest: "rest = []" by simp
  have log: "log_ok (secondary_read m t)" for m
    using t by (simp add: secondary_read_def log_ok_def Let_def)
  have rd: "total_bytes new \<le> INOTIFY_READ_BUF_LEN - n" "\<forall>ev \<in> set new. ev_valid ev"
    if "reads = rd # reads'" "rd (INOTIFY_READ_BUF_LEN - n) = ReadEvents new" for rd reads' new
    using ok that unfolding loop_ok_def reads_ok_def
    by (auto dest!: bspec [of _ _ rd] spec [of _ "INOTIFY_READ_BUF_LEN - n"])
  show ?thesis
  proof (cases reads)
    case (Cons rd reads')
    show ?thesis
    proof (cases "rd (INOTIFY_READ_BUF_LEN - n)")
      case (ReadErr err)
      with ok n Cons log tot rest evs show ?thesis
        by (auto simp: reread_def loop_ok_def reads_ok_def)
    next
      case (ReadEvents new)
      with ok n Cons log tot rd [OF Cons ReadEvents] show ?thesis
        by (auto simp: reread_def loop_ok_def reads_ok_def)
    qed
  qed (simp add: reread_def)
qed

lemma holds_conj:
  "holds Q E r \<Longrightarrow> holds Q' E' r \<Longrightarrow> holds (\<lambda>a s. Q a s \<and> Q' a s) (\<lambda>h s. E h s \<and> E' h s) r"
  by (cases r) auto

lemma process_loop_safe:
  assumes "loop_ok reads evs n b s"
  shows "holds (\<lambda>_. log_ok) (\<lambda>h _. h \<noteq> Fault) (process_loop sys reads fd evs n b s)"
proof (rule process_loop_rule [where P = loop_ok, OF _ _ assms])
  fix reads evs n b fd and s :: "'a dt"
  assume ok: "loop_ok reads evs n b s" and n: "0 < n"
  obtain ev rest where evs: "evs = ev # rest" using ok n by (cases evs) (auto simp: loop_ok_def)
  have log: "log_ok s" using ok by (simp add: loop_ok_def)
  have "ev_valid ev" "ev_bytes ev < n \<Longrightarrow> rest \<noteq> []"
    using ok n evs by (auto simp: loop_ok_def)
  then have "quiet s (processNextInotifyEvent sys fd evs n b s)"
    using log unfolding evs by (intro processNext_quiet)
  from holds_conj [OF this processNext_advances [where sys = sys]]
  show "holds (\<lambda>(len, fd) t. if 0 < len then loop_ok reads (drop_bytes len evs) (n - len) True t
                           else reread loop_ok (\<lambda>h _. h \<noteq> Fault) reads evs n t)
        (\<lambda>h _. h \<noteq> Fault) (processNextInotifyEvent sys fd evs n b s)"
    by (rule holds_weaken)
      (auto intro!: loop_ok_advance [OF ok n] loop_ok_reread [OF ok n] simp: log_ok_conf log)
qed (simp add: loop_ok_def)

end
