(* ===== verification/C_Numbers.thy ===== *)
theory C_Numbers
  imports Tlpi_Prelude
begin

text \<open>
  The C-library conversions of numeric strings that the programs call: \<^verbatim>\<open>isspace()\<close>,
  \<^verbatim>\<open>strtol()\<close> and \<^verbatim>\<open>atoi()\<close>, for the LP64 data model (64-bit \<^verbatim>\<open>long\<close>, 32-bit \<^verbatim>\<open>int\<close>) and the C
  locale.  The lemmas characterise the decimal conversion by the grammar it accepts and
  show that it inverts decimal printing.
\<close>

definition isspace :: "char \<Rightarrow> bool" where
  "isspace c \<longleftrightarrow> of_char c \<in> {9, 10, 11, 12, 13, 32 :: nat}"

definition digit_val :: "char \<Rightarrow> nat option" where
  "digit_val c =
     (let n = of_char c :: nat
      in if 48 \<le> n \<and> n \<le> 57 then Some (n - 48)
         else if 97 \<le> n \<and> n \<le> 122 then Some (n - 87)
         else if 65 \<le> n \<and> n \<le> 90 then Some (n - 55)
         else None)"

definition is_digit :: "nat \<Rightarrow> char \<Rightarrow> bool" where
  "is_digit base c = (case digit_val c of None \<Rightarrow> False | Some d \<Rightarrow> d < base)"

definition digits_value :: "nat \<Rightarrow> string \<Rightarrow> nat" where
  "digits_value base ds = foldl (\<lambda>a c. a * base + the (digit_val c)) 0 ds"

definition LONG_MAX :: int where "LONG_MAX = 2 ^ 63 - 1"
definition LONG_MIN :: int where "LONG_MIN = - (2 ^ 63)"
definition INT_MAX :: int where "INT_MAX = 2 ^ 31 - 1"
definition INT_MIN :: int where "INT_MIN = - (2 ^ 31)"

fun split_sign :: "string \<Rightarrow> bool \<times> string" where
  "split_sign (c # cs) =
     (if c = CHR ''-'' then (True, cs) else if c = CHR ''+'' then (False, cs) else (False, c # cs))"
| "split_sign [] = (False, [])"

fun hex_prefix :: "string \<Rightarrow> bool" where
  "hex_prefix (z # x # d # _) = (z = CHR ''0'' \<and> (x = CHR ''x'' \<or> x = CHR ''X'') \<and> is_digit 16 d)"
| "hex_prefix _ = False"

definition number_base :: "nat \<Rightarrow> string \<Rightarrow> nat \<times> string" where
  "number_base base s =
     (if (base = 0 \<or> base = 16) \<and> hex_prefix s then (16, drop 2 s)
      else if base = 0 then (if char_at s 0 = CHR ''0'' then 8 else 10, s)
      else (base, s))"

text \<open>
  \<^verbatim>\<open>strtol(s, &endptr, base)\<close>: the value, the text from \<^verbatim>\<open>endptr\<close> on, and whether \<^verbatim>\<open>errno\<close> is set
  to \<^verbatim>\<open>ERANGE\<close>.
\<close>

definition strtol :: "string \<Rightarrow> nat \<Rightarrow> int \<times> string \<times> bool" where
  "strtol s base =
     (let (neg, s2) = split_sign (dropWhile isspace s);
          (b, s3) = number_base base s2;
          ds = takeWhile (is_digit b) s3;
          rest = dropWhile (is_digit b) s3;
          v = (if neg then - int (digits_value b ds) else int (digits_value b ds))
      in if ds = [] then (0, s, False)
         else if v > LONG_MAX then (LONG_MAX, rest, True)
         else if v < LONG_MIN then (LONG_MIN, rest, True)
         else (v, rest, False))"

text \<open>The conversion of a \<^verbatim>\<open>long\<close> to an \<^verbatim>\<open>int\<close>, and \<^verbatim>\<open>atoi()\<close> as the C library implements it.\<close>

definition int_of_long :: "int \<Rightarrow> int" where
  "int_of_long v = (v + 2 ^ 31) mod 2 ^ 32 - 2 ^ 31"

definition atoi :: "string \<Rightarrow> int" where
  "atoi s = int_of_long (fst (strtol s 10))"

section \<open>Decimal numerals\<close>

definition digit_char :: "nat \<Rightarrow> char" where
  "digit_char d = char_of (48 + d)"

text \<open>What \<^verbatim>\<open>printf("%d")\<close> prints.\<close>

fun decimal :: "nat \<Rightarrow> string" where
  "decimal n = (if n < 10 then [digit_char n] else decimal (n div 10) @ [digit_char (n mod 10)])"

declare decimal.simps [simp del]

definition decimal_int :: "int \<Rightarrow> string" where
  "decimal_int i = (if i < 0 then ''-'' @ decimal (nat (- i)) else decimal (nat i))"

lemma digit_val_digit_char [simp]: "d < 10 \<Longrightarrow> digit_val (digit_char d) = Some d"
  by (simp add: digit_val_def digit_char_def Let_def)

lemma is_digit_digit_char [simp]: "d < 10 \<Longrightarrow> is_digit 10 (digit_char d)"
  by (simp add: is_digit_def)

lemma digits_value_append [simp]:
  "digits_value b (ds @ [c]) = digits_value b ds * b + the (digit_val c)"
  by (simp add: digits_value_def)

lemma digits_value_decimal [simp]: "digits_value 10 (decimal n) = n"
proof (induction n rule: decimal.induct)
  case (1 n)
  show ?case
  proof (cases "n < 10")
    case True
    then show ?thesis by (simp add: decimal.simps [of n] digits_value_def)
  next
    case False
    with 1 show ?thesis by (subst decimal.simps) simp
  qed
qed

lemma decimal_digits: "list_all (is_digit 10) (decimal n) \<and> decimal n \<noteq> []"
proof (induction n rule: decimal.induct)
  case (1 n)
  then show ?case by (subst (1 2) decimal.simps) auto
qed

lemma is_digit_not_sign:
  "is_digit 10 c \<Longrightarrow> c \<noteq> CHR ''-'' \<and> c \<noteq> CHR ''+'' \<and> \<not> isspace c"
  by (auto simp: is_digit_def digit_val_def isspace_def Let_def split: if_splits option.splits)

text \<open>
  The decimal numerals that \<^verbatim>\<open>strtol(s, &endptr, 10)\<close> consumes completely: white space, an
  optional sign, and at least one digit.
\<close>

definition denotes :: "string \<Rightarrow> int \<Rightarrow> bool" where
  "denotes s v \<longleftrightarrow>
     (\<exists>ws sign ds. s = ws @ sign @ ds \<and> list_all isspace ws \<and> sign \<in> {'''', ''+'', ''-''} \<and>
        ds \<noteq> [] \<and> list_all (is_digit 10) ds \<and>
        v = (if sign = ''-'' then - int (digits_value 10 ds) else int (digits_value 10 ds)))"

definition clamp_long :: "int \<Rightarrow> int" where
  "clamp_long v = (if v > LONG_MAX then LONG_MAX else if v < LONG_MIN then LONG_MIN else v)"

lemma LONG_MIN_less: "LONG_MIN < LONG_MAX"
  by (simp add: LONG_MIN_def LONG_MAX_def)

lemma split_sign_sign:
  "list_all (is_digit 10) ds \<Longrightarrow> ds \<noteq> [] \<Longrightarrow> sign \<in> {'''', ''+'', ''-''} \<Longrightarrow>
     split_sign (sign @ ds) = (sign = ''-'', ds)"
  by (cases ds) (auto dest: is_digit_not_sign)

lemma strtol_denotes:
  assumes "denotes s v"
  shows "strtol s 10 = (clamp_long v, [], clamp_long v \<noteq> v)"
proof -
  from assms obtain ws sign ds where s: "s = ws @ sign @ ds" and ws: "list_all isspace ws"
    and sign: "sign \<in> {'''', ''+'', ''-''}" and ds: "ds \<noteq> []" "list_all (is_digit 10) ds"
    and v: "v = (if sign = ''-'' then - int (digits_value 10 ds) else int (digits_value 10 ds))"
    unfolding denotes_def by blast
  have "\<not> isspace (hd (sign @ ds))"
    using sign ds is_digit_not_sign by (cases ds) (auto simp: isspace_def)
  then have "dropWhile isspace s = sign @ ds"
    using ws ds(1) unfolding s
    by (cases "sign @ ds") (auto simp: list_all_iff dropWhile_append2)
  then have sg: "split_sign (dropWhile isspace s) = (sign = ''-'', ds)"
    using split_sign_sign [OF ds(2,1) sign] by simp
  have tw: "takeWhile (is_digit 10) ds = ds" "dropWhile (is_digit 10) ds = []"
    using ds(2) by (simp_all add: list_all_iff)
  have nb: "number_base 10 ds = (10, ds)" by (simp add: number_base_def)
  show ?thesis
    using ds(1) v LONG_MIN_less
    by (simp only: strtol_def sg nb tw clamp_long_def Let_def prod.case) simp
qed

lemma split_sign_cases:
  "split_sign s = (neg, t) \<Longrightarrow> \<exists>sign \<in> {'''', ''+'', ''-''}. s = sign @ t \<and> (neg \<longleftrightarrow> sign = ''-'')"
  by (cases s) (auto split: if_splits)

lemma strtol_complete:
  assumes "strtol s 10 = (v, [], False)" "s \<noteq> []"
  shows "denotes s v"
proof -
  obtain neg t where sg: "split_sign (dropWhile isspace s) = (neg, t)" by fastforce
  from split_sign_cases [OF sg] obtain sign where sign: "sign \<in> {'''', ''+'', ''-''}"
    "dropWhile isspace s = sign @ t" "neg \<longleftrightarrow> sign = ''-''" by blast
  let ?ds = "takeWhile (is_digit 10) t"
  have ds: "?ds \<noteq> []" "dropWhile (is_digit 10) t = []"
    "v = (if neg then - int (digits_value 10 ?ds) else int (digits_value 10 ?ds))"
    using assms sg by (auto simp: strtol_def number_base_def Let_def split: if_splits)
  then have "?ds = t" by (metis append_Nil2 takeWhile_dropWhile_id)
  moreover have "list_all (is_digit 10) ?ds" by (auto simp: list_all_iff dest: set_takeWhileD)
  moreover have "s = takeWhile isspace s @ sign @ t" using sign(2) by (metis takeWhile_dropWhile_id)
  moreover have "list_all isspace (takeWhile isspace s)" by (auto simp: list_all_iff dest: set_takeWhileD)
  ultimately show ?thesis
    using sign ds unfolding denotes_def by metis
qed

lemma denotes_decimal_int: "denotes (decimal_int i) i"
proof -
  define sign where "sign = (if i < 0 then ''-'' else '''')"
  have "decimal_int i = [] @ sign @ decimal (nat \<bar>i\<bar>)"
    "i = (if sign = ''-'' then - int (digits_value 10 (decimal (nat \<bar>i\<bar>)))
          else int (digits_value 10 (decimal (nat \<bar>i\<bar>))))"
    by (simp_all add: decimal_int_def sign_def)
  moreover have "sign \<in> {'''', ''+'', ''-''}" by (simp add: sign_def)
  ultimately show ?thesis
    unfolding denotes_def using decimal_digits [of "nat \<bar>i\<bar>"] list.pred_inject(1) by metis
qed

text \<open>A numeral followed by something that is not a digit.\<close>

definition digits :: "string \<Rightarrow> bool" where
  "digits ds \<longleftrightarrow> ds \<noteq> [] \<and> list_all (is_digit 10) ds"

lemma strtol_digits:
  assumes "digits ds" "rest = [] \<or> \<not> is_digit 10 (hd rest)"
  shows "strtol (ds @ rest) 10 = (clamp_long (int (digits_value 10 ds)), rest, clamp_long (int (digits_value 10 ds)) \<noteq> int (digits_value 10 ds))"
proof -
  obtain c cs where c: "ds = c # cs" "is_digit 10 c" using assms(1) by (cases ds) (auto simp: digits_def)
  have "\<not> isspace c" "c \<noteq> CHR ''-''" "c \<noteq> CHR ''+''" using is_digit_not_sign [OF c(2)] by auto
  then have sg: "split_sign (dropWhile isspace (ds @ rest)) = (False, ds @ rest)" by (simp add: c(1))
  have tw: "takeWhile (is_digit 10) (ds @ rest) = ds" "dropWhile (is_digit 10) (ds @ rest) = rest"
    using assms by (auto simp: digits_def list_all_iff takeWhile_append dropWhile_append takeWhile_eq_Nil_iff dropWhile_eq_self_iff)
  have nb: "number_base 10 (ds @ rest) = (10, ds @ rest)" by (simp add: number_base_def)
  have "ds \<noteq> []" using assms(1) by (simp add: digits_def)
  then show ?thesis
    using LONG_MIN_less
    by (simp only: strtol_def sg nb tw clamp_long_def Let_def prod.case if_False) simp
qed

lemma strtol_decimal_prefix:
  assumes "rest = [] \<or> \<not> is_digit 10 (hd rest)"
  shows "strtol (decimal n @ rest) 10 = (clamp_long (int n), rest, clamp_long (int n) \<noteq> int n)"
  using strtol_digits [of "decimal n", OF _ assms] decimal_digits [of n] by (simp add: digits_def)

lemma decimal_length: "n < 10 ^ Suc k \<Longrightarrow> length (decimal n) \<le> Suc k"
proof (induction k arbitrary: n)
  case 0
  then show ?case by (subst decimal.simps) simp
next
  case (Suc k)
  then have "n div 10 < 10 ^ Suc k" by (simp add: div_less_iff_less_mult)
  with Suc.IH [of "n div 10"] show ?case by (subst decimal.simps) simp
qed

end
