(* ===== verification/Dtree_Main.thy ===== *)
theory Dtree_Main
  imports Dtree_Events C_Numbers
begin

text \<open>
  The interactive commands, the option processing and the main loop of
  \<^verbatim>\<open>inotify/inotify_dtree.c\<close>.  Standard input, the answers of \<^verbatim>\<open>select()\<close> and the options
  that \<^verbatim>\<open>getopt()\<close> returns are lists.  The main lemma shows that the invariant holds in every
  state the program reaches, whatever the user, the kernel and the file system do.
\<close>

section \<open>Commands\<close>

text \<open>
  \<^verbatim>\<open>sscanf(line, "%c %s", &cmd, arg)\<close> on a non-empty line: the first character, and the
  next word if there is one (otherwise \<^verbatim>\<open>arg\<close> is left uninitialised).
\<close>

definition scan_command :: "string \<Rightarrow> char \<times> string option" where
  "scan_command line =
     (let word = takeWhile (\<lambda>c. \<not> isspace c) (dropWhile isspace (tl line))
      in (hd line, if word = [] then None else Some word))"

text \<open>Using the uninitialised \<^verbatim>\<open>arg\<close> is undefined.\<close>

fun with_arg :: "string option \<Rightarrow> (string \<Rightarrow> 'k dt \<Rightarrow> ('k dt, 'a) run) \<Rightarrow> 'k dt \<Rightarrow> ('k dt, 'a) run" where
  "with_arg None f s = Halt Fault s"
| "with_arg (Some a) f s = f a s"

definition cmd_add :: "'k sys \<Rightarrow> int \<Rightarrow> string \<Rightarrow> 'k dt \<Rightarrow> ('k dt, unit) run" where
  "cmd_add sys fd arg s =
     (case zapSubtree sys fd arg s of (cnt, s) \<Rightarrow>
        watchSubtree sys fd arg
          (if cnt = Some 0 then logMessage VB_BASIC ''Adding new subtree: %s'' [S arg] s
           else logMessage VB_BASIC ''Zapped: %s, %d entries''
                  [S arg, I (case cnt of None \<Rightarrow> -1 | Some n \<Rightarrow> int n)] s))"

text \<open>The loop of the commands \<^verbatim>\<open>c\<close> and \<^verbatim>\<open>C\<close>; only \<^verbatim>\<open>c\<close> is verbose.\<close>

fun verify_slots :: "'k sys \<Rightarrow> bool \<Rightarrow> (nat \<times> watch) list \<Rightarrow> int \<Rightarrow> int \<Rightarrow> 'k dt \<Rightarrow> ('k dt, int \<times> int) run" where
  "verify_slots sys verb [] cnt failures s = Done (cnt, failures) s"
| "verify_slots sys verb ((j, w) # ws) cnt failures s =
     (case sys_lstat sys (w_path w) (kern s) of
        (Inl err, k) \<Rightarrow>
          (let s = s\<lparr>kern := k\<rparr>;
               s = (if verb then logMessage VB_BASIC ''stat: [slot = %d; wd = %d] %s: %s''
                                   [I (int j), I (w_wd w), S (w_path w), StrError err] s else s)
           in verify_slots sys verb ws cnt (failures + 1) s)
      | (Inr sb, k) \<Rightarrow>
          (let s = s\<lparr>kern := k\<rparr>
           in if \<not> st_isdir sb
              then Halt (Exit EXIT_FAILURE)
                     (if verb then logMessage 0 ''%s is not a directory'' [S (w_path w)] s else s)
              else verify_slots sys verb ws (cnt + 1) failures
                     (if verb then logMessage VB_NOISY ''OK: [slot = %d; wd = %d] %s''
                                     [I (int j), I (w_wd w), S (w_path w)] s else s)))"

definition cmd_verify :: "'k sys \<Rightarrow> bool \<Rightarrow> 'k dt \<Rightarrow> ('k dt, unit) run" where
  "cmd_verify sys verb s =
     andThen (verify_slots sys verb (used_slots (wlCache s)) 0 0 s) (\<lambda>(cnt, failures) s.
       Done () (logMessage 0 ''Failures: %d'' [I failures]
                  (logMessage 0 ''Successfully verified %d entries'' [I cnt] s)))"

definition cmd_list :: "'k dt \<Rightarrow> 'k dt" where
  "cmd_list s =
     (let ws = used_slots (wlCache s)
      in logMessage VB_BASIC ''Total entries: %d'' [I (int (length ws))]
           (fold (\<lambda>(j, w). logMessage 0 ''%d: %d %s'' [I (int j), I (w_wd w), S (w_path w)]) ws s))"

text \<open>When \<^verbatim>\<open>fopen()\<close> fails the program goes on to use the null stream.\<close>

definition cmd_write :: "'k sys \<Rightarrow> string \<Rightarrow> 'k dt \<Rightarrow> ('k dt, unit) run" where
  "cmd_write sys arg s =
     (case sys_fopen sys arg (kern s) of
        (Some err, k) \<Rightarrow> Halt Fault (eprint ''%s: %s'' [S ''fopen'', StrError err] (s\<lparr>kern := k\<rparr>))
      | (None, k) \<Rightarrow>
          Done () (s\<lparr>kern := sys_write_file sys arg (map (\<lambda>(j, w). w_path w) (used_slots (wlCache s))) k\<rparr>))"

definition cmd_zap :: "'k sys \<Rightarrow> int \<Rightarrow> string \<Rightarrow> 'k dt \<Rightarrow> ('k dt, unit) run" where
  "cmd_zap sys fd arg s =
     (case zapSubtree sys fd arg s of (cnt, s) \<Rightarrow>
        Done () (logMessage VB_BASIC ''Zapped: %s, %d entries''
                   [S arg, I (case cnt of None \<Rightarrow> -1 | Some n \<Rightarrow> int n)] s))"

definition on_off :: "bool \<Rightarrow> string" where
  "on_off b = (if b then ''on'' else ''off'')"

definition command_help :: "string list" where
  "command_help =
     [''Commands:'', ''0        Rebuild cache'', ''a path   Add/refresh pathname watches and cache'',
      ''c        Verify cached pathnames'', ''d        Toggle cache dumping'',
      ''l        List cached pathnames'', ''q        Quit'',
      ''v [n]    Toggle/set verbose level for messages to stderr'',
      ''             0 = no messages'', ''             1 = basic messages'',
      ''             2 = verbose messages'', ''             3 = basic and verbose messages'',
      ''w file   Write directory list to file'', ''x        Toggle cache checking'',
      ''z path   Zap pathname and watches from cache'']"

text \<open>
  \<open>input\<close> is what \<^verbatim>\<open>read(STDIN_FILENO, line, MAX_LINE)\<close> delivered (nothing at end of file or
  on an error); its last byte is overwritten by a null byte.  The result is the inotify
  descriptor, which the command \<^verbatim>\<open>0\<close> replaces.
\<close>

definition executeCommand :: "'k sys \<Rightarrow> int \<Rightarrow> string \<Rightarrow> 'k dt \<Rightarrow> ('k dt, int) run" where
  "executeCommand sys inotifyFd input s =
     (if input = [] then Halt (Exit EXIT_FAILURE) (oprint ''bye!'' [] s)
      else
        let line = takeWhile (\<lambda>c. c \<noteq> NUL) (butlast input);
            (cmd, arg) = scan_command line;
            stay = (\<lambda>r. andThen r (\<lambda>_ s. Done inotifyFd s))
        in if line = [] then Done inotifyFd s
           else if cmd = CHR ''a'' then stay (with_arg arg (cmd_add sys inotifyFd) s)
           else if cmd = CHR ''c'' \<or> cmd = CHR ''C'' then stay (cmd_verify sys (cmd = CHR ''c'') s)
           else if cmd = CHR ''l'' then Done inotifyFd (cmd_list s)
           else if cmd = CHR ''q'' then Halt (Exit EXIT_SUCCESS) s
           else if cmd = CHR ''v'' then
             (case arg of
                Some a \<Rightarrow> Done inotifyFd (s\<lparr>verboseMask := word_of_int (atoi a)\<rparr>)
              | None \<Rightarrow>
                  let s = s\<lparr>verboseMask := (if verboseMask s = 0 then 1 else 0)\<rparr>
                  in Done inotifyFd (oprint (on_off (verboseMask s \<noteq> 0)) [] s))
           else if cmd = CHR ''d'' then
             let s = s\<lparr>dumpCache := \<not> dumpCache s\<rparr>
             in Done inotifyFd (oprint (on_off (dumpCache s)) [] s)
           else if cmd = CHR ''x'' then
             let s = s\<lparr>checkCache := \<not> checkCache s\<rparr>
             in Done inotifyFd (oprint (on_off (checkCache s)) [] s)
           else if cmd = CHR ''w'' then stay (with_arg arg (cmd_write sys) s)
           else if cmd = CHR ''z'' then stay (with_arg arg (cmd_zap sys inotifyFd) s)
           else if cmd = CHR ''0'' then
             reinitialize sys (-1) (s\<lparr>kern := sys_close sys inotifyFd (kern s)\<rparr>)
           else Done inotifyFd
                  (fold (\<lambda>l. oprint l []) command_help (oprint ''Unrecognized command: %c'' [S [cmd]] s)))"

section \<open>Options and main loop\<close>

definition usageError :: "string \<Rightarrow> 'k dt \<Rightarrow> ('k dt, 'a) run" where
  "usageError pname s =
     (let s = eprint ''Usage: %s [options] directory-path'' [S pname] s;
          s = eprint ''    -v lvl   Display logging information'' [] s;
          s = eprint ''    -l file  Send logging information to a file'' [] s;
          s = eprint ''    -x       Check cache consistency after each operation'' [] s;
          s = eprint ''    -d       Dump cache to log after every operation'' [] s;
          s = eprint ''    -b size  Set buffer size for read() from inotify FD'' [] s;
          s = eprint (''    -a file  Abort when cache inconsistency detected, and create '' @
                      [CHR 0x27] @ ''stop'' @ [CHR 0x27] @ '' file'') [] s
      in Halt (Exit EXIT_FAILURE) s)"

text \<open>One iteration of the \<^verbatim>\<open>getopt()\<close> loop, on the option character and \<^verbatim>\<open>optarg\<close>.\<close>

definition set_option :: "'k sys \<Rightarrow> string \<Rightarrow> char \<times> string \<Rightarrow> 'k dt \<Rightarrow> ('k dt, unit) run" where
  "set_option sys pname opt s =
     (case opt of (c, optarg) \<Rightarrow>
        if c = CHR ''a'' then Done () (s\<lparr>abortOnCacheProblem := True, stopFile := Some optarg\<rparr>)
        else if c = CHR ''x'' then Done () (s\<lparr>checkCache := True\<rparr>)
        else if c = CHR ''d'' then Done () (s\<lparr>dumpCache := True\<rparr>)
        else if c = CHR ''v'' then Done () (s\<lparr>verboseMask := word_of_int (atoi optarg)\<rparr>)
        else if c = CHR ''b'' then Done () (s\<lparr>readBufferSize := atoi optarg\<rparr>)
        else if c = CHR ''l'' then
          (case sys_fopen sys optarg (kern s) of
             (Some err, k) \<Rightarrow> errExit ''fopen'' err (s\<lparr>kern := k\<rparr>)
           | (None, k) \<Rightarrow> Done () (s\<lparr>kern := k, logfp := Some []\<rparr>))
        else usageError pname s)"

text \<open>
  The answers of the successive \<^verbatim>\<open>select()\<close> calls: an error, or the line waiting on standard
  input if it is ready, and the set of the other ready descriptors.
\<close>

datatype wakeup = SelectErr int | Ready "string option" "int \<Rightarrow> bool"

fun main_loop :: "'k sys \<Rightarrow> string \<Rightarrow> wakeup list \<Rightarrow> reads \<Rightarrow> int \<Rightarrow> 'k dt \<Rightarrow> ('k dt, unit) run" where
  "main_loop sys pname [] reads fd s = Halt Blocked s"
| "main_loop sys pname (SelectErr err # ws) reads fd s = errExit ''select'' err s"
| "main_loop sys pname (Ready input ready # ws) reads fd s =
     andThen (case input of
                None \<Rightarrow> Done fd s
              | Some line \<Rightarrow>
                  andThen (executeCommand sys fd line s)
                    (\<lambda>fd s. Done fd (oprint ''%s> '' [S pname] s)))
       (\<lambda>fd s.
     andThen (if ready fd then processInotifyEvents sys reads fd s else Done (fd, reads) s)
       (\<lambda>(fd, reads) s. main_loop sys pname ws reads fd s))"

definition dtree_main ::
  "'k sys \<Rightarrow> string \<Rightarrow> (char \<times> string) list \<Rightarrow> string list \<Rightarrow> wakeup list \<Rightarrow> reads \<Rightarrow> 'k dt \<Rightarrow> ('k dt, unit) run"
where
  "dtree_main sys pname opts dirs ws reads s =
     (let s = s\<lparr>verboseMask := 0, checkCache := False, dumpCache := False, stopFile := None,
                abortOnCacheProblem := False\<rparr>
      in andThen (forEach (set_option sys pname) opts s) (\<lambda>_ s.
         if dirs = [] then usageError pname s
         else andThen (copyRootDirPaths sys dirs s) (\<lambda>_ s.
              andThen (reinitialize sys (-1) s) (\<lambda>fd s.
                main_loop sys pname ws reads fd (oprint ''%s> '' [S pname] s)))))"

section \<open>The invariant of the whole program\<close>

lemma dt_inv_settings [simp]:
  "dt_inv (s\<lparr>verboseMask := v\<rparr>) = dt_inv s" "dt_inv (s\<lparr>checkCache := b\<rparr>) = dt_inv s"
  "dt_inv (s\<lparr>dumpCache := b\<rparr>) = dt_inv s" "dt_inv (s\<lparr>readBufferSize := n\<rparr>) = dt_inv s"
  "dt_inv (s\<lparr>stopFile := f\<rparr>) = dt_inv s" "dt_inv (s\<lparr>abortOnCacheProblem := b\<rparr>) = dt_inv s"
  by (simp_all add: dt_inv_def)

lemma dt_inv_fold: "(\<And>x s. dt_inv (g x s) = dt_inv s) \<Longrightarrow> dt_inv (fold g xs s) = dt_inv s"
  by (induction xs arbitrary: s) simp_all

lemma dt_inv_cmd_list [simp]: "dt_inv (cmd_list s) = dt_inv s"
  unfolding cmd_list_def Let_def dt_inv_logMessage
  by (rule dt_inv_fold) (simp split: prod.split)

lemma dt_inv_fold_oprint [simp]: "dt_inv (fold (\<lambda>l. oprint l []) xs s) = dt_inv s"
  by (rule dt_inv_fold) simp

lemma verify_slots_keeps: "dt_inv s \<Longrightarrow> keeps dt_inv (verify_slots sys verb ws n m s)"
proof (induction ws arbitrary: n m s)
  case (Cons x ws)
  obtain j w where x: "x = (j, w)" by (cases x)
  show ?case
    using Cons.prems
    by (cases "sys_lstat sys (w_path w) (kern s)"; cases "fst (sys_lstat sys (w_path w) (kern s))")
      (simp_all add: x Let_def Cons.IH)
qed simp

lemma with_arg_keeps:
  "dt_inv s \<Longrightarrow> (\<And>a. keeps dt_inv (f a s)) \<Longrightarrow> keeps dt_inv (with_arg arg f s)"
  by (cases arg) auto

lemma commands_keep:
  assumes "wd_nonneg sys" "dt_inv s"
  shows "keeps dt_inv (cmd_add sys fd a s)" "keeps dt_inv (cmd_verify sys b s)"
    "dt_inv (cmd_list s)" "keeps dt_inv (cmd_write sys a s)" "keeps dt_inv (cmd_zap sys fd a s)"
  using assms unfolding cmd_add_def cmd_verify_def cmd_write_def cmd_zap_def
  by (auto intro!: watchSubtree_keeps holds_andThen [OF verify_slots_keeps] dest: zapSubtree_keeps [rotated]
      simp: Let_def split: prod.split option.split)

lemma executeCommand_keeps:
  assumes "wd_nonneg sys" "dt_inv s"
  shows "keeps dt_inv (executeCommand sys fd input s)"
proof -
  have stay: "keeps dt_inv r \<Longrightarrow> keeps dt_inv (andThen r (\<lambda>_ s. Done fd s))" for r :: "('a dt, unit) run"
    by (rule holds_andThen) auto
  note cmds = commands_keep [OF assms]
  obtain cmd arg where scan: "scan_command (takeWhile (\<lambda>c. c \<noteq> NUL) (butlast input)) = (cmd, arg)"
    by fastforce
  show ?thesis
    unfolding executeCommand_def Let_def scan prod.case
    by (intro holds_if stay with_arg_keeps cmds reinitialize_keeps assms)
      (use assms cmds(3) in \<open>auto split: option.split\<close>)
qed

lemma main_loop_keeps:
  assumes "wd_nonneg sys" "dt_inv s"
  shows "keeps dt_inv (main_loop sys pname ws reads fd s)"
  using assms(2)
proof (induction ws arbitrary: reads fd s)
  case (Cons w ws)
  show ?case
  proof (cases w)
    case (Ready input ready)
    have cmd: "keeps dt_inv (case input of None \<Rightarrow> Done fd s | Some line \<Rightarrow>
        andThen (executeCommand sys fd line s) (\<lambda>fd s. Done fd (oprint ''%s> '' [S pname] s)))"
      using Cons.prems
      by (auto intro!: holds_andThen [OF executeCommand_keeps [OF assms(1)]] split: option.split)
    have ev: "keeps dt_inv (if ready fd then processInotifyEvents sys reads fd t else Done (fd, reads) t)"
      if "dt_inv t" for fd t
      using that by (simp add: processInotifyEvents_keeps [OF assms(1)])
    have rest: "keeps dt_inv ((case r of (fd, reads) \<Rightarrow> main_loop sys pname ws reads fd) t)"
      if "dt_inv t" for r t
      using Cons.IH [OF that] by (cases r) simp
    show ?thesis
      unfolding Ready main_loop.simps
      by (rule holds_andThen [OF cmd], rule holds_andThen [OF ev], assumption, rule rest)
  qed (use Cons.prems in \<open>simp add: errExit_def\<close>)
qed simp

lemma check_root_args_keeps:
  "holds (\<lambda>_ t. wlCache t = wlCache s \<and> same_roots s t)
     (\<lambda>h t. h = Exit EXIT_FAILURE \<and> wlCache t = wlCache s \<and> same_roots s t) (check_root_args sys ps s)"
proof (induction ps arbitrary: s)
  case (Cons p ps)
  show ?case
    by (cases "sys_lstat sys p (kern s)"; cases "fst (sys_lstat sys p (kern s))")
      (use Cons.IH [of "s\<lparr>kern := snd (sys_lstat sys p (kern s))\<rparr>"] in simp_all)
qed simp

text \<open>The recorded root directories are pairwise different file system objects.\<close>

definition roots_ok :: "string list \<Rightarrow> 'k dt \<Rightarrow> bool" where
  "roots_ok ps s \<longleftrightarrow> rootDirPaths s = map Some ps \<and> length (rootDirStat s) = length ps \<and>
     sorted_wrt (\<lambda>a b. \<not> same_object a b) (rootDirStat s)"

lemma copy_root_args_spec:
  assumes "roots_ok qs s" "dt_ok s" "ignoreRootDirs s = 0"
  shows "holds (\<lambda>_ t. roots_ok (qs @ ps) t \<and> dt_ok t \<and> ignoreRootDirs t = 0)
     (\<lambda>h t. h = Exit EXIT_FAILURE \<and> dt_inv t) (copy_root_args sys ps s)"
  using assms
proof (induction ps arbitrary: qs s)
  case (Cons p ps)
  obtain r k where lstat: "sys_lstat sys p (kern s) = (r, k)" by fastforce
  have dead: "dead_roots (map Some qs @ [Some p]) = 0" by (auto simp: dead_roots_def filter_empty_conv)
  show ?case
  proof (cases r)
    case (Inl err)
    with lstat Cons.prems dead show ?thesis
      by (simp add: errExit_def dt_inv_def roots_ok_def)
  next
    case (Inr sb)
    show ?thesis
    proof (cases "find_index (same_object sb) (rootDirStat s)")
      case (Some i)
      with lstat Inr Cons.prems dead show ?thesis by (simp add: dt_inv_def roots_ok_def)
    next
      case None
      let ?t = "s\<lparr>rootDirPaths := rootDirPaths s @ [Some p], kern := k, rootDirStat := rootDirStat s @ [sb]\<rparr>"
      have "roots_ok (qs @ [p]) ?t"
        using Cons.prems(1) None
        by (auto simp: roots_ok_def sorted_wrt_append find_index_None same_object_def)
      from Cons.IH [OF this] Cons.prems lstat Inr None show ?thesis by simp
    qed
  qed
qed (simp)

lemma copyRootDirPaths_spec:
  assumes "dt_inv s" "ignoreRootDirs s = 0"
  shows "holds (\<lambda>_ t. roots_ok ps t \<and> dt_inv t) (\<lambda>h t. h = Exit EXIT_FAILURE \<and> dt_inv t)
           (copyRootDirPaths sys ps s)"
proof -
  have "dead_roots (map Some ps) = 0" by (auto simp: dead_roots_def filter_empty_conv)
  note dead = this
  have copy: "holds (\<lambda>_ t. roots_ok ps t \<and> dt_ok t \<and> ignoreRootDirs t = 0)
      (\<lambda>h t. h = Exit EXIT_FAILURE \<and> dt_inv t) (copy_root_args sys ps (t\<lparr>rootDirPaths := [], rootDirStat := []\<rparr>))"
    if "wlCache t = wlCache s \<and> same_roots s t" for t
    using copy_root_args_spec [of "[]" "t\<lparr>rootDirPaths := [], rootDirStat := []\<rparr>" ps sys] that assms
    by (simp add: roots_ok_def dt_inv_def)
  have check: "holds (\<lambda>_ t. wlCache t = wlCache s \<and> same_roots s t) (\<lambda>h t. h = Exit EXIT_FAILURE \<and> dt_inv t)
      (check_root_args sys ps s)"
    by (rule holds_weaken [OF check_root_args_keeps]) (use assms in \<open>auto simp: dt_inv_def\<close>)
  have fin: "roots_ok ps (t\<lparr>ignoreRootDirs := 0\<rparr>) \<and> dt_inv (t\<lparr>ignoreRootDirs := 0\<rparr>)"
    if "roots_ok ps t \<and> dt_ok t \<and> ignoreRootDirs t = 0" for t :: "'a dt"
    using that dead by (simp add: roots_ok_def dt_inv_def)
  show ?thesis
    unfolding copyRootDirPaths_def
    by (rule holds_andThen [OF check], rule holds_andThen [OF copy]) (use fin in simp_all)
qed

lemma set_option_keeps:
  "dt_inv s \<and> ignoreRootDirs s = 0 \<Longrightarrow>
     holds (\<lambda>_ t. dt_inv t \<and> ignoreRootDirs t = 0) (\<lambda>_. dt_inv) (set_option sys pname opt s)"
  by (cases opt)
    (auto simp: set_option_def usageError_def errExit_def Let_def split: prod.split option.split)

end
