(* ===== verification/Dtree_Props.thy ===== *)
theory Dtree_Props
  imports Dtree_Main
begin

text \<open>
  The properties of the directory-tree monitor \<^verbatim>\<open>inotify/inotify_dtree.c\<close>, each with an
  instance on a concrete environment and cache.
\<close>

section \<open>A concrete environment and cache\<close>

abbreviation free_slot :: watch where
  "free_slot \<equiv> \<lparr>w_wd = -1, w_path = []\<rparr>"

text \<open>Every path is a directory without subdirectories, and every call succeeds.\<close>

definition calm_sys :: "int sys" where
  "calm_sys =
     \<lparr>sys_lstat = \<lambda>p k. (Inr \<lparr>st_isdir = True, st_ino = length p, st_dev = 0\<rparr>, k),
      sys_realloc = \<lambda>n k. (Some (\<lambda>_. free_slot), k),
      sys_creat = \<lambda>_ k. k,
      sys_add_watch = \<lambda>_ _ _ k. (Inr \<bar>k\<bar>, k + 1),
      sys_rm_watch = \<lambda>_ _ k. (None, k),
      sys_nftw = \<lambda>p k. (([(p, \<lparr>st_isdir = True, st_ino = length p, st_dev = 0\<rparr>)], None), k),
      sys_inotify_init = \<lambda>k. (Inr 3, k),
      sys_close = \<lambda>_ k. k,
      sys_sigaction = \<lambda>k. (None, k),
      sys_fopen = \<lambda>_ k. (None, k),
      sys_write_file = \<lambda>_ _ k. k\<rparr>"

definition dt_with :: "watch list \<Rightarrow> int dt" where
  "dt_with ws =
     \<lparr>verboseMask = 0, checkCache = False, dumpCache = False, readBufferSize = 0, stopFile = None,
      abortOnCacheProblem = False, logfp = None, stderr_out = [], stdout_out = [], inotifyReadCnt = 0,
      wlCache = ws @ replicate (ALLOC_INCR - length ws) free_slot,
      rootDirPaths = [Some ''/r''], rootDirStat = [\<lparr>st_isdir = True, st_ino = 2, st_dev = 0\<rparr>],
      ignoreRootDirs = 0, dirCnt = 0, ifd = 3, reinitCnt = 0, overflowCnt = 0, kern = 9\<rparr>"

definition tree_cache :: "watch list" where
  "tree_cache =
     [\<lparr>w_wd = 1, w_path = ''/r''\<rparr>, \<lparr>w_wd = 2, w_path = ''/r/a''\<rparr>,
      \<lparr>w_wd = 3, w_path = ''/r/a/b''\<rparr>, \<lparr>w_wd = 4, w_path = ''/r/ab''\<rparr>]"

abbreviation demo :: "int dt" where "demo \<equiv> dt_with tree_cache"

lemma wd_nonneg_calm [simp]: "wd_nonneg calm_sys"
  by (simp add: wd_nonneg_def calm_sys_def)

lemma find_index_pad: "\<not> P x \<Longrightarrow> find_index P (xs @ replicate n x) = find_index P xs"
proof (induction xs)
  case Nil
  then show ?case by (induction n) auto
qed auto

lemma cache_map_pad:
  "cache_map (ws @ replicate n free_slot) wd = cache_map ws wd"
  by (auto simp: cache_map_def find_index_pad nth_append dest: find_index_Some intro!: option.map_cong)

lemma dt_ok_dt_with:
  assumes "distinct (map w_wd ws)" "\<forall>w \<in> set ws. 0 \<le> w_wd w" "length ws \<le> ALLOC_INCR"
  shows "dt_ok (dt_with ws)"
  unfolding cache_ok_def
proof (intro conjI allI impI)
  fix i j
  let ?c = "wlCache (dt_with ws)"
  assume "i < length ?c" "j < length ?c" "0 \<le> w_wd (?c ! i) \<and> w_wd (?c ! i) = w_wd (?c ! j)"
  then have "i < length ws" "j < length ws" "w_wd (ws ! i) = w_wd (ws ! j)"
    by (auto simp: dt_with_def nth_append split: if_splits)
  then show "i = j" using assms(1) by (simp add: distinct_conv_nth) (metis length_map nth_map)
qed (use assms(2,3) in \<open>auto simp: dt_with_def nth_append intro: order_trans [of "-1 :: int" 0]\<close>,
     metis nth_mem not_one_le_zero le_minus_one_simps(3))

lemma demo_inv [simp]: "dt_inv demo"
proof -
  have "dt_ok demo" by (rule dt_ok_dt_with) (simp_all add: tree_cache_def ALLOC_INCR_def)
  then show ?thesis by (simp add: dt_inv_def dt_with_def dead_roots_def)
qed

lemma demo_cmap [simp]:
  "cmap demo = [1 \<mapsto> ''/r'', 2 \<mapsto> ''/r/a'', 3 \<mapsto> ''/r/a/b'', 4 \<mapsto> ''/r/ab'']"
  by (rule ext) (simp add: dt_with_def cache_map_pad, simp add: tree_cache_def cache_map_def)

section \<open>Events and the cached tree\<close>

text \<open>
  Whatever events arrive and however the system calls answer, processing a buffer of
  inotify events keeps the cache invariant: no watch descriptor is cached twice, free
  slots are empty, and the count of abandoned root directories is right.  This holds in
  every state in which the program stops, too.
\<close>

theorem processInotifyEvents_invariant:
  assumes "wd_nonneg sys" "dt_inv s"
  shows "keeps dt_inv (processInotifyEvents sys reads fd s)"
  using assms by (rule processInotifyEvents_keeps)

definition rename_from :: inotify_event where
  "rename_from = \<lparr>ev_wd = 1, ev_mask = IN_MOVED_FROM OR IN_ISDIR, ev_cookie = 7, ev_len = 16, ev_name = ''a''\<rparr>"

definition rename_to :: inotify_event where
  "rename_to = \<lparr>ev_wd = 4, ev_mask = IN_MOVED_TO OR IN_ISDIR, ev_cookie = 7, ev_len = 16, ev_name = ''c''\<rparr>"

theorem processInotifyEvents_invariant_witness:
  "dt_inv demo \<and>
   keeps dt_inv (processInotifyEvents calm_sys
     [\<lambda>_. ReadEvents [rename_from], \<lambda>_. ReadEvents [rename_to]] 3 demo)"
  using processInotifyEvents_invariant [OF wd_nonneg_calm demo_inv] by simp


definition interrupted_rename :: reads where
  "interrupted_rename =
     [\<lambda>cnt. if cnt < total_bytes [rename_from] then ReadErr 22 else ReadEvents [rename_from],
      \<lambda>_. ReadErr EINTR]"


lemma Some_slot:
  assumes "dt_ok s" "cmap s wd = Some p"
  obtains j where "findWatch wd s = Some j" "w_path (wlCache s ! j) = p" "0 \<le> wd" "wd \<noteq> -1"
  using assms by (auto simp: cache_map_def findWatch_def split: if_splits)

text \<open>
  C3: a consecutive pair of \<^verbatim>\<open>IN_MOVED_FROM\<close> and \<^verbatim>\<open>IN_MOVED_TO\<close> events with the same cookie is
  consumed as one rename: afterwards each cached directory that was the renamed one or
  lay below it has its path prefix replaced, every other entry is unchanged, and no watch
  descriptor appears or disappears.
\<close>

theorem rename_event_renames_tree:
  fixes s :: "'k dt"
  assumes inv: "dt_inv s" and quiet: "\<not> checkCache s" "\<not> dumpCache s"
    and ev: "ev_mask ev = IN_MOVED_FROM OR IN_ISDIR" "cmap s (ev_wd ev) = Some od" "ev_bytes ev < n"
    and ev': "has ev' IN_MOVED_TO" "ev_cookie ev' = ev_cookie ev" "cmap s (ev_wd ev') = Some nd"
    and old: "old = od @ ''/'' @ ev_name ev" "length old < PATH_MAX"
    and new: "new = nd @ ''/'' @ ev_name ev'" "length new < PATH_MAX"
    and fits: "\<forall>p \<in> ran (cmap s). NUL \<notin> set p \<and> length (rename_path old new p) < PATH_MAX"
  shows "\<exists>t. processNextInotifyEvent sys fd (ev # ev' # rest) n b s =
              Done (ev_bytes ev + ev_bytes ev', fd) t \<and> dt_inv t \<and>
            (\<forall>wd. cmap t wd = map_option (rename_path old new) (cmap s wd))"
proof -
  from inv have ok: "dt_ok s" by (simp add: dt_inv_def)
  obtain j where j: "findWatch (ev_wd ev) s = Some j" "w_path (wlCache s ! j) = od" "ev_wd ev \<noteq> -1"
    using Some_slot [OF ok ev(2)] by metis
  obtain j' where j': "findWatch (ev_wd ev') s = Some j'" "w_path (wlCache s ! j') = nd"
    using Some_slot [OF ok ev'(3)] by metis
  let ?s = "displayInotifyEvent ev s"
  let ?t = "rewriteCachedPaths od (ev_name ev) nd (ev_name ev') ?s"
  have trunc: "old = snprintf_str PATH_MAX (od @ ''/'' @ ev_name ev)"
      "new = snprintf_str PATH_MAX (nd @ ''/'' @ ev_name ev')"
    using old new by (simp_all add: snprintf_str_def)
  have slots: "findWatch wd ?s = findWatch wd s" for wd by (simp add: findWatch_def)
  have "dispatch sys fd ev (Some j) (ev' # rest) n b ?s = Done (Consumed (ev_bytes ev + ev_bytes ev')) ?t"
    using ev ev' j j' by (simp add: dispatch_def has_def on_moved_from_def findWatchChecked_def slots)
  moreover have "event_slot sys ev ?s = Done (Some (Some j)) ?s"
    using ev(1) j by (simp add: event_slot_def has_def findWatchChecked_def slots)
  moreover have "after_event sys r ?t = Done r ?t" for r :: "int \<times> int"
    using quiet conf_eqD [of ?t s] by (simp add: after_event_def)
  ultimately have "processNextInotifyEvent sys fd (ev # ev' # rest) n b s =
      Done (ev_bytes ev + ev_bytes ev', fd) ?t"
    by (simp add: processNextInotifyEvent_def)
  moreover have "cmap ?t wd = map_option (rename_path old new) (cmap s wd)" for wd
  proof -
    have "cmap ?t wd = map_option (rename_entry old new) (cmap s wd)"
      using rewriteCachedPaths_spec(2) [OF _ trunc, of ?s wd] ok by simp
    moreover have "rename_entry old new p = rename_path old new p" if "cmap s wd = Some p" for p
      using fits that by (intro rename_entry_eq) (auto simp: ran_def)
    ultimately show ?thesis by (auto intro: option.map_cong simp: option.set_sel split: option.splits)
  qed
  moreover have "dt_inv ?t" using inv by (intro rewriteCachedPaths_keeps) simp
  ultimately show ?thesis by blast
qed

theorem rename_event_renames_tree_witness:
  "\<exists>t. processNextInotifyEvent calm_sys 3 [rename_from, rename_to] 64 True demo = Done (64, 3) t \<and>
       cmap t 2 = Some ''/r/ab/c'' \<and> cmap t 3 = Some ''/r/ab/c/b'' \<and> cmap t 4 = Some ''/r/ab''"
proof -
  let ?old = "''/r/a''" and ?new = "''/r/ab/c''"
  have ran: "ran (cmap demo) = {''/r'', ''/r/a'', ''/r/a/b'', ''/r/ab''}" by (auto simp: ran_map_upd)
  have "\<exists>t. processNextInotifyEvent calm_sys 3 (rename_from # rename_to # []) 64 True demo =
          Done (ev_bytes rename_from + ev_bytes rename_to, 3) t \<and> dt_inv t \<and>
        (\<forall>wd. cmap t wd = map_option (rename_path ?old ?new) (cmap demo wd))"
  proof (rule rename_event_renames_tree [where od = "''/r''" and nd = "''/r/ab''"])
    show "\<forall>p \<in> ran (cmap demo). NUL \<notin> set p \<and> length (rename_path ?old ?new p) < PATH_MAX"
      by (simp add: ran rename_path_def)
  qed (simp_all add: rename_from_def rename_to_def ev_bytes_def has_def, simp_all add: dt_with_def)
  then show ?thesis by (force simp: rename_from_def rename_to_def ev_bytes_def rename_path_def)
qed



text \<open>
  An event for a watch descriptor that is not in the cache makes the program discard
  the rest of the buffer and rebuild the cache: the result contains only directories found
  below the root directories that are still monitored, and does not depend on what the
  cache held before.
\<close>

theorem unknown_descriptor_rebuilds:
  fixes s :: "'k dt"
  assumes "wd_nonneg sys" "dt_inv s" "\<not> abortOnCacheProblem s"
    and "ev_wd ev \<noteq> -1" "\<not> has ev IN_IGNORED" "findWatch (ev_wd ev) s = None"
  shows "holds (\<lambda>r t. dt_inv t \<and> fst r = INOTIFY_READ_BUF_LEN \<and> ran (cmap t) \<subseteq> strncpy PATH_MAX ` monitored sys s \<and>
            (\<forall>c. findWatch (ev_wd ev) (s\<lparr>wlCache := c\<rparr>) = None \<longrightarrow>
                 processNextInotifyEvent sys fd (ev # rest) n b (s\<lparr>wlCache := c\<rparr>) = Done r t))
          (\<lambda>_. dt_inv) (processNextInotifyEvent sys fd (ev # rest) n b s)"
proof -
  let ?log = "\<lambda>s. logMessage 0 ''Could not find watch %d'' [I (ev_wd ev)] (displayInotifyEvent ev s)"
  have run: "processNextInotifyEvent sys fd (ev # rest) n b u = reinit_discard sys fd (?log u)"
    if "findWatch (ev_wd ev) u = None" "\<not> abortOnCacheProblem u" for u :: "'k dt"
    using assms(4,5) that
    by (simp add: processNextInotifyEvent_def event_slot_def findWatchChecked_def findWatch_def Let_def)
  have upd: "?log (s\<lparr>wlCache := c\<rparr>) = (?log s)\<lparr>wlCache := c\<rparr>" for c
    by (simp only: displayInotifyEvent_wlCache logMessage_wlCache)
  have "holds (\<lambda>r t. dt_inv t \<and> fst r = INOTIFY_READ_BUF_LEN \<and> ran (cmap t) \<subseteq> strncpy PATH_MAX ` monitored sys s \<and>
            (\<forall>c. reinit_discard sys fd ((?log s)\<lparr>wlCache := c\<rparr>) = Done r t))
          (\<lambda>_. dt_inv) (reinit_discard sys fd (?log s))"
  proof -
    have mon: "monitored sys (?log s) = monitored sys s" by (simp add: monitored_def)
    have "holds (\<lambda>_ v. dt_inv v \<and> ran (cmap v) \<subseteq> strncpy PATH_MAX ` monitored sys s) (\<lambda>_. dt_inv)
        (reinitialize sys fd (?log s))"
      by (rule holds_weaken [OF reinitialize_spec [OF assms(1)]])
        (use assms(2) mon in \<open>auto simp: dt_inv_def\<close>)
    then show ?thesis
      unfolding reinit_discard_def
      by (cases "reinitialize sys fd (?log s)") (auto simp: reinitialize_forgets_cache)
  qed
  then show ?thesis
    unfolding run [OF assms(6,3)]
    by (rule holds_weaken) (use assms(3) in \<open>auto simp: run upd\<close>)
qed

theorem unknown_descriptor_rebuilds_witness:
  "holds (\<lambda>r t. dt_inv t \<and> fst r = INOTIFY_READ_BUF_LEN \<and> ran (cmap t) \<subseteq> strncpy PATH_MAX ` monitored calm_sys demo \<and>
            (\<forall>c. findWatch 77 (demo\<lparr>wlCache := c\<rparr>) = None \<longrightarrow>
                 processNextInotifyEvent calm_sys 3 [rename_from\<lparr>ev_wd := 77\<rparr>] 32 True (demo\<lparr>wlCache := c\<rparr>) = Done r t))
     (\<lambda>_. dt_inv) (processNextInotifyEvent calm_sys 3 [rename_from\<lparr>ev_wd := 77\<rparr>] 32 True demo)"
proof -
  have "dt_ok demo" using demo_inv by (simp add: dt_inv_def del: demo_inv)
  then have "findWatch 77 demo = None" by (simp add: findWatch_None_iff)
  moreover have "\<not> abortOnCacheProblem demo" by (simp add: dt_with_def)
  ultimately show ?thesis
    using unknown_descriptor_rebuilds [of calm_sys demo "rename_from\<lparr>ev_wd := 77\<rparr>" 3 "[]" 32 True]
    by (simp add: rename_from_def has_def)
qed

text \<open>
  C5: the array of slots implements a finite map from watch descriptors to pathnames.
  Adding a new descriptor either binds it, in the slot that a later search returns, and
  changes nothing else, or ends the program with the cache as it was; a search succeeds
  exactly on the bound descriptors; marking the slot found for a descriptor as empty
  unbinds exactly that descriptor.
\<close>

theorem cache_implements_map:
  fixes s :: "'k dt"
  assumes "dt_ok s" "0 \<le> wd"
  shows "(findWatch wd s = None \<longleftrightarrow> cmap s wd = None) \<and>
    (cmap s wd = None \<longrightarrow>
       holds (\<lambda>j t. dt_ok t \<and> cmap t = (cmap s)(wd \<mapsto> strncpy PATH_MAX p) \<and> findWatch wd t = Some j \<and>
                    cmap (markCacheSlotEmpty j t) = cmap s)
             (\<lambda>h t. h = Exit EXIT_FAILURE \<and> cmap t = cmap s) (addWatchToCache sys wd p s)) \<and>
    (\<forall>j. findWatch wd s = Some j \<longrightarrow>
       dt_ok (markCacheSlotEmpty j s) \<and> cmap (markCacheSlotEmpty j s) = (cmap s)(wd := None) \<and>
       findWatch wd (markCacheSlotEmpty j s) = None)"
proof (intro conjI impI allI)
  show "findWatch wd s = None \<longleftrightarrow> cmap s wd = None"
    using assms by (rule cache.find_wd_None)
next
  assume new: "cmap s wd = None"
  have "holds (\<lambda>j t. dt_ok t \<and> cmap t = (cmap s)(wd \<mapsto> strncpy PATH_MAX p) \<and> findWatch wd t = Some j)
      (\<lambda>h t. h = Exit EXIT_FAILURE \<and> cmap t = cmap s) (addWatchToCache sys wd p s)"
    by (rule holds_weaken [OF addWatchToCache_spec [OF assms new]]) auto
  then show "holds (\<lambda>j t. dt_ok t \<and> cmap t = (cmap s)(wd \<mapsto> strncpy PATH_MAX p) \<and> findWatch wd t = Some j \<and>
                    cmap (markCacheSlotEmpty j t) = cmap s)
             (\<lambda>h t. h = Exit EXIT_FAILURE \<and> cmap t = cmap s) (addWatchToCache sys wd p s)"
    using cache.add_remove [OF assms new, of sys p]
    by (cases "addWatchToCache sys wd p s") auto
next
  fix j assume j: "findWatch wd s = Some j"
  show "dt_ok (markCacheSlotEmpty j s)" "cmap (markCacheSlotEmpty j s) = (cmap s)(wd := None)"
    using cache.remove_at [OF assms j] by simp_all
  show "findWatch wd (markCacheSlotEmpty j s) = None"
    using assms j by (rule cache.removed_not_found)
qed

theorem cache_implements_map_witness:
  "cmap (markCacheSlotEmpty 1 demo) = (cmap demo)(2 := None)"
proof -
  have ok: "dt_ok demo" using demo_inv by (simp add: dt_inv_def del: demo_inv)
  moreover from ok have "findWatch 2 demo = Some 1"
    by (subst findWatch_Some_iff) (simp_all add: dt_with_def tree_cache_def ALLOC_INCR_def)
  ultimately show ?thesis using cache_implements_map [of demo 2 "''x''" calm_sys] by simp
qed

text \<open>
  The creation of a directory whose pathname is already cached (because the walk over
  its parent came first) changes neither the cache nor the root directories.
\<close>

theorem create_event_of_cached_directory:
  fixes s :: "'k dt"
  assumes "dt_inv s" "\<not> checkCache s" "\<not> dumpCache s"
    and "has ev IN_ISDIR" "has ev (IN_CREATE OR IN_MOVED_TO)" "\<not> has ev IN_IGNORED"
    and "cmap s (ev_wd ev) = Some dir" "dir @ ''/'' @ ev_name ev \<in> ran (cmap s)"
    and "length (dir @ ''/'' @ ev_name ev) < PATH_MAX"
  shows "\<exists>t. processNextInotifyEvent sys fd (ev # rest) n b s = Done (ev_bytes ev, fd) t \<and>
             wlCache t = wlCache s \<and> same_roots s t"
proof -
  from assms(1) have ok: "dt_ok s" by (simp add: dt_inv_def)
  obtain j where j: "findWatch (ev_wd ev) s = Some j" "w_path (wlCache s ! j) = dir" "ev_wd ev \<noteq> -1"
    using Some_slot [OF ok assms(7)] by metis
  let ?s = "displayInotifyEvent ev s"
  let ?p = "dir @ ''/'' @ ev_name ev"
  let ?t = "logMessage VB_BASIC ''Directory creation on wd %d: %s'' [I (ev_wd ev), S ?p] ?s"
  obtain wd where "cmap s wd = Some ?p" using assms(8) by (auto simp: ran_def)
  then obtain i where "i < length (wlCache s)" "0 \<le> w_wd (wlCache s ! i)" "w_path (wlCache s ! i) = ?p"
    by (auto simp: cache_map_eq_Some_iff [OF ok])
  then have "pathnameInCache ?p ?t"
    unfolding pathnameInCache_def pathnameToCacheSlot_def by (auto simp: find_index_None intro!: bexI [OF _ nth_mem])
  moreover have "ev_full_path ev j ?s = ?p"
    using j(2) assms(9) by (simp add: ev_full_path_def snprintf_str_def)
  ultimately have "dispatch sys fd ev (Some j) rest n b ?s = Done (Consumed (ev_bytes ev)) ?t"
    using assms(4,5) by (simp add: dispatch_def on_dir_created_def Let_def)
  moreover have "event_slot sys ev ?s = Done (Some (Some j)) ?s"
    using assms(6) j by (simp add: event_slot_def findWatchChecked_def findWatch_def)
  moreover have "after_event sys r ?t = Done r ?t" for r :: "int \<times> int"
    using assms(2,3) by (simp add: after_event_def)
  ultimately have "processNextInotifyEvent sys fd (ev # rest) n b s = Done (ev_bytes ev, fd) ?t"
    by (simp add: processNextInotifyEvent_def)
  then show ?thesis by auto
qed

definition create_a :: inotify_event where
  "create_a = \<lparr>ev_wd = 1, ev_mask = IN_CREATE OR IN_ISDIR, ev_cookie = 0, ev_len = 16, ev_name = ''a''\<rparr>"

theorem create_event_of_cached_directory_witness:
  "\<exists>t. processNextInotifyEvent calm_sys 3 [create_a] 32 True demo = Done (32, 3) t \<and>
       wlCache t = wlCache demo \<and> same_roots demo t"
proof -
  have "''/r'' @ ''/'' @ ''a'' \<in> ran (cmap demo)" by (simp add: ran_map_upd)
  moreover have "\<not> checkCache demo" "\<not> dumpCache demo" by (simp_all add: dt_with_def)
  ultimately show ?thesis
    using create_event_of_cached_directory [of demo create_a "''/r''" calm_sys 3 "[]" 32 True]
    by (simp add: create_a_def has_def ev_bytes_def)
qed

text \<open>
  C6: the loop over a buffer makes progress: one call consumes one event, a rename pair, or
  the rest of the buffer; it asks for another \<^verbatim>\<open>read()\<close> only on the first try and only when the
  event is the last one in the buffer.
\<close>

theorem processNextInotifyEvent_progress:
  "holds (\<lambda>(len, _) _.
       len = ev_bytes ev \<or> len = INOTIFY_READ_BUF_LEN \<or>
       (rest \<noteq> [] \<and> len = ev_bytes ev + ev_bytes (hd rest) \<and> ev_bytes ev < n) \<or>
       (len = -1 \<and> firstTry \<and> n \<le> ev_bytes ev))
     (\<lambda>_ _. True) (processNextInotifyEvent sys fd (ev # rest) n firstTry s)"
  by (rule holds_weaken [OF processNext_advances]) (auto simp: advances_def)

text \<open>
  Removing a subtree from the cache.  On success exactly the entries of the directory
  and of the directories below it are gone and their number is returned; when a watch
  could not be removed, some of those entries may be gone, but no other.
\<close>

theorem zapSubtree_removes_subtree:
  fixes s :: "'k dt"
  assumes ok: "dt_ok s" and nul: "\<forall>p \<in> ran (cmap s). NUL \<notin> set p"
    and zap: "zapSubtree sys fd dir s = (r, t)"
  shows "dt_ok t \<and> cmap t \<subseteq>\<^sub>m cmap s \<and>
    (\<forall>wd p. cmap s wd = Some p \<and> \<not> (p = dir \<or> prefix (dir @ ''/'') p) \<longrightarrow> cmap t wd = Some p) \<and>
    (\<forall>n. r = Some n \<longrightarrow>
       (\<forall>wd p. cmap t wd = Some p \<longrightarrow> \<not> (p = dir \<or> prefix (dir @ ''/'') p)) \<and>
       n = card {wd. \<exists>p. cmap s wd = Some p \<and> (p = dir \<or> prefix (dir @ ''/'') p)})"
proof -
  have sub: "in_subtree dir p \<longleftrightarrow> p = dir \<or> prefix (dir @ ''/'') p" if "cmap s wd = Some p" for wd p
    using that nul by (intro in_subtree_iff) (auto simp: ran_def)
  have keep: "cmap t wd = Some p" if "cmap s wd = Some p" "\<not> in_subtree dir p" for wd p
    using zapSubtree_keeps_others [OF ok zap that] .
  have "\<not> in_subtree dir p" if "r = Some n" "cmap t wd = Some p" for n wd p
    using zapSubtree_spec(4) [OF ok zap that(1), of wd] that(2) by (auto split: option.splits if_splits)
  moreover have "cmap s wd = Some p" if "cmap t wd = Some p" for wd p
    using zapSubtree_spec(3) [OF ok zap] that by (auto simp: map_le_def dom_def)
  moreover have "n = card {wd. \<exists>p. cmap s wd = Some p \<and> (p = dir \<or> prefix (dir @ ''/'') p)}" if "r = Some n" for n
  proof -
    have "n = card {wd. \<exists>p. cmap s wd = Some p \<and> in_subtree dir p}"
      using zapSubtree_count [OF ok] zap that by simp
    also have "{wd. \<exists>p. cmap s wd = Some p \<and> in_subtree dir p} =
        {wd. \<exists>p. cmap s wd = Some p \<and> (p = dir \<or> prefix (dir @ ''/'') p)}"
      using sub by blast
    finally show ?thesis .
  qed
  ultimately show ?thesis
    using zapSubtree_spec(1,3) [OF ok zap] keep sub by blast
qed

theorem zapSubtree_removes_subtree_witness:
  "fst (zapSubtree calm_sys 3 ''/r/a'' demo) = Some 2"
proof -
  obtain r t where zap: "zapSubtree calm_sys 3 ''/r/a'' demo = (r, t)" by fastforce
  have "dt_ok demo" using demo_inv by (simp add: dt_inv_def del: demo_inv)
  moreover have "\<forall>p \<in> ran (cmap demo). NUL \<notin> set p" by (auto simp: ran_map_upd)
  moreover have "{wd. \<exists>p. cmap demo wd = Some p \<and> (p = ''/r/a'' \<or> prefix (''/r/a'' @ ''/'') p)} = {2, 3}"
    by auto
  ultimately have "r = Some n \<longrightarrow> n = card {2 :: int, 3}" for n
    using zapSubtree_removes_subtree [OF _ _ zap] by metis
  moreover have "\<exists>n. fst (zap_slots calm_sys 3 dir js m s) = Some n" for dir js m s
    by (induction js arbitrary: m s) (simp_all add: calm_sys_def Let_def)
  then have "\<exists>n. r = Some n" using zap by (metis zapSubtree_def fst_conv)
  ultimately show ?thesis using zap by (auto simp: numeral_2_eq_2)
qed

text \<open>
  Walking a tree adds watches without disturbing the cache: no entry is lost or
  changed, every new entry is a directory the walk visited, and the returned count is the
  number of new entries.
\<close>

theorem watchDir_adds_visited:
  fixes s :: "'k dt"
  assumes "wd_nonneg sys" "dt_ok s"
  shows "holds (\<lambda>cnt t. dt_ok t \<and> cmap s \<subseteq>\<^sub>m cmap t \<and>
                  (\<forall>wd p. cmap t wd = Some p \<and> cmap s wd = None \<longrightarrow> p \<in> strncpy PATH_MAX ` visited sys path) \<and>
                  cnt = int (card (dom (cmap t) - dom (cmap s))))
               (\<lambda>_. dt_ok) (watchDir sys fd path s)"
proof (rule holds_weaken [OF watchDir_grows [OF assms refl]])
  fix cnt and t :: "'k dt"
  assume g: "grows {p. \<exists>sb. (p, sb) \<in> set (fst (fst (sys_nftw sys path (kern s)))) \<and> st_isdir sb} s t \<and>
      cnt = int (card (dom (cmap t))) - int (card (dom (cmap s)))"
  then have le: "cmap s \<subseteq>\<^sub>m cmap t" by (simp add: grows_def)
  then have "dom (cmap s) \<subseteq> dom (cmap t)" by (rule map_le_implies_dom_le)
  then have "int (card (dom (cmap t) - dom (cmap s))) = int (card (dom (cmap t))) - int (card (dom (cmap s)))"
    by (simp add: card_Diff_subset card_mono of_nat_diff)
  with g le show "dt_ok t \<and> cmap s \<subseteq>\<^sub>m cmap t \<and>
      (\<forall>wd p. cmap t wd = Some p \<and> cmap s wd = None \<longrightarrow> p \<in> strncpy PATH_MAX ` visited sys path) \<and>
      cnt = int (card (dom (cmap t) - dom (cmap s)))"
    unfolding grows_def visited_def by fastforce
qed (simp add: grows_def)

theorem watchDir_adds_visited_witness:
  "holds (\<lambda>cnt t. dt_ok t \<and> cmap demo \<subseteq>\<^sub>m cmap t \<and>
            (\<forall>wd p. cmap t wd = Some p \<and> cmap demo wd = None \<longrightarrow> p \<in> strncpy PATH_MAX ` visited calm_sys ''/r/z'') \<and>
            cnt = int (card (dom (cmap t) - dom (cmap demo))))
     (\<lambda>_. dt_ok) (watchDir calm_sys 3 ''/r/z'' demo)"
proof -
  have "dt_ok demo" using demo_inv by (simp add: dt_inv_def del: demo_inv)
  then show ?thesis by (rule watchDir_adds_visited [OF wd_nonneg_calm])
qed

section \<open>The whole program\<close>

text \<open>
  C1: started with an empty cache, the program keeps its invariant in every state it
  reaches, for all options and directories on the command line, all commands typed by the
  user, all events, and all answers of the system calls.
\<close>

theorem dtree_main_invariant:
  assumes "wd_nonneg sys" "wlCache s = []" "rootDirPaths s = []" "ignoreRootDirs s = 0"
  shows "keeps dt_inv (dtree_main sys pname opts dirs ws reads s)"
proof -
  let ?s = "s\<lparr>verboseMask := 0, checkCache := False, dumpCache := False, stopFile := None,
              abortOnCacheProblem := False\<rparr>"
  have "dt_inv ?s \<and> ignoreRootDirs ?s = 0" using assms(2-4) by (simp add: dt_inv_def dead_roots_def)
  then have opts: "holds (\<lambda>_ t. dt_inv t \<and> ignoreRootDirs t = 0) (\<lambda>_. dt_inv) (forEach (set_option sys pname) opts ?s)"
    by (rule holds_forEach) (rule set_option_keeps)
  have start: "keeps dt_inv (andThen (reinitialize sys (-1) t)
      (\<lambda>fd s. main_loop sys pname ws reads fd (oprint ''%s> '' [S pname] s)))" if "dt_inv t" for t
    using that assms(1) by (intro holds_andThen [OF reinitialize_keeps] main_loop_keeps) simp_all
  have copy: "keeps dt_inv (copyRootDirPaths sys dirs t)" if "dt_inv t" "ignoreRootDirs t = 0" for t
    by (rule holds_weaken [OF copyRootDirPaths_spec [OF that]]) auto
  show ?thesis
    unfolding dtree_main_def Let_def
    by (rule holds_andThen [OF opts])
      (auto simp: usageError_def Let_def intro!: holds_andThen [OF copy] start)
qed

theorem dtree_main_invariant_witness:
  "keeps dt_inv (dtree_main calm_sys ''dtree'' [(CHR ''x'', [])] [''/r'']
     [Ready (Some ''z /r/a.'') (\<lambda>_. True)] [\<lambda>_. ReadEvents [create_a]]
     ((dt_with [])\<lparr>wlCache := [], rootDirPaths := []\<rparr>))"
  by (rule dtree_main_invariant [OF wd_nonneg_calm]) (simp_all add: dt_with_def)

text \<open>
  The list of monitored root directories built from the command line contains the
  arguments in order and no two names of the same directory; otherwise the program ends
  with a failure status.
\<close>

theorem copyRootDirPaths_distinct:
  assumes "dt_inv s" "ignoreRootDirs s = 0"
  shows "holds (\<lambda>_ t. rootDirPaths t = map Some ps \<and> length (rootDirStat t) = length ps \<and>
                  (\<forall>i j. i < j \<and> j < length ps \<longrightarrow> \<not> same_object (rootDirStat t ! i) (rootDirStat t ! j)))
               (\<lambda>h t. h = Exit EXIT_FAILURE) (copyRootDirPaths sys ps s)"
  by (rule holds_weaken [OF copyRootDirPaths_spec [OF assms]])
    (auto simp: roots_ok_def sorted_wrt_iff_nth_less)

theorem copyRootDirPaths_distinct_witness:
  "holds (\<lambda>_ t. rootDirPaths t = map Some [''/r'', ''/usr''] \<and> length (rootDirStat t) = length [''/r'', ''/usr''] \<and>
            (\<forall>i j. i < j \<and> j < length [''/r'', ''/usr''] \<longrightarrow> \<not> same_object (rootDirStat t ! i) (rootDirStat t ! j)))
     (\<lambda>h t. h = Exit EXIT_FAILURE) (copyRootDirPaths calm_sys [''/r'', ''/usr''] demo)"
  by (rule copyRootDirPaths_distinct [OF demo_inv]) (simp add: dt_with_def)

end
