(* ===== verification/Bpf.thy ===== *)
theory Bpf
  imports Tlpi_Prelude
begin

text \<open>
  The language of the filter arrays in the programs under \<^verbatim>\<open>seccomp/\<close>: classic BPF
  instructions as \<^verbatim>\<open>struct sock_filter\<close> records with the numeric opcodes of
  \<^verbatim>\<open>linux/filter.h\<close>, and the machine that runs them on a \<^verbatim>\<open>struct seccomp_data\<close>.
  The lemmas show that every program the kernel accepts reaches a return instruction.
\<close>

record sock_filter =
  f_code :: "16 word"
  f_jt :: "8 word"
  f_jf :: "8 word"
  f_k :: "32 word"

abbreviation (input) BPF_LD :: "16 word" where "BPF_LD \<equiv> 0x00"
abbreviation (input) BPF_JMP :: "16 word" where "BPF_JMP \<equiv> 0x05"
abbreviation (input) BPF_RET :: "16 word" where "BPF_RET \<equiv> 0x06"
abbreviation (input) BPF_W :: "16 word" where "BPF_W \<equiv> 0x00"
abbreviation (input) BPF_ABS :: "16 word" where "BPF_ABS \<equiv> 0x20"
abbreviation (input) BPF_JA :: "16 word" where "BPF_JA \<equiv> 0x00"
abbreviation (input) BPF_JEQ :: "16 word" where "BPF_JEQ \<equiv> 0x10"
abbreviation (input) BPF_JGT :: "16 word" where "BPF_JGT \<equiv> 0x20"
abbreviation (input) BPF_JGE :: "16 word" where "BPF_JGE \<equiv> 0x30"
abbreviation (input) BPF_JSET :: "16 word" where "BPF_JSET \<equiv> 0x40"
abbreviation (input) BPF_K :: "16 word" where "BPF_K \<equiv> 0x00"

definition BPF_STMT :: "16 word \<Rightarrow> 32 word \<Rightarrow> sock_filter" where
  "BPF_STMT code k = \<lparr>f_code = code, f_jt = 0, f_jf = 0, f_k = k\<rparr>"

definition BPF_JUMP :: "16 word \<Rightarrow> 32 word \<Rightarrow> 8 word \<Rightarrow> 8 word \<Rightarrow> sock_filter" where
  "BPF_JUMP code k jt jf = \<lparr>f_code = code, f_jt = jt, f_jf = jf, f_k = k\<rparr>"

record seccomp_data =
  sd_nr :: "32 word"
  sd_arch :: "32 word"
  sd_ip :: "64 word"
  sd_args :: "nat \<Rightarrow> 64 word"

text \<open>Offsets into \<^verbatim>\<open>struct seccomp_data\<close>; the 64-bit fields are little-endian.\<close>

abbreviation (input) off_nr :: "32 word" where "off_nr \<equiv> 0"
abbreviation (input) off_arch :: "32 word" where "off_arch \<equiv> 4"
abbreviation (input) off_args0 :: "32 word" where "off_args0 \<equiv> 16"
abbreviation (input) off_args1 :: "32 word" where "off_args1 \<equiv> 24"
abbreviation (input) off_args2 :: "32 word" where "off_args2 \<equiv> 32"

definition lo32 :: "64 word \<Rightarrow> 32 word" where "lo32 w = ucast w"
definition hi32 :: "64 word \<Rightarrow> 32 word" where "hi32 w = ucast (drop_bit 32 w)"

definition sd_load :: "seccomp_data \<Rightarrow> 32 word \<Rightarrow> 32 word option" where
  "sd_load d off =
     (let o' = unat off
      in if o' = 0 then Some (sd_nr d)
         else if o' = 4 then Some (sd_arch d)
         else if o' = 8 then Some (lo32 (sd_ip d))
         else if o' = 12 then Some (hi32 (sd_ip d))
         else if o' < 64 \<and> o' mod 4 = 0
         then Some (if o' mod 8 = 0 then lo32 (sd_args d ((o' - 16) div 8))
                    else hi32 (sd_args d ((o' - 16) div 8)))
         else None)"

text \<open>
  Running a program from the current instruction with accumulator \<open>a\<close>: the value
  returned, or \<open>None\<close> if execution runs off the end or meets an instruction that is not
  one of those above.
\<close>

function bpf_run :: "sock_filter list \<Rightarrow> seccomp_data \<Rightarrow> 32 word \<Rightarrow> 32 word option" where
  "bpf_run [] d a = None"
| "bpf_run (i # is) d a =
     (let goto = (\<lambda>n. bpf_run (drop n is) d a);
          branch = (\<lambda>b. goto (unat (if b then f_jt i else f_jf i)))
      in if f_code i = BPF_RET OR BPF_K then Some (f_k i)
         else if f_code i = BPF_LD OR BPF_W OR BPF_ABS
         then case sd_load d (f_k i) of None \<Rightarrow> None | Some v \<Rightarrow> bpf_run is d v
         else if f_code i = BPF_JMP OR BPF_JA then goto (unat (f_k i))
         else if f_code i = BPF_JMP OR BPF_JEQ OR BPF_K then branch (a = f_k i)
         else if f_code i = BPF_JMP OR BPF_JGT OR BPF_K then branch (a > f_k i)
         else if f_code i = BPF_JMP OR BPF_JGE OR BPF_K then branch (a \<ge> f_k i)
         else if f_code i = BPF_JMP OR BPF_JSET OR BPF_K then branch (a AND f_k i \<noteq> 0)
         else None)"
  by pat_completeness auto

termination
  by (relation "measure (\<lambda>(is, _, _). length is)") auto

lemma unat_lo32: "unat (lo32 w) = unat w mod 2 ^ 32"
  by (simp add: lo32_def unsigned_ucast_eq take_bit_eq_mod)

lemma unat_hi32: "unat (hi32 w) = unat w div 2 ^ 32"
proof -
  have "unat w div 2 ^ 32 < 2 ^ 32"
    using unsigned_less [where 'a = nat, of w] by (simp add: less_mult_imp_div_less)
  then show ?thesis
    by (simp add: hi32_def unsigned_ucast_eq take_bit_eq_mod drop_bit_eq_div unat_div)
qed

lemma hi32_eq_0: "hi32 w = 0 \<longleftrightarrow> w < 2 ^ 32"
proof -
  have "hi32 w = 0 \<longleftrightarrow> unat w < 2 ^ 32"
    by (simp add: word_unat_eq_iff unat_hi32 div_eq_0_iff)
  also have "\<dots> \<longleftrightarrow> w < 2 ^ 32" by (simp add: word_less_nat_alt)
  finally show ?thesis .
qed

lemma lo32_small: "w < 2 ^ 32 \<Longrightarrow> unat (lo32 w) = unat w"
  by (simp add: unat_lo32 word_less_nat_alt)

text \<open>
  What the kernel checks before it accepts a filter: known instructions, jumps that stay
  inside the program, loads at valid offsets, and a return instruction at the end.
\<close>

definition bpf_insn_ok :: "nat \<Rightarrow> sock_filter \<Rightarrow> bool" where
  "bpf_insn_ok n i \<longleftrightarrow>
     f_code i = BPF_RET OR BPF_K \<or>
     f_code i = BPF_LD OR BPF_W OR BPF_ABS \<and> unat (f_k i) < 64 \<and> unat (f_k i) mod 4 = 0 \<and> 0 < n \<or>
     f_code i = BPF_JMP OR BPF_JA \<and> unat (f_k i) < n \<or>
     f_code i \<in> {BPF_JMP OR BPF_JEQ OR BPF_K, BPF_JMP OR BPF_JGT OR BPF_K,
                 BPF_JMP OR BPF_JGE OR BPF_K, BPF_JMP OR BPF_JSET OR BPF_K} \<and>
       unat (f_jt i) < n \<and> unat (f_jf i) < n"

fun bpf_insns_ok :: "sock_filter list \<Rightarrow> bool" where
  "bpf_insns_ok [] = True"
| "bpf_insns_ok (i # is) = (bpf_insn_ok (length is) i \<and> bpf_insns_ok is)"

definition bpf_accepted :: "sock_filter list \<Rightarrow> bool" where
  "bpf_accepted is \<longleftrightarrow> is \<noteq> [] \<and> length is \<le> 4096 \<and> bpf_insns_ok is"

lemma bpf_insns_ok_drop: "bpf_insns_ok is \<Longrightarrow> bpf_insns_ok (drop n is)"
proof (induction "is" arbitrary: n)
  case (Cons i "is")
  then show ?case by (cases n) auto
qed simp

lemma sd_load_ok: "unat off < 64 \<Longrightarrow> unat off mod 4 = 0 \<Longrightarrow> \<exists>v. sd_load d off = Some v"
  by (auto simp: sd_load_def Let_def)

lemma bpf_run_returns:
  "bpf_insns_ok is \<Longrightarrow> is \<noteq> [] \<Longrightarrow> \<exists>v. bpf_run is d a = Some v"
proof (induction "is" d a rule: bpf_run.induct)
  case (2 i "is" d a)
  have ok: "bpf_insn_ok (length is) i" "bpf_insns_ok is" using "2.prems" by simp_all
  have go: "bpf_insns_ok (drop n is)" for n using ok(2) by (rule bpf_insns_ok_drop)
  show ?case
  proof (cases "f_code i = BPF_LD OR BPF_W OR BPF_ABS")
    case True
    with ok(1) have "unat (f_k i) < 64" "unat (f_k i) mod 4 = 0" "is \<noteq> []"
      by (auto simp: bpf_insn_ok_def)
    then obtain v where "sd_load d (f_k i) = Some v" using sd_load_ok [of "f_k i" d] by auto
    with True "2.IH"(2) ok(2) \<open>is \<noteq> []\<close> show ?thesis by simp
  next
    case False
    have jump: "\<exists>v. bpf_run (drop n is) d a = Some v" if "n < length is" for n
      using "2.IH"(1) [of n] go that by auto
    from False ok(1) jump jump [of 0] show ?thesis
      by (auto simp: bpf_insn_ok_def Let_def)
  qed
qed simp

end
