(* ===== verification/Seccomp.thy ===== *)
theory Seccomp
  imports Bpf C_Numbers
begin

text \<open>
  The programs under \<^verbatim>\<open>seccomp/\<close> that install a classic BPF filter.  Each filter array is
  transcribed instruction by instruction and proved equivalent to the policy its comments
  describe, for every system call, architecture and argument; the main programs run under
  their filter.
\<close>

section \<open>Filters\<close>

abbreviation (input) AUDIT_ARCH_X86_64 :: "32 word" where "AUDIT_ARCH_X86_64 \<equiv> 0xC000003E"
abbreviation (input) AUDIT_ARCH_I386 :: "32 word" where "AUDIT_ARCH_I386 \<equiv> 0x40000003"
abbreviation (input) X32_SYSCALL_BIT :: "32 word" where "X32_SYSCALL_BIT \<equiv> 0x40000000"

abbreviation (input) SECCOMP_RET_KILL_PROCESS :: "32 word" where "SECCOMP_RET_KILL_PROCESS \<equiv> 0x80000000"
abbreviation (input) SECCOMP_RET_KILL :: "32 word" where "SECCOMP_RET_KILL \<equiv> 0x00000000"
abbreviation (input) SECCOMP_RET_TRAP :: "32 word" where "SECCOMP_RET_TRAP \<equiv> 0x00030000"
abbreviation (input) SECCOMP_RET_ERRNO :: "32 word" where "SECCOMP_RET_ERRNO \<equiv> 0x00050000"
abbreviation (input) SECCOMP_RET_LOG :: "32 word" where "SECCOMP_RET_LOG \<equiv> 0x7ffc0000"
abbreviation (input) SECCOMP_RET_ALLOW :: "32 word" where "SECCOMP_RET_ALLOW \<equiv> 0x7fff0000"
abbreviation (input) SECCOMP_RET_DATA :: "32 word" where "SECCOMP_RET_DATA \<equiv> 0x0000ffff"

abbreviation (input) NR_open :: "32 word" where "NR_open \<equiv> 2"
abbreviation (input) NR_lseek :: "32 word" where "NR_lseek \<equiv> 8"
abbreviation (input) NR_geteuid :: "32 word" where "NR_geteuid \<equiv> 107"
abbreviation (input) NR_getppid :: "32 word" where "NR_getppid \<equiv> 110"
abbreviation (input) NR_openat :: "32 word" where "NR_openat \<equiv> 257"
abbreviation (input) NR_mq_notify_x86_64 :: "32 word" where "NR_mq_notify_x86_64 \<equiv> 244"
abbreviation (input) NR_mq_notify_i386 :: "32 word" where "NR_mq_notify_i386 \<equiv> 281"
abbreviation (input) NR_mq_notify_x32 :: "32 word" where "NR_mq_notify_x32 \<equiv> 527"

abbreviation (input) O_WRONLY :: "32 word" where "O_WRONLY \<equiv> 1"
abbreviation (input) O_RDWR :: "32 word" where "O_RDWR \<equiv> 2"
abbreviation (input) O_CREAT :: "32 word" where "O_CREAT \<equiv> 64"
abbreviation (input) ENOTSUP :: "32 word" where "ENOTSUP \<equiv> 95"

abbreviation (input) LD_ABS :: "16 word" where "LD_ABS \<equiv> BPF_LD OR BPF_W OR BPF_ABS"
abbreviation (input) JMP_JEQ :: "16 word" where "JMP_JEQ \<equiv> BPF_JMP OR BPF_JEQ OR BPF_K"
abbreviation (input) JMP_JGE :: "16 word" where "JMP_JGE \<equiv> BPF_JMP OR BPF_JGE OR BPF_K"
abbreviation (input) JMP_JGT :: "16 word" where "JMP_JGT \<equiv> BPF_JMP OR BPF_JGT OR BPF_K"
abbreviation (input) JMP_JSET :: "16 word" where "JMP_JSET \<equiv> BPF_JMP OR BPF_JSET OR BPF_K"
abbreviation (input) JMP_JA :: "16 word" where "JMP_JA \<equiv> BPF_JMP OR BPF_JA"
abbreviation (input) RET_K :: "16 word" where "RET_K \<equiv> BPF_RET OR BPF_K"

definition control_open_filter :: "sock_filter list" where
  "control_open_filter =
     [BPF_STMT LD_ABS off_arch,
      BPF_JUMP JMP_JEQ AUDIT_ARCH_X86_64 0 2,
      BPF_STMT LD_ABS off_nr,
      BPF_JUMP JMP_JGE X32_SYSCALL_BIT 0 1,
      BPF_STMT RET_K SECCOMP_RET_KILL_PROCESS,
      BPF_JUMP JMP_JEQ NR_open 2 0,
      BPF_JUMP JMP_JEQ NR_openat 3 0,
      BPF_STMT RET_K SECCOMP_RET_ALLOW,
      BPF_STMT LD_ABS off_args1,
      BPF_JUMP JMP_JA 1 0 0,
      BPF_STMT LD_ABS off_args2,
      BPF_JUMP JMP_JSET O_CREAT 0 1,
      BPF_STMT RET_K SECCOMP_RET_KILL_PROCESS,
      BPF_JUMP JMP_JSET (O_WRONLY OR O_RDWR) 0 1,
      BPF_STMT RET_K (SECCOMP_RET_ERRNO OR (ENOTSUP AND SECCOMP_RET_DATA)),
      BPF_STMT RET_K SECCOMP_RET_ALLOW]"

definition arg64_filter :: "sock_filter list" where
  "arg64_filter =
     [BPF_STMT LD_ABS off_arch,
      BPF_JUMP JMP_JEQ AUDIT_ARCH_X86_64 0 2,
      BPF_STMT LD_ABS off_nr,
      BPF_JUMP JMP_JGE X32_SYSCALL_BIT 0 1,
      BPF_STMT RET_K SECCOMP_RET_KILL_PROCESS,
      BPF_JUMP JMP_JEQ NR_lseek 1 0,
      BPF_STMT RET_K SECCOMP_RET_ALLOW,
      BPF_STMT LD_ABS (off_args1 + 4),
      BPF_JUMP JMP_JEQ 0 1 0,
      BPF_STMT RET_K (SECCOMP_RET_ERRNO OR 2),
      BPF_STMT LD_ABS off_args1,
      BPF_JUMP JMP_JGT 1000 0 1,
      BPF_STMT RET_K (SECCOMP_RET_ERRNO OR 1),
      BPF_STMT RET_K SECCOMP_RET_ALLOW]"

definition deny_open_filter :: "sock_filter list" where
  "deny_open_filter =
     [BPF_STMT LD_ABS off_arch,
      BPF_JUMP JMP_JEQ AUDIT_ARCH_X86_64 1 0,
      BPF_STMT RET_K SECCOMP_RET_KILL_PROCESS,
      BPF_STMT LD_ABS off_nr,
      BPF_JUMP JMP_JGE X32_SYSCALL_BIT 0 1,
      BPF_STMT RET_K SECCOMP_RET_KILL_PROCESS,
      BPF_JUMP JMP_JEQ NR_open 2 0,
      BPF_JUMP JMP_JEQ NR_openat 1 0,
      BPF_STMT RET_K SECCOMP_RET_ALLOW,
      BPF_STMT RET_K SECCOMP_RET_KILL_PROCESS]"

definition multiarch_filter :: "sock_filter list" where
  "multiarch_filter =
     [BPF_STMT LD_ABS off_arch,
      BPF_JUMP JMP_JEQ AUDIT_ARCH_X86_64 2 0,
      BPF_JUMP JMP_JEQ AUDIT_ARCH_I386 1 0,
      BPF_STMT RET_K SECCOMP_RET_KILL_PROCESS,
      BPF_STMT LD_ABS off_nr,
      BPF_JUMP JMP_JEQ NR_mq_notify_x86_64 0 1,
      BPF_STMT RET_K (SECCOMP_RET_ERRNO OR NR_mq_notify_x86_64),
      BPF_JUMP JMP_JEQ NR_mq_notify_i386 0 1,
      BPF_STMT RET_K (SECCOMP_RET_ERRNO OR NR_mq_notify_i386),
      BPF_JUMP JMP_JEQ (NR_mq_notify_x32 + X32_SYSCALL_BIT) 0 1,
      BPF_STMT RET_K (SECCOMP_RET_ERRNO OR NR_mq_notify_x32),
      BPF_STMT RET_K SECCOMP_RET_ALLOW]"

definition logging_filter :: "sock_filter list" where
  "logging_filter =
     [BPF_STMT LD_ABS off_arch,
      BPF_JUMP JMP_JEQ AUDIT_ARCH_X86_64 0 2,
      BPF_STMT LD_ABS off_nr,
      BPF_JUMP JMP_JGE X32_SYSCALL_BIT 0 1,
      BPF_STMT RET_K SECCOMP_RET_KILL_PROCESS,
      BPF_STMT RET_K SECCOMP_RET_LOG]"

definition trap_filter :: "sock_filter list" where
  "trap_filter =
     [BPF_STMT LD_ABS off_arch,
      BPF_JUMP JMP_JEQ AUDIT_ARCH_X86_64 1 0,
      BPF_STMT RET_K SECCOMP_RET_KILL,
      BPF_STMT LD_ABS off_nr,
      BPF_JUMP JMP_JEQ NR_getppid 0 1,
      BPF_STMT RET_K SECCOMP_RET_TRAP,
      BPF_STMT RET_K SECCOMP_RET_ALLOW]"

definition perf_filter :: "sock_filter list" where
  "perf_filter =
     [BPF_STMT LD_ABS off_arch,
      BPF_JUMP JMP_JEQ AUDIT_ARCH_X86_64 0 2,
      BPF_STMT LD_ABS off_nr,
      BPF_JUMP JMP_JGE X32_SYSCALL_BIT 0 1,
      BPF_STMT RET_K SECCOMP_RET_KILL_PROCESS,
      BPF_JUMP JMP_JEQ NR_open 1 0,
      BPF_STMT RET_K SECCOMP_RET_ALLOW,
      BPF_STMT RET_K SECCOMP_RET_KILL_PROCESS]"

section \<open>The policies\<close>

text \<open>A system call made by x86-64 code.\<close>

definition native_call :: "seccomp_data \<Rightarrow> bool" where
  "native_call d \<longleftrightarrow> sd_arch d = AUDIT_ARCH_X86_64 \<and> sd_nr d < X32_SYSCALL_BIT"

definition open_flags :: "seccomp_data \<Rightarrow> 32 word option" where
  "open_flags d =
     (if sd_nr d = NR_open then Some (lo32 (sd_args d 1))
      else if sd_nr d = NR_openat then Some (lo32 (sd_args d 2)) else None)"

lemmas filter_eval = BPF_STMT_def BPF_JUMP_def sd_load_def Let_def

lemma sd_load_simps [simp]:
  "sd_load d off_nr = Some (sd_nr d)" "sd_load d off_arch = Some (sd_arch d)"
  "sd_load d off_args1 = Some (lo32 (sd_args d 1))" "sd_load d off_args2 = Some (lo32 (sd_args d 2))"
  "sd_load d 28 = Some (hi32 (sd_args d 1))"
  by (simp_all add: sd_load_def Let_def)

lemma control_open_eval:
  "bpf_run control_open_filter d a = Some
     (if \<not> native_call d then SECCOMP_RET_KILL_PROCESS
      else case open_flags d of
             None \<Rightarrow> SECCOMP_RET_ALLOW
           | Some fl \<Rightarrow> if fl AND O_CREAT \<noteq> 0 then SECCOMP_RET_KILL_PROCESS
                        else if fl AND O_WRONLY \<noteq> 0 \<or> fl AND O_RDWR \<noteq> 0 then SECCOMP_RET_ERRNO OR ENOTSUP
                        else SECCOMP_RET_ALLOW)"
proof -
  have two: "fl AND 3 = 0 \<longleftrightarrow> fl AND 1 = 0 \<and> fl AND 2 = 0" for fl :: "32 word"
  proof -
    have "fl AND 3 = (fl AND 1) OR (fl AND 2)"
      using bit.conj_disj_distrib [of fl 1 2] by simp
    then show ?thesis by (simp add: or_eq_0_iff)
  qed
  show ?thesis
    unfolding control_open_filter_def native_call_def open_flags_def
    by (cases "sd_nr d = NR_open"; cases "sd_nr d = NR_openat"; cases "sd_nr d < X32_SYSCALL_BIT")
      (simp_all add: BPF_STMT_def BPF_JUMP_def Let_def not_less [symmetric] two)
qed

text \<open>
  C7: the filter of \<^verbatim>\<open>seccomp_control_open.c\<close> is accepted by the kernel and implements its policy:
  code of another architecture and x32 calls are killed; calls other than \<^verbatim>\<open>open()\<close> and
  \<^verbatim>\<open>openat()\<close> are allowed; opening with \<^verbatim>\<open>O_CREAT\<close> is killed, opening for writing fails with
  \<^verbatim>\<open>ENOTSUP\<close>, and opening for reading is allowed.
\<close>

theorem control_open_policy:
  "bpf_accepted control_open_filter \<and>
   bpf_run control_open_filter d a = Some
     (if \<not> native_call d then SECCOMP_RET_KILL_PROCESS
      else case open_flags d of
             None \<Rightarrow> SECCOMP_RET_ALLOW
           | Some fl \<Rightarrow> if fl AND O_CREAT \<noteq> 0 then SECCOMP_RET_KILL_PROCESS
                        else if fl AND O_WRONLY = 0 \<and> fl AND O_RDWR = 0 then SECCOMP_RET_ALLOW
                        else SECCOMP_RET_ERRNO OR ENOTSUP)"
  by (simp only: control_open_eval) (auto simp: control_open_filter_def bpf_accepted_def bpf_insn_ok_def BPF_STMT_def BPF_JUMP_def split: option.split)

lemma arg64_eval:
  "bpf_run arg64_filter d a = Some
     (if \<not> native_call d then SECCOMP_RET_KILL_PROCESS
      else if sd_nr d \<noteq> NR_lseek \<or> sd_args d 1 \<le> 1000 then SECCOMP_RET_ALLOW
      else if sd_args d 1 \<ge> 2 ^ 32 then SECCOMP_RET_ERRNO OR 2
      else SECCOMP_RET_ERRNO OR 1)"
proof -
  let ?w = "sd_args d 1"
  have big: "?w < 2 ^ 32 \<Longrightarrow> 1000 < lo32 ?w \<longleftrightarrow> 1000 < ?w"
    using lo32_small [of ?w] by (simp add: word_less_nat_alt word_le_nat_alt)
  have small: "\<not> ?w < 2 ^ 32 \<Longrightarrow> 1000 < ?w"
    by (simp add: word_less_nat_alt)
  show ?thesis
    unfolding arg64_filter_def native_call_def
    by (cases "sd_nr d = NR_lseek"; cases "sd_nr d < X32_SYSCALL_BIT"; cases "?w < 2 ^ 32")
      (use big small in \<open>simp_all add: BPF_STMT_def BPF_JUMP_def Let_def not_less [symmetric] hi32_eq_0\<close>)
qed

text \<open>
  The filter of \<^verbatim>\<open>seccomp_arg64.c\<close> decides on the full 64-bit \<^verbatim>\<open>offset\<close> of \<^verbatim>\<open>lseek()\<close> although it
  can only load 32 bits at a time: offsets above 1000 fail, with error 2 if they need more
  than 32 bits (negative offsets included) and 1 otherwise; every other native call is allowed.
\<close>

theorem arg64_policy:
  "bpf_accepted arg64_filter \<and>
   bpf_run arg64_filter d a = Some
     (if \<not> native_call d then SECCOMP_RET_KILL_PROCESS
      else if sd_nr d = NR_lseek \<and> 1000 < sd_args d 1
        then if sd_args d 1 \<ge> 2 ^ 32 then SECCOMP_RET_ERRNO OR 2 else SECCOMP_RET_ERRNO OR 1
      else SECCOMP_RET_ALLOW)"
  by (simp only: arg64_eval) (auto simp: not_le arg64_filter_def bpf_accepted_def bpf_insn_ok_def BPF_STMT_def BPF_JUMP_def)

lemma deny_open_eval:
  "bpf_run deny_open_filter d a = Some
     (if native_call d \<and> sd_nr d \<notin> {NR_open, NR_openat} then SECCOMP_RET_ALLOW else SECCOMP_RET_KILL_PROCESS)"
  unfolding deny_open_filter_def native_call_def
  by (cases "sd_nr d = NR_open"; cases "sd_nr d = NR_openat"; cases "sd_nr d < X32_SYSCALL_BIT")
    (simp_all add: BPF_STMT_def BPF_JUMP_def Let_def not_less [symmetric])

lemma perf_eval:
  "bpf_run perf_filter d a = Some
     (if native_call d \<and> sd_nr d \<noteq> NR_open then SECCOMP_RET_ALLOW else SECCOMP_RET_KILL_PROCESS)"
  unfolding perf_filter_def native_call_def
  by (cases "sd_nr d = NR_open"; cases "sd_nr d < X32_SYSCALL_BIT")
    (simp_all add: BPF_STMT_def BPF_JUMP_def Let_def not_less [symmetric])

lemma logging_eval:
  "bpf_run logging_filter d a = Some (if native_call d then SECCOMP_RET_LOG else SECCOMP_RET_KILL_PROCESS)"
  unfolding logging_filter_def native_call_def
  by (cases "sd_nr d < X32_SYSCALL_BIT") (simp_all add: BPF_STMT_def BPF_JUMP_def Let_def not_less [symmetric])

lemma trap_eval:
  "bpf_run trap_filter d a = Some
     (if sd_arch d \<noteq> AUDIT_ARCH_X86_64 then SECCOMP_RET_KILL
      else if sd_nr d = NR_getppid then SECCOMP_RET_TRAP else SECCOMP_RET_ALLOW)"
  unfolding trap_filter_def by (simp add: BPF_STMT_def BPF_JUMP_def Let_def)

lemma filters_accepted:
  "bpf_accepted deny_open_filter" "bpf_accepted perf_filter" "bpf_accepted logging_filter"
  "bpf_accepted trap_filter" "bpf_accepted multiarch_filter"
  by (simp_all add: deny_open_filter_def perf_filter_def logging_filter_def trap_filter_def
      multiarch_filter_def bpf_accepted_def bpf_insn_ok_def BPF_STMT_def BPF_JUMP_def)

text \<open>
  What the filter of \<^verbatim>\<open>seccomp_multiarch.c\<close> does.  Architectures other than x86-64 and i386
  are killed.  The comments speak of a different error for the \<^verbatim>\<open>mq_notify()\<close> number of each
  architecture; the filter does not check that the number belongs to the architecture of the
  call, so the i386 number fails on x86-64 as well (where 281 is \<^verbatim>\<open>epoll_pwait()\<close>), and the x86-64
  number fails on i386.
\<close>

theorem multiarch_policy:
  "bpf_accepted multiarch_filter \<and>
   bpf_run multiarch_filter d a = Some
     (if sd_arch d \<notin> {AUDIT_ARCH_X86_64, AUDIT_ARCH_I386} then SECCOMP_RET_KILL_PROCESS
      else if sd_nr d = NR_mq_notify_x86_64 then SECCOMP_RET_ERRNO OR 244
      else if sd_nr d = NR_mq_notify_i386 then SECCOMP_RET_ERRNO OR 281
      else if sd_nr d = NR_mq_notify_x32 OR X32_SYSCALL_BIT then SECCOMP_RET_ERRNO OR 527
      else SECCOMP_RET_ALLOW)"
  by (simp add: filters_accepted) (simp add: multiarch_filter_def BPF_STMT_def BPF_JUMP_def Let_def)

section \<open>Running under a filter\<close>

text \<open>
  A process: its installed filters, whether it may install one, whether a handler for
  \<^verbatim>\<open>SIGSYS\<close> is established, \<^verbatim>\<open>errno\<close>, its output, and the state of the kernel.  The kernel is a parameter:
  the architecture and instruction pointers of the calls, what a system call answers once
  it is let through (an error number or a result), and whether the C library's \<^verbatim>\<open>open()\<close> uses
  \<^verbatim>\<open>openat()\<close>.
\<close>

record 'k proc =
  p_filters :: "sock_filter list list"
  p_no_new_privs :: bool
  p_sigsys :: bool
  p_errno :: int
  p_out :: "logrec list"
  p_kern :: 'k

record 'k kernel =
  k_arch :: "32 word"
  k_ip :: "'k \<Rightarrow> 64 word"
  k_call :: "32 word \<Rightarrow> 64 word list \<Rightarrow> 'k \<Rightarrow> (int + 64 word) \<times> 'k"
  k_open_is_openat :: bool

definition say :: "string \<Rightarrow> farg list \<Rightarrow> 'k proc \<Rightarrow> 'k proc" where
  "say fmt args s = s\<lparr>p_out := p_out s @ [(fmt, args)]\<rparr>"

definition fail_exit :: "string \<Rightarrow> int \<Rightarrow> 'k proc \<Rightarrow> ('k proc, 'a) run" where
  "fail_exit msg err s = Halt (Exit EXIT_FAILURE) (say ''%s: %s'' [S msg, StrError err] s)"

definition call_data :: "'k kernel \<Rightarrow> 32 word \<Rightarrow> 64 word list \<Rightarrow> 'k proc \<Rightarrow> seccomp_data" where
  "call_data K nr args s =
     \<lparr>sd_nr = nr, sd_arch = k_arch K, sd_ip = k_ip K (p_kern s),
      sd_args = \<lambda>i. if i < length args then args ! i else 0\<rparr>"

abbreviation (input) ret_action :: "32 word \<Rightarrow> 32 word" where "ret_action r \<equiv> r AND 0xffff0000"
abbreviation (input) ret_data :: "32 word \<Rightarrow> 32 word" where "ret_data r \<equiv> r AND SECCOMP_RET_DATA"

text \<open>All filters run; the action of highest precedence (least as a signed number) wins.\<close>

fun verdict :: "sock_filter list list \<Rightarrow> seccomp_data \<Rightarrow> 32 word" where
  "verdict [] d = SECCOMP_RET_ALLOW"
| "verdict (f # fs) d =
     (let v = verdict fs d;
          r = (case bpf_run f d 0 of Some r \<Rightarrow> r | None \<Rightarrow> SECCOMP_RET_KILL_PROCESS)
      in if sint (ret_action r) < sint (ret_action v) then r else v)"

abbreviation (input) SIGSYS :: nat where "SIGSYS \<equiv> 31"
abbreviation (input) ENOSYS :: int where "ENOSYS \<equiv> 38"

text \<open>
  A system call under the filters.  A trapped call runs the handler, if there is one, and
  then continues behind the call, whose result is whatever the register held (\<^verbatim>\<open>ENOSYS\<close>).
\<close>

fun note_errno :: "int + 64 word \<Rightarrow> 'k proc \<Rightarrow> 'k proc" where
  "note_errno (Inl err) s = s\<lparr>p_errno := err\<rparr>"
| "note_errno (Inr _) s = s"

definition filtered_call ::
  "'k kernel \<Rightarrow> ('k proc \<Rightarrow> 'k proc) \<Rightarrow> 32 word \<Rightarrow> 64 word list \<Rightarrow> 'k proc \<Rightarrow> ('k proc, int + 64 word) run" where
  "filtered_call K handler nr args s =
     (let r = verdict (p_filters s) (call_data K nr args s);
          act = ret_action r
      in if act = SECCOMP_RET_ALLOW \<or> act = SECCOMP_RET_LOG then
           (case k_call K nr args (p_kern s) of (ret, k) \<Rightarrow> Done ret (note_errno ret (s\<lparr>p_kern := k\<rparr>)))
         else if act = SECCOMP_RET_ERRNO then
           (let ret = Inl (uint (ret_data r)) in Done ret (note_errno ret s))
         else if act = SECCOMP_RET_TRAP then
           (if p_sigsys s then Done (Inl ENOSYS) (note_errno (Inl ENOSYS) (handler s))
            else Halt (Killed SIGSYS) s)
         else Halt (Killed SIGSYS) s)"

text \<open>
  \<^verbatim>\<open>prctl(PR_SET_NO_NEW_PRIVS, 1, ...)\<close> and \<^verbatim>\<open>seccomp(SECCOMP_SET_MODE_FILTER, 0, &prog)\<close>, made before a
  filter is installed: each may fail with an error number; the kernel refuses programs it
  does not accept.
\<close>

abbreviation (input) NR_prctl :: "32 word" where "NR_prctl \<equiv> 157"
abbreviation (input) NR_seccomp :: "32 word" where "NR_seccomp \<equiv> 317"
abbreviation (input) EINVAL :: int where "EINVAL \<equiv> 22"

definition set_no_new_privs :: "'k kernel \<Rightarrow> 'k proc \<Rightarrow> ('k proc, unit) run" where
  "set_no_new_privs K s =
     (case k_call K NR_prctl [38, 1, 0, 0, 0] (p_kern s) of
        (Inl err, k) \<Rightarrow> fail_exit ''prctl'' err (s\<lparr>p_kern := k\<rparr>)
      | (Inr _, k) \<Rightarrow> Done () (s\<lparr>p_kern := k, p_no_new_privs := True\<rparr>))"

definition install_filter :: "'k kernel \<Rightarrow> sock_filter list \<Rightarrow> 'k proc \<Rightarrow> ('k proc, unit) run" where
  "install_filter K prog s =
     (case k_call K NR_seccomp [1, 0] (p_kern s) of
        (Inl err, k) \<Rightarrow> fail_exit ''seccomp'' err (s\<lparr>p_kern := k\<rparr>)
      | (Inr _, k) \<Rightarrow>
          if bpf_accepted prog then Done () (s\<lparr>p_kern := k, p_filters := prog # p_filters s\<rparr>)
          else fail_exit ''seccomp'' EINVAL (s\<lparr>p_kern := k\<rparr>))"

abbreviation (input) AT_FDCWD :: "64 word" where "AT_FDCWD \<equiv> - 100"

definition libc_open ::
  "'k kernel \<Rightarrow> 64 word \<Rightarrow> 32 word \<Rightarrow> 64 word \<Rightarrow> 'k proc \<Rightarrow> ('k proc, int + 64 word) run" where
  "libc_open K path flags mode s =
     (if k_open_is_openat K then filtered_call K id NR_openat [AT_FDCWD, path, ucast flags, mode] s
      else filtered_call K id NR_open [path, ucast flags, mode] s)"

abbreviation (input) O_RDONLY :: "32 word" where "O_RDONLY \<equiv> 0"

definition open_or_perror ::
  "'k kernel \<Rightarrow> string \<Rightarrow> 64 word \<Rightarrow> 32 word \<Rightarrow> 64 word \<Rightarrow> 'k proc \<Rightarrow> ('k proc, unit) run" where
  "open_or_perror K msg path flags mode s =
     andThen (libc_open K path flags mode s) (\<lambda>r s.
       Done () (case r of Inl err \<Rightarrow> say ''%s: %s'' [S msg, StrError err] s | Inr _ \<Rightarrow> s))"

text \<open>\<^verbatim>\<open>main()\<close> of \<^verbatim>\<open>seccomp_control_open.c\<close>; \<open>path\<close> is the address of the string \<^verbatim>\<open>"/tmp/a"\<close>.\<close>

definition control_open_main :: "'k kernel \<Rightarrow> 64 word \<Rightarrow> 'k proc \<Rightarrow> ('k proc, unit) run" where
  "control_open_main K path s =
     andThen (set_no_new_privs K s) (\<lambda>_ s.
     andThen (install_filter K control_open_filter s) (\<lambda>_ s.
     andThen (open_or_perror K ''open1'' path O_RDONLY 0 s) (\<lambda>_ s.
     andThen (open_or_perror K ''open2'' path O_WRONLY 0 s) (\<lambda>_ s.
     andThen (open_or_perror K ''open3'' path O_RDWR 0 s) (\<lambda>_ s.
     andThen (open_or_perror K ''open4'' path (O_CREAT OR O_RDWR) 0x180 s) (\<lambda>_ s.
       Halt (Exit EXIT_SUCCESS) s))))))"

definition seek_test :: "'k kernel \<Rightarrow> 64 word \<Rightarrow> 64 word \<Rightarrow> 'k proc \<Rightarrow> ('k proc, unit) run" where
  "seek_test K fd offset s =
     andThen (filtered_call K id NR_lseek [fd, offset, 0] (say ''Seek to byte %lld: '' [I (sint offset)] s))
       (\<lambda>ret s. Done () (case ret of
            Inr r \<Rightarrow> if r = 0 then say ''succeeded'' [] s
                      else say ''failed with errno = %d'' [I (p_errno s)] s
          | Inl _ \<Rightarrow> say ''failed with errno = %d'' [I (p_errno s)] s))"

definition arg64_main :: "'k kernel \<Rightarrow> 64 word \<Rightarrow> 'k proc \<Rightarrow> ('k proc, unit) run" where
  "arg64_main K path s =
     andThen (set_no_new_privs K s) (\<lambda>_ s.
     andThen (install_filter K arg64_filter s) (\<lambda>_ s.
     andThen (libc_open K path O_RDWR 0 s) (\<lambda>r s.
       case r of
         Inl err \<Rightarrow> fail_exit ''open'' err s
       | Inr fd \<Rightarrow>
           andThen (seek_test K fd 0 s) (\<lambda>_ s.
           andThen (seek_test K fd 10000 s) (\<lambda>_ s.
           andThen (seek_test K fd 0x100000001 s) (\<lambda>_ s.
             Halt (Exit EXIT_SUCCESS) s))))))"

definition deny_open_main :: "'k kernel \<Rightarrow> 64 word \<Rightarrow> 'k proc \<Rightarrow> ('k proc, unit) run" where
  "deny_open_main K path s =
     andThen (set_no_new_privs K s) (\<lambda>_ s.
     andThen (install_filter K deny_open_filter s) (\<lambda>_ s.
     andThen (libc_open K path O_RDONLY 0 s) (\<lambda>r s.
       case r of
         Inl err \<Rightarrow> fail_exit ''open'' err s
       | Inr _ \<Rightarrow> Halt (Exit EXIT_SUCCESS)
                    (say (''We shouldn'' @ [CHR 0x27] @ ''t see this message'') [] s))))"

definition logging_main :: "'k kernel \<Rightarrow> 'k proc \<Rightarrow> ('k proc, unit) run" where
  "logging_main K s =
     andThen (set_no_new_privs K s) (\<lambda>_ s.
     andThen (install_filter K logging_filter s) (\<lambda>_ s.
     andThen (filtered_call K id NR_geteuid [] s) (\<lambda>_ s.
     andThen (filtered_call K id NR_getppid [] s) (\<lambda>_ s.
       Halt (Exit EXIT_SUCCESS) s))))"

text \<open>The handler \<^verbatim>\<open>sigHandler()\<close> and \<^verbatim>\<open>main()\<close> of \<^verbatim>\<open>seccomp_trap_sigsys.c\<close>.\<close>

definition sigHandler :: "'k proc \<Rightarrow> 'k proc" where
  "sigHandler s = say ''SIGSYS!'' [] s"

definition trap_main :: "'k kernel \<Rightarrow> 'k proc \<Rightarrow> ('k proc, unit) run" where
  "trap_main K s =
     andThen (set_no_new_privs K s) (\<lambda>_ s.
     andThen (install_filter K trap_filter s) (\<lambda>_ s.
     andThen (filtered_call K id 13 [31] s) (\<lambda>r s.
       case r of
         Inl err \<Rightarrow> fail_exit ''sigaction'' err s
       | Inr _ \<Rightarrow>
           (let s = say ''About to call getppid()'' [] (s\<lparr>p_sigsys := True\<rparr>)
            in andThen (filtered_call K sigHandler NR_getppid [] s) (\<lambda>_ s.
                 Halt (Exit EXIT_SUCCESS) (say ''Bye'' [] s))))))"

fun getppid_loop :: "'k kernel \<Rightarrow> nat \<Rightarrow> 'k proc \<Rightarrow> ('k proc, unit) run" where
  "getppid_loop K 0 s = Done () s"
| "getppid_loop K (Suc n) s = andThen (filtered_call K id NR_getppid [] s) (\<lambda>_. getppid_loop K n)"

text \<open>\<^verbatim>\<open>main()\<close> of \<^verbatim>\<open>seccomp_perf.c\<close>, on the argument vector.\<close>

definition perf_main :: "'k kernel \<Rightarrow> string list \<Rightarrow> 'k proc \<Rightarrow> ('k proc, unit) run" where
  "perf_main K argv s =
     (if length argv < 2 then
        Halt (Exit EXIT_FAILURE)
          (say (''       (use '' @ [CHR 0x27] @ ''x'' @ [CHR 0x27] @ '' to run with BPF filter applied)'') []
             (say ''Usage: %s <num-loops> [x]'' [S (argv ! 0)] s))
      else
        andThen
          (if length argv > 2 then
             andThen (set_no_new_privs K (say ''Appling BPF filter'' [] s)) (\<lambda>_ s. install_filter K perf_filter s)
           else Done () s)
          (\<lambda>_ s. andThen (getppid_loop K (nat (atoi (argv ! 1))) s) (\<lambda>_ s. Halt (Exit EXIT_SUCCESS) s)))"

text \<open>
  \<^verbatim>\<open>seccomp_multiarch.c\<close> is built for several ABIs; a run of one binary executes the binaries
  named by its arguments in turn, in the same process and under the same filter.  The two
  \<^verbatim>\<open>system()\<close> calls, which only print information about the process, are left out.
\<close>

datatype abi = X86_64 | I386 | X32

fun abi_arch :: "abi \<Rightarrow> 32 word" where
  "abi_arch X86_64 = AUDIT_ARCH_X86_64"
| "abi_arch I386 = AUDIT_ARCH_I386"
| "abi_arch X32 = AUDIT_ARCH_X86_64"

fun nr_mq_notify :: "abi \<Rightarrow> 32 word" where
  "nr_mq_notify X86_64 = NR_mq_notify_x86_64"
| "nr_mq_notify I386 = NR_mq_notify_i386"
| "nr_mq_notify X32 = NR_mq_notify_x32 + X32_SYSCALL_BIT"

fun nr_execve :: "abi \<Rightarrow> 32 word" where
  "nr_execve X86_64 = 59"
| "nr_execve I386 = 11"
| "nr_execve X32 = 520 + X32_SYSCALL_BIT"

abbreviation (input) EBADF :: int where "EBADF \<equiv> 9"

text \<open>\<open>env\<close> tells whether \<^verbatim>\<open>NO_SECCOMP_FILTER\<close> is in the environment; \<open>next\<close> are the arguments.\<close>

fun multiarch_main :: "'k kernel \<Rightarrow> abi \<Rightarrow> abi list \<Rightarrow> bool \<Rightarrow> 'k proc \<Rightarrow> ('k proc, unit) run" where
  "multiarch_main K abi next env s =
     (let K = K\<lparr>k_arch := abi_arch abi\<rparr>
      in andThen
           (if \<not> env then
              andThen (set_no_new_privs K s) (\<lambda>_ s.
                install_filter K multiarch_filter (say ''Initial execution; installing seccomp filter'' [] s))
            else Done () s) (\<lambda>_ s.
         let s = say ''argv[0] = %s; PID = %ld'' [Ptr, Ptr] s
         in andThen (filtered_call K id (nr_mq_notify abi) [0, 0] s) (\<lambda>r s.
           if (case r of Inl err \<Rightarrow> err \<noteq> EBADF | Inr _ \<Rightarrow> False) then
             let s = say ''mq_notify() failed with errno = %d'' [I (p_errno s)] s
             in case next of
                  [] \<Rightarrow> Halt (Exit EXIT_SUCCESS) s
                | abi' # next' \<Rightarrow>
                    andThen (filtered_call K id (nr_execve abi) [] (say ''About to exec: %s'' [Ptr] s)) (\<lambda>r s.
                      case r of
                        Inl err \<Rightarrow> fail_exit ''execvp'' err s
                      | Inr _ \<Rightarrow> multiarch_main K abi' next' True s)
           else
             let s = say ''mq_notify() was not failed by seccomp() filter!'' [] s;
                 s = say ''*** Make sure that the %s environment variable is not set'' [S ''NO_SECCOMP_FILTER''] s;
                 s = say ''    when running this program.'' [] s;
                 s = say ''*** Otherwise, check the syscall numbers in kernel headers'' [] s;
                 s = say ''    to see that they are correct'' [] s
             in Halt (Exit EXIT_FAILURE) s)))"

declare multiarch_main.simps [simp del]

section \<open>What the programs do under their filters\<close>

lemma say_simps [simp]:
  "p_filters (say f a s) = p_filters s" "p_kern (say f a s) = p_kern s" "p_errno (say f a s) = p_errno s"
  "p_sigsys (say f a s) = p_sigsys s" "p_out (say f a s) = p_out s @ [(f, a)]"
  by (simp_all add: say_def)

lemma note_errno_simps [simp]:
  "p_filters (note_errno r s) = p_filters s" "p_kern (note_errno r s) = p_kern s"
  "p_out (note_errno r s) = p_out s" "p_sigsys (note_errno r s) = p_sigsys s"
  by (cases r; simp)+

text \<open>A kernel that lets a process install a filter.\<close>

definition installs :: "'k kernel \<Rightarrow> bool" where
  "installs K \<longleftrightarrow> (\<forall>k. \<exists>v k'. k_call K NR_prctl [38, 1, 0, 0, 0] k = (Inr v, k')) \<and>
                  (\<forall>k. \<exists>v k'. k_call K NR_seccomp [1, 0] k = (Inr v, k'))"

lemma installed:
  assumes "installs K" "bpf_accepted f"
  obtains k k' where "set_no_new_privs K s = Done () (s\<lparr>p_kern := k, p_no_new_privs := True\<rparr>)"
    "install_filter K f (s\<lparr>p_kern := k, p_no_new_privs := True\<rparr>) =
       Done () (s\<lparr>p_kern := k', p_no_new_privs := True, p_filters := f # p_filters s\<rparr>)"
proof -
  obtain v k where k: "k_call K NR_prctl [38, 1, 0, 0, 0] (p_kern s) = (Inr v, k)"
    using assms(1) unfolding installs_def by blast
  obtain v' k' where k': "k_call K NR_seccomp [1, 0] k = (Inr v', k')"
    using assms(1) unfolding installs_def by blast
  show ?thesis
  proof (rule that [of k k'])
    show "set_no_new_privs K s = Done () (s\<lparr>p_kern := k, p_no_new_privs := True\<rparr>)"
      using k by (simp add: set_no_new_privs_def)
    show "install_filter K f (s\<lparr>p_kern := k, p_no_new_privs := True\<rparr>) =
        Done () (s\<lparr>p_kern := k', p_no_new_privs := True, p_filters := f # p_filters s\<rparr>)"
      using k' assms(2) by (simp add: install_filter_def)
  qed
qed

lemma verdict_single: "bpf_run f d 0 = Some r \<Longrightarrow>
    verdict [f] d = (if sint (ret_action r) < 0x7fff0000 then r else SECCOMP_RET_ALLOW)"
  by simp

lemma filtered_call_one:
  assumes "p_filters s = [f]" "bpf_run f (call_data K nr args s) 0 = Some r"
  shows "r = SECCOMP_RET_KILL_PROCESS \<Longrightarrow> filtered_call K h nr args s = Halt (Killed SIGSYS) s"
    and "r = SECCOMP_RET_ALLOW \<Longrightarrow> filtered_call K h nr args s =
      (case k_call K nr args (p_kern s) of (ret, k) \<Rightarrow> Done ret (note_errno ret (s\<lparr>p_kern := k\<rparr>)))"
    and "r = SECCOMP_RET_ERRNO OR ENOTSUP \<Longrightarrow> filtered_call K h nr args s = Done (Inl 95) (s\<lparr>p_errno := 95\<rparr>)"
    and "r = SECCOMP_RET_TRAP \<Longrightarrow> p_sigsys s \<Longrightarrow>
      filtered_call K h nr args s = Done (Inl ENOSYS) (note_errno (Inl ENOSYS) (h s))"
    and "ret_action r = SECCOMP_RET_ERRNO \<Longrightarrow>
      filtered_call K h nr args s = Done (Inl (uint (ret_data r))) (s\<lparr>p_errno := uint (ret_data r)\<rparr>)"
  using assms by (simp_all add: filtered_call_def verdict_single)

lemma lo32_ucast [simp]: "lo32 (ucast (w :: 32 word)) = w"
  by (simp add: lo32_def, transfer, simp)

text \<open>The answer of the kernel to \<^verbatim>\<open>open()\<close>, and what the program prints about it.\<close>

definition kernel_open :: "'k kernel \<Rightarrow> string \<Rightarrow> 64 word \<Rightarrow> 32 word \<Rightarrow> 64 word \<Rightarrow> 'k proc \<Rightarrow> 'k proc" where
  "kernel_open K msg path fl mode s =
     (case (if k_open_is_openat K then k_call K NR_openat [AT_FDCWD, path, ucast fl, mode] (p_kern s)
            else k_call K NR_open [path, ucast fl, mode] (p_kern s)) of
        (Inl err, k) \<Rightarrow> say ''%s: %s'' [S msg, StrError err] (s\<lparr>p_kern := k, p_errno := err\<rparr>)
      | (Inr _, k) \<Rightarrow> s\<lparr>p_kern := k\<rparr>)"

lemma kernel_open_filters [simp]: "p_filters (kernel_open K msg path fl mode s) = p_filters s"
  by (simp add: kernel_open_def split: prod.split sum.split)

lemma open_or_perror_filtered:
  assumes "p_filters s = [control_open_filter]" "k_arch K = AUDIT_ARCH_X86_64"
  shows "open_or_perror K msg path fl mode s =
    (if fl AND O_CREAT \<noteq> 0 then Halt (Killed SIGSYS) s
     else if fl AND O_WRONLY \<noteq> 0 \<or> fl AND O_RDWR \<noteq> 0
     then Done () (say ''%s: %s'' [S msg, StrError 95] (s\<lparr>p_errno := 95\<rparr>))
     else Done () (kernel_open K msg path fl mode s))"
proof -
  have "bpf_run control_open_filter (call_data K nr args s) 0 = Some
     (if fl AND O_CREAT \<noteq> 0 then SECCOMP_RET_KILL_PROCESS
      else if fl AND O_WRONLY \<noteq> 0 \<or> fl AND O_RDWR \<noteq> 0 then SECCOMP_RET_ERRNO OR ENOTSUP
      else SECCOMP_RET_ALLOW)"
    if "nr = NR_open \<and> args = [path, ucast fl, mode] \<or>
        nr = NR_openat \<and> args = [AT_FDCWD, path, ucast fl, mode]" for nr args
  proof -
    have "native_call (call_data K nr args s)" "open_flags (call_data K nr args s) = Some fl"
      using that assms(2) by (auto simp: native_call_def open_flags_def call_data_def)
    then show ?thesis by (simp only: control_open_eval option.case not_True_eq_False if_False)
  qed
  note eval = this
  let ?nr = "if k_open_is_openat K then NR_openat else NR_open"
  let ?args = "if k_open_is_openat K then [AT_FDCWD, path, ucast fl, mode] else [path, ucast fl, mode]"
  have call: "libc_open K path fl mode s = filtered_call K id ?nr ?args s"
    by (simp add: libc_open_def)
  have "?nr = NR_open \<and> ?args = [path, ucast fl, mode] \<or> ?nr = NR_openat \<and> ?args = [AT_FDCWD, path, ucast fl, mode]"
    by simp
  note one = filtered_call_one [OF assms(1) eval [OF this], of id]
  consider (creat) "fl AND O_CREAT \<noteq> 0" | (writing) "fl AND O_CREAT = 0" "fl AND O_WRONLY \<noteq> 0 \<or> fl AND O_RDWR \<noteq> 0"
    | (reading) "fl AND O_CREAT = 0" "\<not> (fl AND O_WRONLY \<noteq> 0 \<or> fl AND O_RDWR \<noteq> 0)" by blast
  then show ?thesis
  proof cases
    case creat
    then have "libc_open K path fl mode s = Halt (Killed SIGSYS) s" unfolding call by (intro one(1)) simp
    with creat show ?thesis by (simp add: open_or_perror_def)
  next
    case writing
    then have "libc_open K path fl mode s = Done (Inl 95) (s\<lparr>p_errno := 95\<rparr>)"
      unfolding call by (intro one(3)) simp
    with writing show ?thesis by (simp add: open_or_perror_def)
  next
    case reading
    then have "libc_open K path fl mode s =
        (case k_call K ?nr ?args (p_kern s) of (ret, k) \<Rightarrow> Done ret (note_errno ret (s\<lparr>p_kern := k\<rparr>)))"
      unfolding call by (intro one(2)) simp
    with reading show ?thesis
      by (cases "k_call K ?nr ?args (p_kern s)"; cases "fst (k_call K ?nr ?args (p_kern s))";
          cases "k_open_is_openat K") (simp_all add: open_or_perror_def kernel_open_def)
  qed
qed

text \<open>
  Under its own filter, \<^verbatim>\<open>seccomp_control_open.c\<close> never exits: the two attempts to open for
  writing fail with \<^verbatim>\<open>ENOTSUP\<close> whatever the kernel would have answered, and the attempt to create
  a file ends the process with \<^verbatim>\<open>SIGSYS\<close>; only the first \<^verbatim>\<open>open()\<close> reaches the kernel.  This does
  not depend on whether the C library implements \<^verbatim>\<open>open()\<close> by \<^verbatim>\<open>openat()\<close>.
\<close>

theorem control_open_main_killed:
  assumes "installs K" "k_arch K = AUDIT_ARCH_X86_64" "p_filters s = []"
  shows "\<exists>k t. control_open_main K path s = Halt (Killed SIGSYS) t \<and>
    p_out t = p_out (kernel_open K ''open1'' path O_RDONLY 0 (s\<lparr>p_kern := k\<rparr>)) @
              [(''%s: %s'', [S ''open2'', StrError 95]), (''%s: %s'', [S ''open3'', StrError 95])]"
proof -
  have acc: "bpf_accepted control_open_filter"
    by (simp add: control_open_filter_def bpf_accepted_def bpf_insn_ok_def BPF_STMT_def BPF_JUMP_def)
  have out: "p_out (kernel_open K m path fl md (u\<lparr>p_kern := k, p_no_new_privs := b, p_filters := fs\<rparr>)) =
      p_out (kernel_open K m path fl md (u\<lparr>p_kern := k\<rparr>))" for m fl md b k fs and u :: "'a proc"
    by (simp add: kernel_open_def split: prod.split sum.split)
  obtain k k' where k: "set_no_new_privs K s = Done () (s\<lparr>p_kern := k, p_no_new_privs := True\<rparr>)"
    "install_filter K control_open_filter (s\<lparr>p_kern := k, p_no_new_privs := True\<rparr>) =
       Done () (s\<lparr>p_kern := k', p_no_new_privs := True, p_filters := control_open_filter # p_filters s\<rparr>)"
    by (rule installed [OF assms(1) acc])
  show ?thesis
    by (rule exI [of _ k']) (simp add: control_open_main_def k open_or_perror_filtered assms(2,3) out)
qed

text \<open>A kernel that succeeds in everything, for a C library that uses \<^verbatim>\<open>openat()\<close>.\<close>

definition easy_kernel :: "unit kernel" where
  "easy_kernel = \<lparr>k_arch = AUDIT_ARCH_X86_64, k_ip = \<lambda>_. 0, k_call = \<lambda>_ _ k. (Inr 0, k), k_open_is_openat = True\<rparr>"

definition new_proc :: "unit proc" where
  "new_proc = \<lparr>p_filters = [], p_no_new_privs = False, p_sigsys = False, p_errno = 0, p_out = [], p_kern = ()\<rparr>"

lemma easy_kernel_simps [simp]:
  "installs easy_kernel" "k_arch easy_kernel = AUDIT_ARCH_X86_64" "k_call easy_kernel nr args k = (Inr 0, k)"
  by (simp_all add: installs_def easy_kernel_def)

theorem control_open_main_killed_witness:
  "\<exists>t. control_open_main easy_kernel 0x4000 new_proc = Halt (Killed SIGSYS) t \<and>
       p_out t = [(''%s: %s'', [S ''open2'', StrError 95]), (''%s: %s'', [S ''open3'', StrError 95])]"
  using control_open_main_killed [where K = easy_kernel and s = new_proc and path = "0x4000"]
  by (auto simp: new_proc_def kernel_open_def)

text \<open>
  Under their filters, \<^verbatim>\<open>seccomp_deny_open.c\<close> is always killed at its \<^verbatim>\<open>open()\<close>, before the message
  that should not be seen, and \<^verbatim>\<open>seccomp_trap_sigsys.c\<close> runs its handler once, without the kernel
  executing \<^verbatim>\<open>getppid()\<close>, and then continues to its normal end.
\<close>

theorem deny_and_trap_mains:
  assumes "installs K" "k_arch K = AUDIT_ARCH_X86_64" "p_filters s = []"
    and sigaction: "\<And>k. \<exists>v. k_call K 13 [31] k = (Inr v, k)"
  shows "(\<exists>t. deny_open_main K path s = Halt (Killed SIGSYS) t \<and> p_out t = p_out s) \<and>
    (\<exists>t. trap_main K s = Halt (Exit EXIT_SUCCESS) t \<and>
         p_out t = p_out s @ [(''About to call getppid()'', []), (''SIGSYS!'', []), (''Bye'', [])])"
proof
  obtain k k' where k: "set_no_new_privs K s = Done () (s\<lparr>p_kern := k, p_no_new_privs := True\<rparr>)"
    "install_filter K deny_open_filter (s\<lparr>p_kern := k, p_no_new_privs := True\<rparr>) =
       Done () (s\<lparr>p_kern := k', p_no_new_privs := True, p_filters := deny_open_filter # p_filters s\<rparr>)"
    by (rule installed [OF assms(1) filters_accepted(1)])
  let ?s = "s\<lparr>p_kern := k', p_no_new_privs := True, p_filters := [deny_open_filter]\<rparr>"
  have "bpf_run deny_open_filter (call_data K nr args ?s) 0 = Some SECCOMP_RET_KILL_PROCESS"
    if "nr = NR_open \<or> nr = NR_openat" for nr args
    using that by (auto simp: deny_open_eval call_data_def)
  then have "libc_open K path fl mode ?s = Halt (Killed SIGSYS) ?s" for fl mode
    unfolding libc_open_def by (simp add: filtered_call_one(1) [where f = deny_open_filter])
  then show "\<exists>t. deny_open_main K path s = Halt (Killed SIGSYS) t \<and> p_out t = p_out s"
    using assms(3) by (simp add: deny_open_main_def k)
next
  obtain k k' where k: "set_no_new_privs K s = Done () (s\<lparr>p_kern := k, p_no_new_privs := True\<rparr>)"
    "install_filter K trap_filter (s\<lparr>p_kern := k, p_no_new_privs := True\<rparr>) =
       Done () (s\<lparr>p_kern := k', p_no_new_privs := True, p_filters := trap_filter # p_filters s\<rparr>)"
    by (rule installed [OF assms(1) filters_accepted(4)])
  let ?s = "s\<lparr>p_kern := k', p_no_new_privs := True, p_filters := [trap_filter]\<rparr>"
  have eval: "bpf_run trap_filter (call_data K nr args u) 0 =
      Some (if nr = NR_getppid then SECCOMP_RET_TRAP else SECCOMP_RET_ALLOW)" for nr args u
    using assms(2) by (simp add: trap_eval call_data_def)
  obtain v where v: "k_call K 13 [31] k' = (Inr v, k')" using sigaction by blast
  have "filtered_call K id 13 [31] ?s = Done (Inr v) ?s"
    using filtered_call_one(2) [where f = trap_filter and s = ?s and nr = 13 and args = "[31]" and h = id and K = K] v
    by (simp add: eval)
  moreover have "filtered_call K sigHandler NR_getppid [] u =
      Done (Inl ENOSYS) (note_errno (Inl ENOSYS) (sigHandler u))"
    if "p_filters u = [trap_filter]" "p_sigsys u" for u
    using filtered_call_one(4) [OF that(1), where r = SECCOMP_RET_TRAP and K = K and nr = NR_getppid and args = "[]" and h = sigHandler]
      that(2) by (simp add: eval)
  ultimately show "\<exists>t. trap_main K s = Halt (Exit EXIT_SUCCESS) t \<and>
         p_out t = p_out s @ [(''About to call getppid()'', []), (''SIGSYS!'', []), (''Bye'', [])]"
    using assms(3) by (simp add: trap_main_def k sigHandler_def Let_def)
qed

theorem deny_and_trap_mains_witness:
  "(\<exists>t. deny_open_main easy_kernel 0 new_proc = Halt (Killed SIGSYS) t \<and> p_out t = []) \<and>
   (\<exists>t. trap_main easy_kernel new_proc = Halt (Exit EXIT_SUCCESS) t \<and>
         p_out t = [(''About to call getppid()'', []), (''SIGSYS!'', []), (''Bye'', [])])"
  using deny_and_trap_mains [of easy_kernel new_proc 0] by (simp add: new_proc_def)

fun abi_errno :: "abi \<Rightarrow> int" where
  "abi_errno X86_64 = 244"
| "abi_errno I386 = 281"
| "abi_errno X32 = 527"

definition reports :: "logrec list \<Rightarrow> farg list list" where
  "reports out = map snd (filter (\<lambda>(f, _). f = ''mq_notify() failed with errno = %d'') out)"

lemma multiarch_eval:
  "bpf_run multiarch_filter (call_data (K\<lparr>k_arch := abi_arch abi\<rparr>) (nr_mq_notify abi) args s) 0 =
     Some (0x00050000 OR word_of_int (abi_errno abi))"
  "bpf_run multiarch_filter (call_data (K\<lparr>k_arch := abi_arch abi\<rparr>) (nr_execve abi) args s) 0 = Some SECCOMP_RET_ALLOW"
  by (cases abi; simp add: multiarch_filter_def BPF_STMT_def BPF_JUMP_def Let_def call_data_def)+

lemma multiarch_mq_notify:
  "p_filters s = [multiarch_filter] \<Longrightarrow>
     filtered_call (K\<lparr>k_arch := abi_arch abi\<rparr>) h (nr_mq_notify abi) args s =
       Done (Inl (abi_errno abi)) (s\<lparr>p_errno := abi_errno abi\<rparr>)"
  by (subst filtered_call_one(5) [OF _ multiarch_eval(1)]) (cases abi; simp)+

text \<open>The state in which a binary has reported the failure of its \<^verbatim>\<open>mq_notify()\<close>.\<close>

definition reported :: "abi \<Rightarrow> 'k proc \<Rightarrow> 'k proc" where
  "reported abi s = say ''mq_notify() failed with errno = %d'' [I (abi_errno abi)]
     ((say ''argv[0] = %s; PID = %ld'' [Ptr, Ptr] s)\<lparr>p_errno := abi_errno abi\<rparr>)"

lemma reported_simps [simp]:
  "p_filters (reported abi s) = p_filters s" "p_kern (reported abi s) = p_kern s"
  "reports (p_out (reported abi s)) = reports (p_out s) @ [[I (abi_errno abi)]]"
  by (simp_all add: reported_def reports_def)

lemma multiarch_env:
  assumes "p_filters s = [multiarch_filter]"
  shows "multiarch_main K abi next True s =
    (case next of
       [] \<Rightarrow> Halt (Exit EXIT_SUCCESS) (reported abi s)
     | abi' # next' \<Rightarrow>
         andThen (filtered_call (K\<lparr>k_arch := abi_arch abi\<rparr>) id (nr_execve abi) []
                    (say ''About to exec: %s'' [Ptr] (reported abi s)))
           (\<lambda>r s. case r of Inl err \<Rightarrow> fail_exit ''execvp'' err s
                   | Inr _ \<Rightarrow> multiarch_main (K\<lparr>k_arch := abi_arch abi\<rparr>) abi' next' True s))"
proof -
  have "abi_errno abi \<noteq> EBADF" by (cases abi) simp_all
  with assms show ?thesis
    by (subst multiarch_main.simps) (cases "next"; simp add: Let_def multiarch_mq_notify reported_def)
qed

lemma multiarch_chain:
  assumes "p_filters s = [multiarch_filter]"
    and "\<And>abi k. \<exists>v k'. k_call K (nr_execve abi) [] k = (Inr v, k')"
  shows "\<exists>t. multiarch_main K abi next True s = Halt (Exit EXIT_SUCCESS) t \<and>
             reports (p_out t) = reports (p_out s) @ map (\<lambda>a. [I (abi_errno a)]) (abi # next)"
  using assms
proof (induction "next" arbitrary: abi s K)
  case Nil
  then show ?case by (simp add: multiarch_env)
next
  case (Cons abi' "next")
  let ?u = "say ''About to exec: %s'' [Ptr] (reported abi s)"
  obtain v k' where "k_call K (nr_execve abi) [] (p_kern ?u) = (Inr v, k')" using Cons.prems(2) by blast
  then have exec: "filtered_call (K\<lparr>k_arch := abi_arch abi\<rparr>) id (nr_execve abi) [] ?u = Done (Inr v) (?u\<lparr>p_kern := k'\<rparr>)"
    using Cons.prems(1) by (subst filtered_call_one(2) [OF _ multiarch_eval(2)]) simp_all
  have "\<exists>t. multiarch_main (K\<lparr>k_arch := abi_arch abi\<rparr>) abi' next True (?u\<lparr>p_kern := k'\<rparr>) =
          Halt (Exit EXIT_SUCCESS) t \<and>
        reports (p_out t) = reports (p_out (?u\<lparr>p_kern := k'\<rparr>)) @ map (\<lambda>a. [I (abi_errno a)]) (abi' # next)"
    using Cons.prems by (intro Cons.IH) simp_all
  moreover have "reports (p_out (?u\<lparr>p_kern := k'\<rparr>)) = reports (p_out s) @ [[I (abi_errno abi)]]"
    by (simp add: reports_def reported_def)
  ultimately show ?case
    using Cons.prems(1) by (simp add: multiarch_env exec)
qed

text \<open>
  Whatever chain of x86-64, i386 and x32 binaries \<^verbatim>\<open>seccomp_multiarch.c\<close> is run as, the filter
  that the first one installs makes \<^verbatim>\<open>mq_notify()\<close> fail in each of them, and each reports the
  error number that is the system call number of its own ABI.
\<close>

theorem multiarch_chain_reports:
  assumes "installs K" "p_filters s = []"
    and exec: "\<forall>abi k. \<exists>v k'. k_call K (nr_execve abi) [] k = (Inr v, k')"
  shows "\<exists>t. multiarch_main K abi next False s = Halt (Exit EXIT_SUCCESS) t \<and>
             reports (p_out t) = reports (p_out s) @ map (\<lambda>a. [I (abi_errno a)]) (abi # next)"
proof -
  let ?K = "K\<lparr>k_arch := abi_arch abi\<rparr>"
  have inst: "installs ?K" using assms(1) by (simp add: installs_def)
  obtain v k where k: "k_call K NR_prctl [38, 1, 0, 0, 0] (p_kern s) = (Inr v, k)"
    using assms(1) unfolding installs_def by blast
  obtain v' k' where k': "k_call K NR_seccomp [1, 0] k = (Inr v', k')"
    using assms(1) unfolding installs_def by blast
  let ?s = "(say ''Initial execution; installing seccomp filter'' [] (s\<lparr>p_kern := k, p_no_new_privs := True\<rparr>))
              \<lparr>p_kern := k', p_filters := [multiarch_filter]\<rparr>"
  have "multiarch_main K abi next False s = multiarch_main K abi next True ?s"
    by (subst (1 2) multiarch_main.simps)
      (simp add: Let_def set_no_new_privs_def install_filter_def k k' filters_accepted(5) assms(2))
  moreover have "\<exists>t. multiarch_main K abi next True ?s = Halt (Exit EXIT_SUCCESS) t \<and>
      reports (p_out t) = reports (p_out ?s) @ map (\<lambda>a. [I (abi_errno a)]) (abi # next)"
    using exec by (intro multiarch_chain) simp_all
  moreover have "reports (p_out ?s) = reports (p_out s)" by (simp add: reports_def)
  ultimately show ?thesis by simp
qed

theorem multiarch_chain_reports_witness:
  "\<exists>t. multiarch_main easy_kernel X86_64 [I386, X32, X86_64] False new_proc = Halt (Exit EXIT_SUCCESS) t \<and>
       reports (p_out t) = [[I 244], [I 281], [I 527], [I 244]]"
  using multiarch_chain_reports [of easy_kernel new_proc X86_64 "[I386, X32, X86_64]"]
  by (simp add: new_proc_def reports_def)

end
