(* ===== verification/Acl.thy ===== *)
theory Acl
  imports C_Numbers
begin

text \<open>
  Access control lists: \<^verbatim>\<open>users_groups/ugid_functions.c\<close>, \<^verbatim>\<open>acl/acl_update.c\<close> and
  \<^verbatim>\<open>acl/acl_view.c\<close>.  The user and group databases are lookup functions.  An \<^verbatim>\<open>acl_t\<close> of the
  ACL library is the list of its entries; the library is a parameter that may make any
  call fail and that supplies \<^verbatim>\<open>acl_calc_mask()\<close> and \<^verbatim>\<open>acl_valid()\<close>.
  The lemmas show that the text format is parsed correctly, and that updating an ACL is
  updating or deleting keys in a finite map.
\<close>

section \<open>Names and numeric identifiers\<close>

record ugid_db =
  getpwuid :: "32 word \<Rightarrow> string option"
  getpwnam :: "string \<Rightarrow> 32 word option"
  getgrgid :: "32 word \<Rightarrow> string option"
  getgrnam :: "string \<Rightarrow> 32 word option"

definition userNameFromId :: "ugid_db \<Rightarrow> 32 word \<Rightarrow> string option" where
  "userNameFromId db uid = getpwuid db uid"

text \<open>The result of \<^verbatim>\<open>strtol()\<close> is truncated to 32 bits; -1 is the error value.\<close>

definition userIdFromName :: "ugid_db \<Rightarrow> string option \<Rightarrow> 32 word" where
  "userIdFromName db name =
     (case name of
        None \<Rightarrow> -1
      | Some nm \<Rightarrow>
          if nm = [] then -1
          else
            let (v, endptr, _) = strtol nm 10
            in if endptr = [] then word_of_int v
               else case getpwnam db nm of None \<Rightarrow> -1 | Some u \<Rightarrow> u)"

definition groupNameFromId :: "ugid_db \<Rightarrow> 32 word \<Rightarrow> string option" where
  "groupNameFromId db gid = getgrgid db gid"

definition groupIdFromName :: "ugid_db \<Rightarrow> string option \<Rightarrow> 32 word" where
  "groupIdFromName db name =
     (case name of
        None \<Rightarrow> -1
      | Some nm \<Rightarrow>
          if nm = [] then -1
          else
            let (v, endptr, _) = strtol nm 10
            in if endptr = [] then word_of_int v
               else case getgrnam db nm of None \<Rightarrow> -1 | Some g \<Rightarrow> g)"

section \<open>The text format\<close>

datatype acl_tag = ACL_UNDEFINED_TAG | ACL_USER_OBJ | ACL_USER | ACL_GROUP_OBJ | ACL_GROUP | ACL_MASK | ACL_OTHER

abbreviation (input) ACL_READ :: "32 word" where "ACL_READ \<equiv> 4"
abbreviation (input) ACL_WRITE :: "32 word" where "ACL_WRITE \<equiv> 2"
abbreviation (input) ACL_EXECUTE :: "32 word" where "ACL_EXECUTE \<equiv> 1"

text \<open>\<open>perms\<close> is \<open>None\<close> while the field of the C structure has not been assigned.\<close>

record AccessControlEntry =
  tag :: acl_tag
  qual :: "32 word"
  perms :: "32 word option"

text \<open>The loop over the permissions string; a bad character is returned as \<open>Inl\<close>.\<close>

fun parse_perms :: "string \<Rightarrow> 32 word \<Rightarrow> char + 32 word" where
  "parse_perms [] acc = Inr acc"
| "parse_perms (c # cs) acc =
     (if c = CHR ''r'' then parse_perms cs (acc OR ACL_READ)
      else if c = CHR ''w'' then parse_perms cs (acc OR ACL_WRITE)
      else if c = CHR ''x'' then parse_perms cs (acc OR ACL_EXECUTE)
      else if c \<noteq> CHR ''-'' then Inl c
      else parse_perms cs acc)"

definition tag_of_string :: "string \<Rightarrow> bool \<Rightarrow> acl_tag option" where
  "tag_of_string t hasQual =
     (if t = ''u'' \<or> t = ''user'' then Some (if hasQual then ACL_USER else ACL_USER_OBJ)
      else if t = ''g'' \<or> t = ''group'' then Some (if hasQual then ACL_GROUP else ACL_GROUP_OBJ)
      else if t = ''o'' \<or> t = ''other'' then Some ACL_OTHER
      else if t = ''m'' \<or> t = ''mask'' then Some ACL_MASK
      else None)"

definition qualifier_id :: "ugid_db \<Rightarrow> acl_tag \<Rightarrow> string \<Rightarrow> 32 word" where
  "qualifier_id db t qualStr =
     (if t = ACL_USER then userIdFromName db (Some qualStr)
      else if t = ACL_GROUP then groupIdFromName db (Some qualStr) else 0)"

text \<open>Success, or the diagnostic printed before returning \<^verbatim>\<open>FALSE\<close>.\<close>

definition parseEntrySpec :: "ugid_db \<Rightarrow> string \<Rightarrow> bool \<Rightarrow> logrec + AccessControlEntry" where
  "parseEntrySpec db entryStr permsReqd =
     (case strchr entryStr CHR '':'' of
        None \<Rightarrow> Inl (''Missing initial colon in ACL entry: %s'', [S entryStr])
      | Some colon1 \<Rightarrow>
          let tagStr = take colon1 entryStr;
              rest = drop (Suc colon1) entryStr;
              hasQual = (char_at rest 0 \<noteq> NUL \<and> char_at rest 0 \<noteq> CHR '':'');
              colon2 = strchr rest CHR '':'';
              hasPerms = (case colon2 of None \<Rightarrow> False | Some c2 \<Rightarrow> char_at rest (Suc c2) \<noteq> NUL);
              qualStr = (case colon2 of None \<Rightarrow> rest | Some c2 \<Rightarrow> take c2 rest);
              permStr = (case colon2 of None \<Rightarrow> [] | Some c2 \<Rightarrow> drop (Suc c2) rest)
          in if hasPerms \<and> \<not> permsReqd then Inl (''Cannot specify permissions here'', [])
             else if \<not> hasPerms \<and> permsReqd then Inl (''Must specify permissions'', [])
             else case tag_of_string tagStr hasQual of
               None \<Rightarrow> Inl (''Bad tag: %s'', [S tagStr])
             | Some t \<Rightarrow>
                 let q = qualifier_id db t qualStr
                 in if t = ACL_USER \<and> q = -1 then Inl (''Bad user ID: %s'', [S qualStr])
                    else if t = ACL_GROUP \<and> q = -1 then Inl (''Bad group ID: %s'', [S qualStr])
                    else if hasPerms
                    then case parse_perms permStr 0 of
                           Inl c \<Rightarrow> Inl (''Bad character in permissions string: %c'', [S [c]])
                         | Inr p \<Rightarrow> Inr \<lparr>tag = t, qual = q, perms = Some p\<rparr>
                    else Inr \<lparr>tag = t, qual = q, perms = None\<rparr>)"

abbreviation (input) MAX_ENTRIES :: nat where "MAX_ENTRIES \<equiv> 10000"

text \<open>The loop of \<^verbatim>\<open>parseACL()\<close> with \<open>n\<close> entries parsed so far.\<close>

function parse_entries :: "ugid_db \<Rightarrow> nat \<Rightarrow> string \<Rightarrow> bool \<Rightarrow> logrec + AccessControlEntry list" where
  "parse_entries db n str permsReqd =
     (if n \<ge> MAX_ENTRIES then Inl (''Too many entries in ACL'', [])
      else
        let comma = strchr str CHR '','';
            this = (case comma of None \<Rightarrow> str | Some c \<Rightarrow> take c str)
        in case parseEntrySpec db this permsReqd of
             Inl msg \<Rightarrow> Inl msg
           | Inr ace \<Rightarrow>
               (case comma of
                  None \<Rightarrow> Inr [ace]
                | Some c \<Rightarrow>
                    (case parse_entries db (Suc n) (drop (Suc c) str) permsReqd of
                       Inl msg \<Rightarrow> Inl msg
                     | Inr aces \<Rightarrow> Inr (ace # aces))))"
  by pat_completeness auto

termination
proof (relation "measure (\<lambda>(db, n, str, p). length str)")
  fix n :: nat and str :: string and comma this x c
  assume "comma = strchr str CHR '',''" "comma = Some c"
  then have "c < length str" using strchr_Some [of str] by metis
  then show "((db, Suc n, drop (Suc c) str, p), db, n, str, p) \<in> measure (\<lambda>(db, n, str, p). length str)"
    for db :: ugid_db and p :: bool
    by simp
qed simp

declare parse_entries.simps [simp del]

definition parseACL :: "ugid_db \<Rightarrow> string \<Rightarrow> bool \<Rightarrow> logrec + AccessControlEntry list" where
  "parseACL db aclStr permsReqd = parse_entries db 0 aclStr permsReqd"

section \<open>Printing a specification\<close>

definition perm_chars :: "32 word \<Rightarrow> string" where
  "perm_chars p =
     [if p AND ACL_READ \<noteq> 0 then CHR ''r'' else CHR ''-'',
      if p AND ACL_WRITE \<noteq> 0 then CHR ''w'' else CHR ''-'',
      if p AND ACL_EXECUTE \<noteq> 0 then CHR ''x'' else CHR ''-'']"

fun tag_string :: "acl_tag \<Rightarrow> string" where
  "tag_string ACL_USER_OBJ = ''user''"
| "tag_string ACL_USER = ''user''"
| "tag_string ACL_GROUP_OBJ = ''group''"
| "tag_string ACL_GROUP = ''group''"
| "tag_string ACL_MASK = ''mask''"
| "tag_string ACL_OTHER = ''other''"
| "tag_string ACL_UNDEFINED_TAG = ''???''"

definition has_qual :: "acl_tag \<Rightarrow> bool" where
  "has_qual t \<longleftrightarrow> t = ACL_USER \<or> t = ACL_GROUP"

definition entry_string :: "AccessControlEntry \<Rightarrow> string" where
  "entry_string a =
     tag_string (tag a) @ '':'' @ (if has_qual (tag a) then decimal (unat (qual a)) else []) @
     (case perms a of None \<Rightarrow> [] | Some p \<Rightarrow> '':'' @ perm_chars p)"

fun acl_string :: "AccessControlEntry list \<Rightarrow> string" where
  "acl_string [] = []"
| "acl_string [a] = entry_string a"
| "acl_string (a # as) = entry_string a @ '','' @ acl_string as"

text \<open>An entry that a specification can express.\<close>

definition ace_ok :: "bool \<Rightarrow> AccessControlEntry \<Rightarrow> bool" where
  "ace_ok permsReqd a \<longleftrightarrow>
     tag a \<noteq> ACL_UNDEFINED_TAG \<and>
     (if has_qual (tag a) then qual a \<noteq> -1 else qual a = 0) \<and>
     (case perms a of None \<Rightarrow> \<not> permsReqd | Some p \<Rightarrow> permsReqd \<and> p < 8)"

section \<open>Parsing inverts printing\<close>

lemma word_lt_8: "p < 8 \<Longrightarrow> p \<in> {0, 1, 2, 3, 4, 5, 6, 7 :: 32 word}"
proof -
  assume "p < 8"
  then have "unat p < 8" by (simp add: word_less_nat_alt)
  then have "unat p = 0 \<or> unat p = 1 \<or> unat p = 2 \<or> unat p = 3 \<or> unat p = 4 \<or> unat p = 5 \<or> unat p = 6 \<or> unat p = 7"
    by linarith
  then show ?thesis by (simp add: word_unat_eq_iff)
qed

lemma parse_perm_chars: "p < 8 \<Longrightarrow> parse_perms (perm_chars p) 0 = Inr p"
  by (drule word_lt_8) (auto simp: perm_chars_def)

lemma parse_perms_lt_8: "parse_perms s acc = Inr p \<Longrightarrow> acc < 8 \<Longrightarrow> p < 8"
proof (induction s acc rule: parse_perms.induct)
  case (2 c cs acc)
  have "acc OR m < 8" if "m \<in> {4, 2, 1}" for m
    using word_lt_8 [OF "2.prems"(2)] that by auto
  with 2 show ?case by (auto split: if_splits)
qed simp

lemma strtol_decimal: "n < 2 ^ 32 \<Longrightarrow> strtol (decimal n) 10 = (int n, [], False)"
proof -
  assume "n < 2 ^ 32"
  then have "clamp_long (int n) = int n" by (simp add: clamp_long_def LONG_MAX_def LONG_MIN_def)
  moreover have "decimal_int (int n) = decimal n" by (simp add: decimal_int_def)
  ultimately show ?thesis using strtol_denotes [OF denotes_decimal_int [of "int n"]] by simp
qed

lemma decimal_nonempty [simp]: "decimal n \<noteq> []"
  using decimal_digits by blast

lemma id_of_decimal:
  "userIdFromName db (Some (decimal (unat q))) = q" "groupIdFromName db (Some (decimal (unat q))) = q"
proof -
  have "unat q < 2 ^ 32" using unsigned_less [where 'a = nat, of q] by simp
  from strtol_decimal [OF this]
  show "userIdFromName db (Some (decimal (unat q))) = q" "groupIdFromName db (Some (decimal (unat q))) = q"
    by (simp_all add: userIdFromName_def groupIdFromName_def)
qed

lemma decimal_chars: "c \<in> set (decimal n) \<Longrightarrow> c \<noteq> CHR '':'' \<and> c \<noteq> CHR '','' \<and> c \<noteq> NUL"
proof -
  assume "c \<in> set (decimal n)"
  then have "is_digit 10 c" using decimal_digits [of n] by (auto simp: list_all_iff)
  then show ?thesis by (auto simp: is_digit_def digit_val_def Let_def split: if_splits option.splits)
qed



lemma perm_chars_props [simp]:
  "length (perm_chars p) = 3" "char_at (perm_chars p) 0 \<noteq> NUL" "CHR '':'' \<notin> set (perm_chars p)"
  "CHR '','' \<notin> set (perm_chars p)"
  by (auto simp: perm_chars_def char_at_def)

text \<open>The qualifier part of a specification.\<close>

definition qual_string :: "AccessControlEntry \<Rightarrow> string" where
  "qual_string a = (if has_qual (tag a) then decimal (unat (qual a)) else [])"

lemma qual_string_props:
  "CHR '':'' \<notin> set (qual_string a)" "CHR '','' \<notin> set (qual_string a)" "NUL \<notin> set (qual_string a)"
  "qual_string a = [] \<longleftrightarrow> \<not> has_qual (tag a)"
  using decimal_chars by (auto simp: qual_string_def)

lemma tag_string_props:
  "CHR '':'' \<notin> set (tag_string t)" "CHR '','' \<notin> set (tag_string t)"
  "t \<noteq> ACL_UNDEFINED_TAG \<Longrightarrow> tag_of_string (tag_string t) (has_qual t) = Some t"
  by (cases t; simp add: tag_of_string_def has_qual_def)+

lemma char_at_append: "char_at (s @ t) i = (if i < length s then s ! i else char_at t (i - length s))"
  by (auto simp: char_at_def nth_append)

lemma parse_entry_string:
  assumes "ace_ok permsReqd a"
  shows "parseEntrySpec db (entry_string a) permsReqd = Inr a"
proof -
  let ?ps = "case perms a of None \<Rightarrow> [] | Some p \<Rightarrow> '':'' @ perm_chars p"
  let ?rest = "qual_string a @ ?ps"
  have str: "entry_string a = tag_string (tag a) @ CHR '':'' # ?rest"
    by (simp add: entry_string_def qual_string_def)
  have colon1: "strchr (entry_string a) CHR '':'' = Some (length (tag_string (tag a)))"
    unfolding str by (rule strchr_append [OF tag_string_props(1)])
  have colon2: "strchr ?rest CHR '':'' = (if perms a = None then None else Some (length (qual_string a)))"
    using qual_string_props(1) [of a] by (auto simp: strchr_None strchr_append split: option.split)
  have hasQual: "char_at ?rest 0 \<noteq> NUL \<and> char_at ?rest 0 \<noteq> CHR '':'' \<longleftrightarrow> has_qual (tag a)"
  proof (cases "qual_string a")
    case Nil
    then show ?thesis
      using qual_string_props(4) [of a] by (auto simp: char_at_def split: option.split)
  next
    case (Cons c cs)
    then have "c \<noteq> NUL" "c \<noteq> CHR '':''" "has_qual (tag a)"
      using qual_string_props [of a] by auto
    then show ?thesis by (simp add: Cons char_at_def)
  qed
  have tg: "tag_of_string (tag_string (tag a)) (has_qual (tag a)) = Some (tag a)"
    using assms by (intro tag_string_props(3)) (simp add: ace_ok_def)
  have q: "qualifier_id db (tag a) (qual_string a) = qual a"
    using assms by (auto simp: qualifier_id_def qual_string_def has_qual_def id_of_decimal ace_ok_def split: if_splits)
  have q1: "\<not> (tag a = ACL_USER \<and> qual a = -1)" "\<not> (tag a = ACL_GROUP \<and> qual a = -1)"
    using assms by (auto simp: ace_ok_def has_qual_def)
  have parts: "take (length (tag_string (tag a))) (entry_string a) = tag_string (tag a)"
    "drop (Suc (length (tag_string (tag a)))) (entry_string a) = ?rest"
    by (simp_all add: str)
  show ?thesis
  proof (cases "perms a")
    case None
    with assms have "\<not> permsReqd" by (simp add: ace_ok_def)
    then show ?thesis
      unfolding parseEntrySpec_def colon1 option.case Let_def parts hasQual
      using None colon2 q q1 tg by simp
  next
    case (Some p)
    with assms have "permsReqd" "p < 8" by (simp_all add: ace_ok_def)
    moreover have "char_at ?rest (Suc (length (qual_string a))) \<noteq> NUL"
      using Some by (simp add: char_at_append) (simp add: char_at_def perm_chars_def)
    ultimately show ?thesis
      unfolding parseEntrySpec_def colon1 option.case Let_def parts hasQual
      using Some colon2 q q1 tg by (simp add: parse_perm_chars)
  qed
qed

lemma entry_string_no_comma: "CHR '','' \<notin> set (entry_string a)"
  using tag_string_props(2) [of "tag a"] qual_string_props(2) [of a] perm_chars_props(4)
  by (auto simp: entry_string_def qual_string_def split: option.splits if_splits)

lemma parse_acl_string:
  assumes "as \<noteq> []" "\<forall>a \<in> set as. ace_ok permsReqd a" "n + length as \<le> MAX_ENTRIES"
  shows "parse_entries db n (acl_string as) permsReqd = Inr as"
  using assms
proof (induction as arbitrary: n rule: acl_string.induct)
  case (2 a)
  then have "strchr (entry_string a) CHR '','' = None"
    by (simp add: strchr_None entry_string_no_comma)
  with 2 show ?case
    by (subst parse_entries.simps) (simp add: Let_def parse_entry_string)
next
  case (3 a b as)
  have "strchr (entry_string a @ CHR '','' # acl_string (b # as)) CHR '','' = Some (length (entry_string a))"
    by (rule strchr_append [OF entry_string_no_comma])
  with 3 show ?case
    by (subst parse_entries.simps) (simp add: Let_def parse_entry_string)
qed simp

lemma tag_of_string_props:
  "tag_of_string s b = Some t \<Longrightarrow> t \<noteq> ACL_UNDEFINED_TAG \<and> (has_qual t \<longrightarrow> b)"
  by (auto simp: tag_of_string_def has_qual_def split: if_splits)

lemma parseEntrySpec_ok:
  assumes "parseEntrySpec db str permsReqd = Inr a"
  shows "ace_ok permsReqd a"
  using assms unfolding parseEntrySpec_def Let_def
  by (auto simp: ace_ok_def qualifier_id_def has_qual_def dest!: tag_of_string_props dest: parse_perms_lt_8
      split: option.splits if_splits sum.splits)

lemma parse_entries_ok:
  "parse_entries db n str permsReqd = Inr as \<Longrightarrow>
     (\<forall>a \<in> set as. ace_ok permsReqd a) \<and> as \<noteq> [] \<and> n + length as \<le> MAX_ENTRIES"
proof (induction db n str permsReqd arbitrary: as rule: parse_entries.induct)
  case (1 db n str permsReqd)
  show ?case
    using "1.prems" "1.IH"
    by (subst (asm) parse_entries.simps)
      (fastforce simp: Let_def dest: parseEntrySpec_ok split: if_splits option.splits sum.splits)
qed

section \<open>Updating access control lists\<close>

text \<open>
  An entry of an \<^verbatim>\<open>acl_t\<close>, the ACLs of the files, and the library: \<open>lib_fails\<close> decides for each
  call whether it fails (with an error number), \<open>calc_mask\<close> and \<open>valid_acl\<close> are the effect of
  \<^verbatim>\<open>acl_calc_mask()\<close> and the check of \<^verbatim>\<open>acl_valid()\<close>.
\<close>

record acl_entry =
  e_tag :: acl_tag
  e_qual :: "32 word"
  e_perms :: "32 word"

datatype acl_type = ACL_TYPE_ACCESS | ACL_TYPE_DEFAULT

type_synonym acl = "acl_entry list"

record 'k acl_lib =
  lib_fails :: "string \<Rightarrow> 'k \<Rightarrow> int option \<times> 'k"
  calc_mask :: "acl \<Rightarrow> acl"
  valid_acl :: "acl \<Rightarrow> bool"

record 'k acl_state =
  file_acl :: "string \<Rightarrow> acl_type \<Rightarrow> acl"
  as_out :: "logrec list"
  as_err :: "logrec list"
  as_kern :: 'k

definition acl_errExit :: "string \<Rightarrow> int \<Rightarrow> 'k acl_state \<Rightarrow> ('k acl_state, 'a) run" where
  "acl_errExit msg err s =
     Halt (Exit EXIT_FAILURE) (s\<lparr>as_err := as_err s @ [(''ERROR [%s] %s'', [StrError err, S msg])]\<rparr>)"

text \<open>A call of the library followed by \<^verbatim>\<open>errExit()\<close> if it fails.\<close>

definition lib_call :: "'k acl_lib \<Rightarrow> string \<Rightarrow> 'k acl_state \<Rightarrow> ('k acl_state, unit) run" where
  "lib_call L f s =
     (case lib_fails L f (as_kern s) of
        (Some err, k) \<Rightarrow> acl_errExit f err (s\<lparr>as_kern := k\<rparr>)
      | (None, k) \<Rightarrow> Done () (s\<lparr>as_kern := k\<rparr>))"

text \<open>The loop of \<^verbatim>\<open>findEntry()\<close>, at position \<open>i\<close>; the result is the position of the entry found.\<close>

fun find_entry_from ::
  "'k acl_lib \<Rightarrow> nat \<Rightarrow> acl \<Rightarrow> acl_tag \<Rightarrow> 32 word \<Rightarrow> 'k acl_state \<Rightarrow> ('k acl_state, nat option) run" where
  "find_entry_from L i [] t q s =
     andThen (lib_call L ''acl_get_entry'' s) (\<lambda>_ s. Done None s)"
| "find_entry_from L i (e # es) t q s =
     andThen (lib_call L ''acl_get_entry'' s) (\<lambda>_ s.
     andThen (lib_call L ''acl_get_tag_type'' s) (\<lambda>_ s.
       if t = e_tag e then
         if t = ACL_USER \<or> t = ACL_GROUP then
           andThen (lib_call L ''acl_get_qualifier'' s) (\<lambda>_ s.
           andThen (lib_call L ''acl_free'' s) (\<lambda>_ s.
             if q = e_qual e then Done (Some i) s else find_entry_from L (Suc i) es t q s))
         else Done (Some i) s
       else find_entry_from L (Suc i) es t q s))"

definition findEntry ::
  "'k acl_lib \<Rightarrow> acl \<Rightarrow> acl_tag \<Rightarrow> 32 word \<Rightarrow> 'k acl_state \<Rightarrow> ('k acl_state, nat option) run" where
  "findEntry L acl t q s = find_entry_from L 0 acl t q s"

definition add_perm ::
  "'k acl_lib \<Rightarrow> 32 word \<Rightarrow> 32 word \<Rightarrow> 32 word \<Rightarrow> 'k acl_state \<Rightarrow> ('k acl_state, 32 word) run" where
  "add_perm L ps pbit permset s =
     (if ps AND pbit \<noteq> 0 then andThen (lib_call L ''acl_add_perm'' s) (\<lambda>_ s. Done (permset OR pbit) s)
      else Done permset s)"

definition setPerms ::
  "'k acl_lib \<Rightarrow> acl_entry \<Rightarrow> 32 word \<Rightarrow> 'k acl_state \<Rightarrow> ('k acl_state, acl_entry) run" where
  "setPerms L entry ps s =
     andThen (lib_call L ''acl_get_permset'' s) (\<lambda>_ s.
     andThen (lib_call L ''acl_clear_perms'' s) (\<lambda>_ s.
     andThen (add_perm L ps ACL_READ 0 s) (\<lambda>permset s.
     andThen (add_perm L ps ACL_WRITE permset s) (\<lambda>permset s.
     andThen (add_perm L ps ACL_EXECUTE permset s) (\<lambda>permset s.
     andThen (lib_call L ''acl_set_permset'' s) (\<lambda>_ s.
       Done (entry\<lparr>e_perms := permset\<rparr>) s))))))"

text \<open>
  The creation of the entry for a specification that has none in the ACL.
\<close>

definition create_entry ::
  "'k acl_lib \<Rightarrow> AccessControlEntry \<Rightarrow> 'k acl_state \<Rightarrow> ('k acl_state, acl_entry) run" where
  "create_entry L a s =
     andThen (lib_call L ''acl_create_entry'' s) (\<lambda>_ s.
     andThen (lib_call L ''acl_set_tag_type'' s) (\<lambda>_ s.
       if tag a = ACL_USER \<or> tag a = ACL_GROUP
       then andThen (lib_call L ''acl_set_qualifier'' s) (\<lambda>_ s.
              Done \<lparr>e_tag = tag a, e_qual = qual a, e_perms = 0\<rparr> s)
       else Done \<lparr>e_tag = tag a, e_qual = 0, e_perms = 0\<rparr> s))"

text \<open>One iteration of the loop over the specification entries, for one file.\<close>

definition apply_entry ::
  "'k acl_lib \<Rightarrow> bool \<Rightarrow> bool \<Rightarrow> string \<Rightarrow> acl_type \<Rightarrow> AccessControlEntry \<Rightarrow> acl \<Rightarrow> 'k acl_state \<Rightarrow>
     ('k acl_state, acl) run" where
  "apply_entry L removeACL recalcMask file type a acl s =
     andThen (findEntry L acl (tag a) (qual a) s) (\<lambda>entry s.
     andThen
       (if removeACL then
          (case entry of
             None \<Rightarrow> Done acl s
           | Some i \<Rightarrow> andThen (lib_call L ''acl_delete_entry'' s) (\<lambda>_ s. Done (take i acl @ drop (Suc i) acl) s))
        else
          (case entry of
             Some i \<Rightarrow> andThen (setPerms L (acl ! i) (the (perms a)) s) (\<lambda>e s. Done (acl[i := e]) s)
           | None \<Rightarrow>
               andThen (create_entry L a s) (\<lambda>e s.
               andThen (setPerms L e (the (perms a)) s) (\<lambda>e s. Done (acl @ [e]) s)))) (\<lambda>acl s.
     andThen
       (if recalcMask then andThen (lib_call L ''acl_calc_mask'' s) (\<lambda>_ s. Done (calc_mask L acl) s)
        else Done acl s) (\<lambda>acl s.
     if \<not> valid_acl L acl then acl_errExit ''acl_valid'' 22 s
     else
       andThen (lib_call L ''acl_set_file'' s) (\<lambda>_ s.
         Done acl (s\<lparr>file_acl := (file_acl s)(file := (file_acl s file)(type := acl))\<rparr>)))))"

fun apply_entries ::
  "'k acl_lib \<Rightarrow> bool \<Rightarrow> bool \<Rightarrow> string \<Rightarrow> acl_type \<Rightarrow> AccessControlEntry list \<Rightarrow> acl \<Rightarrow> 'k acl_state \<Rightarrow>
     ('k acl_state, acl) run" where
  "apply_entries L rm rc file type [] acl s = Done acl s"
| "apply_entries L rm rc file type (a # as) acl s =
     andThen (apply_entry L rm rc file type a acl s) (\<lambda>acl s. apply_entries L rm rc file type as acl s)"

definition update_file ::
  "'k acl_lib \<Rightarrow> bool \<Rightarrow> bool \<Rightarrow> acl_type \<Rightarrow> AccessControlEntry list \<Rightarrow> string \<Rightarrow> 'k acl_state \<Rightarrow>
     ('k acl_state, unit) run" where
  "update_file L rm rc type as file s =
     andThen (lib_call L ''acl_get_file'' s) (\<lambda>_ s.
     andThen (apply_entries L rm rc file type as (file_acl s file type) s) (\<lambda>_ s.
       lib_call L ''acl_free'' s))"

definition delete_default :: "'k acl_lib \<Rightarrow> string \<Rightarrow> 'k acl_state \<Rightarrow> ('k acl_state, unit) run" where
  "delete_default L file s =
     (case lib_fails L ''acl_delete_def_file'' (as_kern s) of
        (Some err, k) \<Rightarrow> acl_errExit (''acl_delete_def_file: '' @ file) err (s\<lparr>as_kern := k\<rparr>)
      | (None, k) \<Rightarrow>
          Done () (s\<lparr>as_kern := k, file_acl := (file_acl s)(file := (file_acl s file)(ACL_TYPE_DEFAULT := []))\<rparr>))"

definition acl_eprint :: "logrec list \<Rightarrow> 'k acl_state \<Rightarrow> 'k acl_state" where
  "acl_eprint ls s = s\<lparr>as_err := as_err s @ ls\<rparr>"

definition acl_usage_lines :: "string \<Rightarrow> logrec list" where
  "acl_usage_lines prog =
     [(''Usage: %s -m acl [-d] [-n] file...'', [S prog]), (''   or: %s -x acl [-d] [-n] file...'', [S prog]),
      (''   or: %s -k file...'', [S prog]), (''   or: %s -V acl'', [S prog]),
      (''      -m  Modify/create ACL entries'', []), (''      -x  Remove ACL entries'', []),
      (''      -k  Remove default ACL'', []),
      (''      -V  Check validity of '' @ [CHR 0x27] @ ''acl'' @ [CHR 0x27], []),
      (''      '' @ [CHR 0x27] @ ''acl'' @ [CHR 0x27] @ '' consists of one or more comma-separated entries of the form:'', []),
      (''                  tag:[qualifier][:[perms]]'', []),
      (''            '' @ [CHR 0x27] @ ''perms'' @ [CHR 0x27] @ '' are specified only for -m'', []),
      (''      -d  Apply operation to default ACL'', []),
      (''      -n  Don'' @ [CHR 0x27] @ ''t recalculate mask entry'', []),
      (''            NOTE: if you specify this option and have specified'', []),
      (''            the -m option, then you may encounter errors if the'', []),
      (''            file does not already have a mask entry.'', [])]"

definition acl_usageError ::
  "string \<Rightarrow> string option \<Rightarrow> bool \<Rightarrow> 'k acl_state \<Rightarrow> ('k acl_state, 'a) run" where
  "acl_usageError prog msg shortUsage s =
     (let s = (case msg of None \<Rightarrow> s | Some m \<Rightarrow> acl_eprint [(m, [])] s)
      in Halt (Exit EXIT_FAILURE)
           (if shortUsage
            then acl_eprint [(''Type '' @ [CHR 0x27] @ ''%s --help'' @ [CHR 0x27] @ '' for usage information'', [S prog])] s
            else acl_eprint (acl_usage_lines prog) s))"

text \<open>The local variables that the option loop of \<^verbatim>\<open>main()\<close> sets.\<close>

record acl_opts =
  recalcMask :: bool
  useDefaultACL :: bool
  modifyACL :: bool
  removeACL :: bool
  removeDefaultACL :: bool
  checkValidity :: bool
  optCnt :: nat
  aclSpec :: string

fun acl_options :: "(char \<times> string) list \<Rightarrow> acl_opts \<Rightarrow> acl_opts option" where
  "acl_options [] w = Some w"
| "acl_options ((c, optarg) # os) w =
     (if c = CHR ''m'' then acl_options os (w\<lparr>modifyACL := True, aclSpec := optarg, optCnt := Suc (optCnt w)\<rparr>)
      else if c = CHR ''x'' then acl_options os (w\<lparr>removeACL := True, aclSpec := optarg, optCnt := Suc (optCnt w)\<rparr>)
      else if c = CHR ''k'' then acl_options os (w\<lparr>removeDefaultACL := True, optCnt := Suc (optCnt w)\<rparr>)
      else if c = CHR ''V'' then acl_options os (w\<lparr>checkValidity := True, aclSpec := optarg, optCnt := Suc (optCnt w)\<rparr>)
      else if c = CHR ''d'' then acl_options os (w\<lparr>useDefaultACL := True\<rparr>)
      else if c = CHR ''n'' then acl_options os (w\<lparr>recalcMask := False\<rparr>)
      else None)"

definition acl_defaults :: acl_opts where
  "acl_defaults = \<lparr>recalcMask = True, useDefaultACL = False, modifyACL = False, removeACL = False,
     removeDefaultACL = False, checkValidity = False, optCnt = 0, aclSpec = []\<rparr>"

text \<open>The operation on one file argument.\<close>

definition process_file ::
  "'k acl_lib \<Rightarrow> acl_opts \<Rightarrow> AccessControlEntry list \<Rightarrow> string \<Rightarrow> 'k acl_state \<Rightarrow> ('k acl_state, unit) run" where
  "process_file L w as file s =
     (if removeDefaultACL w then delete_default L file s
      else if modifyACL w \<or> removeACL w
      then update_file L (removeACL w) (recalcMask w)
             (if useDefaultACL w then ACL_TYPE_DEFAULT else ACL_TYPE_ACCESS) as file s
      else Halt (Exit EXIT_FAILURE) (acl_eprint [(''ERROR: Bad logic!'', [])] s))"

text \<open>
  \<^verbatim>\<open>main()\<close> of \<^verbatim>\<open>acl_update.c\<close>, on the program name, the options that \<^verbatim>\<open>getopt()\<close> returns and the
  file arguments (\<open>help\<close>: no argument, or \<^verbatim>\<open>--help\<close> as the first).
\<close>

definition acl_update_main ::
  "ugid_db \<Rightarrow> 'k acl_lib \<Rightarrow> string \<Rightarrow> bool \<Rightarrow> (char \<times> string) list \<Rightarrow> string list \<Rightarrow> 'k acl_state \<Rightarrow>
     ('k acl_state, unit) run" where
  "acl_update_main db L prog help opts files s =
     (if help then acl_usageError prog None False s
      else case acl_options opts acl_defaults of
        None \<Rightarrow> acl_usageError prog (Some ''Bad option'') True s
      | Some w \<Rightarrow>
          if optCnt w \<noteq> 1 then acl_usageError prog (Some ''Specify exactly one of -m, -x, -k, or -V'') True s
          else if checkValidity w \<and> useDefaultACL w
          then acl_usageError prog (Some (''Can'' @ [CHR 0x27] @ ''t specify -d with -V'')) True s
          else if checkValidity w then
            (case parseACL db (aclSpec w) True of
               Inl msg \<Rightarrow> Halt (Exit EXIT_FAILURE)
                 (acl_eprint [msg, (''ERROR: Bad ACL entry specification'', [])] s)
             | Inr _ \<Rightarrow> Halt (Exit EXIT_SUCCESS) (s\<lparr>as_out := as_out s @ [(''ACL is valid'', [])]\<rparr>))
          else
            (case (if modifyACL w \<or> removeACL w then parseACL db (aclSpec w) (modifyACL w) else Inr []) of
               Inl msg \<Rightarrow> acl_usageError prog (Some ''Bad ACL specification'') True (acl_eprint [msg] s)
             | Inr as \<Rightarrow>
                 andThen (forEach (process_file L w as) files s) (\<lambda>_ s. Halt (Exit EXIT_SUCCESS) s)))"

section \<open>An access control list as a finite map\<close>

text \<open>Entries are keyed by their tag and, for named users and groups, the identifier.\<close>

definition entry_key :: "acl_entry \<Rightarrow> acl_tag \<times> 32 word" where
  "entry_key e = (e_tag e, if has_qual (e_tag e) then e_qual e else 0)"

definition ace_key :: "AccessControlEntry \<Rightarrow> acl_tag \<times> 32 word" where
  "ace_key a = (tag a, qual a)"

definition acl_ok :: "acl \<Rightarrow> bool" where
  "acl_ok acl \<longleftrightarrow> distinct (map entry_key acl)"

definition acl_map :: "acl \<Rightarrow> acl_tag \<times> 32 word \<rightharpoonup> 32 word" where
  "acl_map acl = map_of (map (\<lambda>e. (entry_key e, e_perms e)) acl)"

text \<open>What acl_calc_mask(3) promises: only the mask entry is affected.\<close>

definition mask_law :: "'k acl_lib \<Rightarrow> bool" where
  "mask_law L \<longleftrightarrow>
     (\<forall>acl. acl_ok acl \<longrightarrow> acl_ok (calc_mask L acl) \<and>
        (\<forall>k. fst k \<noteq> ACL_MASK \<longrightarrow> acl_map (calc_mask L acl) k = acl_map acl k))"

lemma find_index_key:
  "find_index (\<lambda>e. entry_key e = k) acl = None \<longleftrightarrow> acl_map acl k = None"
  by (induction acl) (auto simp: acl_map_def)

lemma acl_map_append: "acl_map (acl @ [e]) k =
    (case acl_map acl k of None \<Rightarrow> if entry_key e = k then Some (e_perms e) else None | Some p \<Rightarrow> Some p)"
  by (induction acl) (auto simp: acl_map_def)

lemma acl_ok_append: "acl_ok (acl @ [e]) \<longleftrightarrow> acl_ok acl \<and> acl_map acl (entry_key e) = None"
  by (auto simp: acl_ok_def acl_map_def map_of_eq_None_iff image_image)

lemma acl_map_set_perms:
  assumes "acl_ok acl" "i < length acl" "entry_key (acl ! i) = k"
  shows "acl_map (acl[i := (acl ! i)\<lparr>e_perms := p\<rparr>]) = (acl_map acl)(k \<mapsto> p)"
    and "acl_ok (acl[i := (acl ! i)\<lparr>e_perms := p\<rparr>])"
proof -
  have key: "entry_key (e\<lparr>e_perms := p\<rparr>) = entry_key e" for e by (simp add: entry_key_def)
  have keys: "map entry_key (acl[i := (acl ! i)\<lparr>e_perms := p\<rparr>]) = map entry_key acl"
    using assms(2) by (simp add: map_update key list_update_same_conv)
  then show "acl_ok (acl[i := (acl ! i)\<lparr>e_perms := p\<rparr>])" using assms(1) by (simp add: acl_ok_def)
  show "acl_map (acl[i := (acl ! i)\<lparr>e_perms := p\<rparr>]) = (acl_map acl)(k \<mapsto> p)"
    using assms
  proof (induction acl arbitrary: i)
    case (Cons e acl)
    then show ?case
    proof (cases i)
      case 0
      with Cons.prems show ?thesis by (auto simp: acl_map_def key fun_eq_iff)
    next
      case (Suc j)
      with Cons.prems have ne: "entry_key e \<noteq> k" by (auto simp: acl_ok_def)
      have "acl_map (acl[j := (acl ! j)\<lparr>e_perms := p\<rparr>]) = (acl_map acl)(k \<mapsto> p)"
        by (rule Cons.IH) (use Cons.prems Suc in \<open>simp_all add: acl_ok_def\<close>)
      moreover have "acl_map (x # xs) = (acl_map xs)(entry_key x \<mapsto> e_perms x)" for x xs
        by (simp add: acl_map_def)
      ultimately show ?thesis using fun_upd_twist [OF ne, of "acl_map acl"] Suc
        by (simp only: list_update.simps nat.case nth_Cons_Suc)
    qed
  qed simp
qed

lemma acl_map_delete:
  assumes "acl_ok acl" "i < length acl" "entry_key (acl ! i) = k"
  shows "acl_map (take i acl @ drop (Suc i) acl) = (acl_map acl)(k := None)"
    and "acl_ok (take i acl @ drop (Suc i) acl)"
proof -
  have split: "acl = take i acl @ acl ! i # drop (Suc i) acl" using assms(2) by (rule id_take_nth_drop)
  let ?rest = "take i acl @ drop (Suc i) acl"
  have "distinct (map entry_key (take i acl @ acl ! i # drop (Suc i) acl))"
    using assms(1) split by (simp add: acl_ok_def)
  then have d: "acl_ok ?rest" "k \<notin> entry_key ` set ?rest"
    using assms(3) by (auto simp: acl_ok_def)
  then show "acl_ok ?rest" by simp
  have none: "acl_map ?rest k = None"
    using d(2) by (auto simp: acl_map_def map_of_eq_None_iff image_image image_Un)
  have "acl_map acl k' = acl_map ?rest k'" if "k' \<noteq> k" for k'
  proof -
    have "acl_map (xs @ e # ys) k' = acl_map (xs @ ys) k'" if "entry_key e \<noteq> k'" for xs e ys
      using that by (simp add: acl_map_def map_add_def split: option.split)
    then show ?thesis using assms(3) that split by metis
  qed
  with none show "acl_map ?rest = (acl_map acl)(k := None)" by (auto simp: fun_eq_iff)
qed

section \<open>Updating is updating the map\<close>

abbreviation same_files :: "'k acl_state \<Rightarrow> 'k acl_state \<Rightarrow> bool" where
  "same_files s t \<equiv> file_acl t = file_acl s"

text \<open>A run that touches no file, and fails only by exiting.\<close>

abbreviation calm :: "('k acl_state) \<Rightarrow> ('a \<Rightarrow> bool) \<Rightarrow> ('k acl_state, 'a) run \<Rightarrow> bool" where
  "calm s Q \<equiv> holds (\<lambda>a t. Q a \<and> same_files s t) (\<lambda>h t. h = Exit EXIT_FAILURE \<and> same_files s t)"

lemma calm_andThen:
  "calm s Q r \<Longrightarrow> (\<And>a t. Q a \<Longrightarrow> same_files s t \<Longrightarrow> calm s R (f a t)) \<Longrightarrow> calm s R (andThen r f)"
  by (cases r) auto

lemma lib_call_calm: "same_files s t \<Longrightarrow> calm s (\<lambda>_. True) (lib_call L f t)"
  by (simp add: lib_call_def acl_errExit_def split: prod.split option.split)

lemma find_entry_from_calm:
  assumes "\<not> has_qual t \<longrightarrow> q = 0" "same_files s u"
  shows "calm s (\<lambda>r. r = map_option (\<lambda>j. i + j) (find_index (\<lambda>e. entry_key e = (t, q)) acl))
           (find_entry_from L i acl t q u)"
  using assms(2)
proof (induction acl arbitrary: i u)
  case Nil
  then show ?case by (auto intro!: calm_andThen [OF lib_call_calm])
next
  case (Cons e acl)
  have shift: "map_option ((+) i) (map_option Suc r) = map_option ((+) (Suc i)) r" for r :: "nat option"
    by (cases r) auto
  have hq: "has_qual t \<longleftrightarrow> t = ACL_USER \<or> t = ACL_GROUP" for t by (simp add: has_qual_def)
  have IH: "calm s (\<lambda>r. r = map_option ((+) (Suc i)) (find_index (\<lambda>e. entry_key e = (t, q)) acl))
      (find_entry_from L (Suc i) acl t q u)" if "same_files s u" for u
    using Cons.IH [OF that] .
  show ?case
    unfolding find_entry_from.simps
    using Cons.prems assms(1) IH
    by (intro calm_andThen [OF lib_call_calm] holds_if)
      (auto simp: entry_key_def shift hq intro!: calm_andThen [OF lib_call_calm] split: if_splits)
qed

lemma setPerms_calm:
  assumes "ps < 8" "same_files s u"
  shows "calm s (\<lambda>e'. e' = e\<lparr>e_perms := ps\<rparr>) (setPerms L e ps u)"
proof -
  have add: "calm s (\<lambda>p'. p' = (if ps AND b \<noteq> 0 then p OR b else p)) (add_perm L ps b p t)"
    if "same_files s t" for p b t
    using that by (auto simp: add_perm_def intro!: calm_andThen [OF lib_call_calm])
  have eval: "p3 = ps" if "p1 = (if ps AND 4 \<noteq> 0 then 0 OR 4 else 0)" "p2 = (if ps AND 2 \<noteq> 0 then p1 OR 2 else p1)"
      "p3 = (if ps AND 1 \<noteq> 0 then p2 OR 1 else p2)" for p1 p2 p3
    using word_lt_8 [OF assms(1)] that by auto
  show ?thesis
    unfolding setPerms_def using assms(2) eval
    by (intro calm_andThen [OF lib_call_calm] calm_andThen [OF add]) simp_all
qed

lemma create_entry_calm:
  assumes "ace_ok b a" "same_files s u"
  shows "calm s (\<lambda>e. entry_key e = ace_key a) (create_entry L a u)"
  using assms unfolding create_entry_def
  by (intro calm_andThen [OF lib_call_calm] holds_if)
    (auto simp: entry_key_def ace_key_def has_qual_def ace_ok_def intro!: calm_andThen [OF lib_call_calm])

text \<open>The map after one specification entry, and after a list of them.\<close>

definition upd_entry :: "bool \<Rightarrow> AccessControlEntry \<Rightarrow> (acl_tag \<times> 32 word \<rightharpoonup> 32 word) \<Rightarrow> acl_tag \<times> 32 word \<rightharpoonup> 32 word" where
  "upd_entry rm a m = m(ace_key a := (if rm then None else perms a))"

text \<open>Equality of maps, the mask aside if it is recalculated.\<close>

definition agree :: "bool \<Rightarrow> (acl_tag \<times> 32 word \<rightharpoonup> 32 word) \<Rightarrow> (acl_tag \<times> 32 word \<rightharpoonup> 32 word) \<Rightarrow> bool" where
  "agree rc m m' \<longleftrightarrow> (\<forall>k. rc \<longrightarrow> fst k \<noteq> ACL_MASK \<longrightarrow> m k = m' k) \<and> (\<not> rc \<longrightarrow> m = m')"

lemma agree_refl: "agree rc m m" by (simp add: agree_def)

lemma agree_trans: "agree rc m m' \<Longrightarrow> agree rc m' m'' \<Longrightarrow> agree rc m m''"
  by (auto simp: agree_def)

lemma agree_upd: "agree rc m m' \<Longrightarrow> agree rc (upd_entry rm a m) (upd_entry rm a m')"
  by (auto simp: agree_def upd_entry_def)

lemma agree_fold: "agree rc m m' \<Longrightarrow> agree rc (fold (upd_entry rm) as m) (fold (upd_entry rm) as m')"
  by (induction as arbitrary: m m') (auto intro: agree_upd)

text \<open>Only one list of one file may differ.\<close>

definition only_file :: "string \<Rightarrow> acl_type \<Rightarrow> 'k acl_state \<Rightarrow> 'k acl_state \<Rightarrow> bool" where
  "only_file file ty s t \<longleftrightarrow> (\<forall>f y. (f, y) \<noteq> (file, ty) \<longrightarrow> file_acl t f y = file_acl s f y)"

lemma only_file_trans: "only_file f y s t \<Longrightarrow> only_file f y t u \<Longrightarrow> only_file f y s u"
  by (auto simp: only_file_def)

lemma only_file_same: "file_acl t = file_acl s \<Longrightarrow> only_file f y s t"
  by (simp add: only_file_def)

text \<open>The in-memory change of \<^verbatim>\<open>acl_delete_entry()\<close>, or of creating and setting an entry.\<close>

lemma change_entry_calm:
  assumes ok: "acl_ok acl" and a: "ace_ok (\<not> rm) a" and u: "same_files s u"
    and entry: "entry = find_index (\<lambda>e. entry_key e = ace_key a) acl"
  shows "calm s (\<lambda>acl'. acl_ok acl' \<and> acl_map acl' = upd_entry rm a (acl_map acl))
    (if rm then
       (case entry of
          None \<Rightarrow> Done acl u
        | Some i \<Rightarrow> andThen (lib_call L ''acl_delete_entry'' u) (\<lambda>_ s. Done (take i acl @ drop (Suc i) acl) s))
     else
       (case entry of
          Some i \<Rightarrow> andThen (setPerms L (acl ! i) (the (perms a)) u) (\<lambda>e s. Done (acl[i := e]) s)
        | None \<Rightarrow>
            andThen (create_entry L a u) (\<lambda>e s.
            andThen (setPerms L e (the (perms a)) s) (\<lambda>e s. Done (acl @ [e]) s))))"
proof (cases entry)
  case None
  then have none: "acl_map acl (ace_key a) = None" unfolding entry find_index_key .
  show ?thesis
  proof (cases rm)
    case True
    then show ?thesis using None none ok u by (auto simp: upd_entry_def fun_eq_iff)
  next
    case False
    then obtain p where p: "perms a = Some p" "p < 8" using a by (auto simp: ace_ok_def split: option.splits)
    have key: "entry_key (e\<lparr>e_perms := p\<rparr>) = entry_key e" for e by (simp add: entry_key_def)
    have "acl_ok (acl @ [e\<lparr>e_perms := p\<rparr>]) \<and>
        acl_map (acl @ [e\<lparr>e_perms := p\<rparr>]) = upd_entry rm a (acl_map acl)"
      if "entry_key e = ace_key a" for e
      using that none ok False p
      by (auto simp: acl_ok_append key upd_entry_def acl_map_append fun_eq_iff split: option.split)
    note new = this
    have "calm s (\<lambda>acl'. acl_ok acl' \<and> acl_map acl' = upd_entry rm a (acl_map acl))
        (andThen (create_entry L a u) (\<lambda>e s. andThen (setPerms L e p s) (\<lambda>e s. Done (acl @ [e]) s)))"
      by (rule calm_andThen [OF create_entry_calm [OF a u]], rule calm_andThen [OF setPerms_calm [OF p(2)]])
        (simp_all add: new)
    then show ?thesis using None False p by simp
  qed
next
  case (Some i)
  then have i: "i < length acl" "entry_key (acl ! i) = ace_key a"
    using find_index_Some [of _ acl i] unfolding entry by auto
  show ?thesis
  proof (cases rm)
    case True
    have "calm s (\<lambda>acl'. acl_ok acl' \<and> acl_map acl' = upd_entry rm a (acl_map acl))
        (andThen (lib_call L ''acl_delete_entry'' u) (\<lambda>_ s. Done (take i acl @ drop (Suc i) acl) s))"
      by (rule calm_andThen [OF lib_call_calm [OF u]])
        (simp add: acl_map_delete [OF ok i] upd_entry_def True)
    then show ?thesis using Some True by simp
  next
    case False
    then obtain p where p: "perms a = Some p" "p < 8" using a by (auto simp: ace_ok_def split: option.splits)
    have "calm s (\<lambda>acl'. acl_ok acl' \<and> acl_map acl' = upd_entry rm a (acl_map acl))
        (andThen (setPerms L (acl ! i) p u) (\<lambda>e s. Done (acl[i := e]) s))"
      by (rule calm_andThen [OF setPerms_calm [OF p(2) u]])
        (simp add: acl_map_set_perms [OF ok i] upd_entry_def False p)
    then show ?thesis using Some False p by simp
  qed
qed

lemma apply_entry_spec:
  fixes s :: "'k acl_state"
  assumes "rc \<longrightarrow> mask_law L" "acl_ok acl" "ace_ok (\<not> rm) a"
  shows "holds (\<lambda>acl' t. acl_ok acl' \<and> agree rc (acl_map acl') (upd_entry rm a (acl_map acl)) \<and>
              file_acl t file ty = acl' \<and> only_file file ty s t)
           (\<lambda>h t. h = Exit EXIT_FAILURE \<and> file_acl t = file_acl s) (apply_entry L rm rc file ty a acl s)"
proof -
  let ?m = "upd_entry rm a (acl_map acl)"
  have find: "calm s (\<lambda>r. r = find_index (\<lambda>e. entry_key e = ace_key a) acl) (findEntry L acl (tag a) (qual a) s)"
    using find_entry_from_calm [of "tag a" "qual a" s s 0 acl L] assms(3)
    by (simp add: findEntry_def ace_key_def ace_ok_def option.map_id0 [unfolded id_def] split: if_splits)
  have mask: "calm s (\<lambda>acl'. acl_ok acl' \<and> agree rc (acl_map acl') ?m)
      (if rc then andThen (lib_call L ''acl_calc_mask'' u) (\<lambda>_ s. Done (calc_mask L acl1) s) else Done acl1 u)"
    if "acl_ok acl1" "acl_map acl1 = ?m" "same_files s u" for acl1 and u :: "'k acl_state"
    using that assms(1) by (auto simp: agree_def mask_law_def intro!: holds_andThen [OF lib_call_calm])
  show ?thesis
    unfolding apply_entry_def
    apply (rule holds_andThen [OF find])
    apply (rule holds_andThen)
     apply (rule change_entry_calm [OF assms(2,3)], simp, simp)
    apply (rule holds_andThen)
     apply (rule mask, simp, simp, simp)
    apply (rule holds_if, simp add: acl_errExit_def)
    apply (rule holds_andThen [OF lib_call_calm], simp)
    apply (simp add: only_file_def)
    done
qed

lemma apply_entries_spec:
  fixes s :: "'k acl_state"
  assumes "rc \<longrightarrow> mask_law L" "acl_ok acl" "\<forall>a\<in>set as. ace_ok (\<not> rm) a" "file_acl s file ty = acl"
  shows "holds (\<lambda>acl' t. acl_ok acl' \<and> agree rc (acl_map acl') (fold (upd_entry rm) as (acl_map acl)) \<and>
              file_acl t file ty = acl' \<and> only_file file ty s t)
           (\<lambda>h t. h = Exit EXIT_FAILURE \<and> only_file file ty s t) (apply_entries L rm rc file ty as acl s)"
  using assms(2-)
proof (induction as arbitrary: acl s)
  case Nil
  then show ?case by (simp add: agree_refl only_file_def)
next
  case (Cons a as)
  have 1: "holds (\<lambda>acl' t. acl_ok acl' \<and> agree rc (acl_map acl') (upd_entry rm a (acl_map acl)) \<and>
              file_acl t file ty = acl' \<and> only_file file ty s t)
           (\<lambda>h t. h = Exit EXIT_FAILURE \<and> only_file file ty s t) (apply_entry L rm rc file ty a acl s)"
    by (rule holds_weaken [OF apply_entry_spec]) (use Cons.prems assms(1) in \<open>auto intro: only_file_same\<close>)
  show ?case
    unfolding apply_entries.simps
  proof (rule holds_andThen [OF 1], elim conjE)
    fix acl' t
    assume t: "acl_ok acl'" "agree rc (acl_map acl') (upd_entry rm a (acl_map acl))"
      "file_acl t file ty = acl'" "only_file file ty s t"
    show "holds (\<lambda>acl' t. acl_ok acl' \<and> agree rc (acl_map acl') (fold (upd_entry rm) (a # as) (acl_map acl)) \<and>
              file_acl t file ty = acl' \<and> only_file file ty s t)
           (\<lambda>h t. h = Exit EXIT_FAILURE \<and> only_file file ty s t) (apply_entries L rm rc file ty as acl' t)"
      by (rule holds_weaken [OF Cons.IH [OF t(1) _ t(3)]])
        (use Cons.prems t in \<open>auto intro: agree_trans [OF _ agree_fold] only_file_trans\<close>)
  qed
qed

lemma update_file_spec:
  fixes s :: "'k acl_state"
  assumes "rc \<longrightarrow> mask_law L" "acl_ok (file_acl s file ty)" "\<forall>a\<in>set as. ace_ok (\<not> rm) a"
  shows "holds (\<lambda>_ t. acl_ok (file_acl t file ty) \<and> only_file file ty s t \<and>
              agree rc (acl_map (file_acl t file ty)) (fold (upd_entry rm) as (acl_map (file_acl s file ty))))
           (\<lambda>h t. h = Exit EXIT_FAILURE \<and> only_file file ty s t) (update_file L rm rc ty as file s)"
proof -
  let ?as0 = "acl_map (file_acl s file ty)"
  let ?E = "\<lambda>h t. h = Exit EXIT_FAILURE \<and> only_file file ty s t"
  have get: "holds (\<lambda>_ t. file_acl t = file_acl s) ?E (lib_call L f s)" for f
    by (rule holds_weaken [OF lib_call_calm [of s s]]) (auto intro: only_file_same)
  have loop: "holds (\<lambda>acl' t. acl_ok acl' \<and> agree rc (acl_map acl') (fold (upd_entry rm) as ?as0) \<and>
        file_acl t file ty = acl' \<and> only_file file ty s t) ?E
      (apply_entries L rm rc file ty as (file_acl u file ty) u)" if u: "file_acl u = file_acl s" for u :: "'k acl_state"
    using apply_entries_spec [OF assms(1) _ assms(3) refl, of u "file" ty] assms(2)
    by (simp add: u only_file_def)
  have free: "holds (\<lambda>_ t. acl_ok (file_acl t file ty) \<and> only_file file ty s t \<and>
        agree rc (acl_map (file_acl t file ty)) (fold (upd_entry rm) as ?as0)) ?E (lib_call L f u)"
    if "acl_ok (file_acl u file ty)" "only_file file ty s u"
      "agree rc (acl_map (file_acl u file ty)) (fold (upd_entry rm) as ?as0)" for f and u :: "'k acl_state"
    by (rule holds_weaken [OF lib_call_calm [of u u]]) (use that in \<open>auto simp: only_file_def\<close>)
  show ?thesis
    unfolding update_file_def
  proof (rule holds_andThen [OF get])
    fix a and u :: "'k acl_state"
    assume u: "file_acl u = file_acl s"
    show "holds (\<lambda>_ t. acl_ok (file_acl t file ty) \<and> only_file file ty s t \<and>
        agree rc (acl_map (file_acl t file ty)) (fold (upd_entry rm) as ?as0)) ?E
        (andThen (apply_entries L rm rc file ty as (file_acl u file ty) u) (\<lambda>_. lib_call L ''acl_free''))"
      by (rule holds_andThen [OF loop [OF u]]) (rule free; simp)
  qed
qed

lemma update_files_spec:
  fixes s :: "'k acl_state"
  assumes "rc \<longrightarrow> mask_law L" "\<forall>a\<in>set as. ace_ok (\<not> rm) a"
    and "distinct files" "\<forall>f\<in>set files. acl_ok (file_acl s f ty)"
  shows "holds
    (\<lambda>_ t. \<forall>f y. if f \<in> set files \<and> y = ty
       then acl_ok (file_acl t f y) \<and>
            agree rc (acl_map (file_acl t f y)) (fold (upd_entry rm) as (acl_map (file_acl s f y)))
       else file_acl t f y = file_acl s f y)
    (\<lambda>h t. h = Exit EXIT_FAILURE \<and> (\<forall>f y. f \<notin> set files \<or> y \<noteq> ty \<longrightarrow> file_acl t f y = file_acl s f y))
    (forEach (update_file L rm rc ty as) files s)"
  using assms(3,4)
proof (induction files arbitrary: s)
  case (Cons g files)
  let ?E = "\<lambda>h t. h = Exit EXIT_FAILURE \<and> (\<forall>f y. f \<notin> set (g # files) \<or> y \<noteq> ty \<longrightarrow> file_acl t f y = file_acl s f y)"
  have first: "holds (\<lambda>_ t. acl_ok (file_acl t g ty) \<and> only_file g ty s t \<and>
        agree rc (acl_map (file_acl t g ty)) (fold (upd_entry rm) as (acl_map (file_acl s g ty)))) ?E
      (update_file L rm rc ty as g s)"
    by (rule holds_weaken [OF update_file_spec [OF assms(1) _ assms(2)]])
      (use Cons.prems in \<open>auto simp: only_file_def\<close>)
  show ?case
    unfolding forEach.simps
  proof (rule holds_andThen [OF first], elim conjE)
    fix u :: "'k acl_state" and x
    assume u: "acl_ok (file_acl u g ty)" "only_file g ty s u"
      "agree rc (acl_map (file_acl u g ty)) (fold (upd_entry rm) as (acl_map (file_acl s g ty)))"
    have same: "file_acl u f y = file_acl s f y" if "f \<noteq> g \<or> y \<noteq> ty" for f y
      using u(2) that by (auto simp: only_file_def)
    have "\<forall>f\<in>set files. acl_ok (file_acl u f ty)" using Cons.prems same by (metis distinct.simps(2) list.set_intros(2))
    from Cons.IH [OF _ this] Cons.prems(1)
    have rest: "holds (\<lambda>_ t. \<forall>f y. if f \<in> set files \<and> y = ty
       then acl_ok (file_acl t f y) \<and>
            agree rc (acl_map (file_acl t f y)) (fold (upd_entry rm) as (acl_map (file_acl u f y)))
       else file_acl t f y = file_acl u f y)
      (\<lambda>h t. h = Exit EXIT_FAILURE \<and> (\<forall>f y. f \<notin> set files \<or> y \<noteq> ty \<longrightarrow> file_acl t f y = file_acl u f y))
      (forEach (update_file L rm rc ty as) files u)" by simp
    have out: "g \<notin> set files" using Cons.prems(1) by simp
    show "holds (\<lambda>_ t. \<forall>f y. if f \<in> set (g # files) \<and> y = ty
       then acl_ok (file_acl t f y) \<and>
            agree rc (acl_map (file_acl t f y)) (fold (upd_entry rm) as (acl_map (file_acl s f y)))
       else file_acl t f y = file_acl s f y) ?E (forEach (update_file L rm rc ty as) files u)"
    proof (rule holds_weaken [OF rest], intro allI)
      fix t :: "'k acl_state" and f y and x :: unit
      assume t: "\<forall>f y. if f \<in> set files \<and> y = ty
        then acl_ok (file_acl t f y) \<and>
             agree rc (acl_map (file_acl t f y)) (fold (upd_entry rm) as (acl_map (file_acl u f y)))
        else file_acl t f y = file_acl u f y"
      note t = t [rule_format, of f y]
      show "if f \<in> set (g # files) \<and> y = ty
       then acl_ok (file_acl t f y) \<and>
            agree rc (acl_map (file_acl t f y)) (fold (upd_entry rm) as (acl_map (file_acl s f y)))
       else file_acl t f y = file_acl s f y"
        using t u(1,3) out same [of f y] by (cases "f = g"; cases "y = ty") (simp_all split: if_splits)
    next
      show "\<And>h t. h = Exit EXIT_FAILURE \<and> (\<forall>f y. f \<notin> set files \<or> y \<noteq> ty \<longrightarrow> file_acl t f y = file_acl u f y) \<Longrightarrow> ?E h t"
        using same by auto
    qed
  qed
qed simp

section \<open>The program acl\_view\<close>

definition view_tag :: "acl_tag \<Rightarrow> string" where
  "view_tag t =
     (if t = ACL_USER_OBJ then ''user_obj'' else if t = ACL_USER then ''user''
      else if t = ACL_GROUP_OBJ then ''group_obj'' else if t = ACL_GROUP then ''group''
      else if t = ACL_MASK then ''mask'' else if t = ACL_OTHER then ''other'' else ''???'')"

definition acl_print :: "string \<Rightarrow> farg list \<Rightarrow> 'k acl_state \<Rightarrow> 'k acl_state" where
  "acl_print fmt as s = s\<lparr>as_out := as_out s @ [(fmt, as)]\<rparr>"

text \<open>The qualifier column; \<^verbatim>\<open>%-8d\<close> prints the identifier as a signed number.\<close>

definition view_qualifier :: "'k acl_lib \<Rightarrow> ugid_db \<Rightarrow> acl_entry \<Rightarrow> 'k acl_state \<Rightarrow> ('k acl_state, unit) run" where
  "view_qualifier L db e s =
     (if e_tag e = ACL_USER \<or> e_tag e = ACL_GROUP then
        andThen (lib_call L ''acl_get_qualifier'' s) (\<lambda>_ s.
          let name = (if e_tag e = ACL_USER then userNameFromId db (e_qual e) else groupNameFromId db (e_qual e));
              s = (case name of None \<Rightarrow> acl_print ''%-8d '' [I (sint (e_qual e))] s
                   | Some n \<Rightarrow> acl_print ''%-8s '' [S n] s)
          in lib_call L ''acl_free'' s)
      else Done () (acl_print ''         '' [] s))"

definition view_perm ::
  "'k acl_lib \<Rightarrow> acl_entry \<Rightarrow> 32 word \<Rightarrow> char \<Rightarrow> string \<Rightarrow> 'k acl_state \<Rightarrow> ('k acl_state, unit) run" where
  "view_perm L e b c msg s =
     (case lib_fails L ''acl_get_perm'' (as_kern s) of
        (Some err, k) \<Rightarrow> acl_errExit msg err (s\<lparr>as_kern := k\<rparr>)
      | (None, k) \<Rightarrow> Done () (acl_print ''%c'' [S [if e_perms e AND b \<noteq> 0 then c else CHR ''-'']] (s\<lparr>as_kern := k\<rparr>)))"

text \<open>The loop over the entries: it ends at the last entry, or when \<^verbatim>\<open>acl_get_entry()\<close> fails.\<close>

fun view_entries :: "'k acl_lib \<Rightarrow> ugid_db \<Rightarrow> acl \<Rightarrow> 'k acl_state \<Rightarrow> ('k acl_state, unit) run" where
  "view_entries L db [] s = Done () (s\<lparr>as_kern := snd (lib_fails L ''acl_get_entry'' (as_kern s))\<rparr>)"
| "view_entries L db (e # es) s =
     (case lib_fails L ''acl_get_entry'' (as_kern s) of
        (Some _, k) \<Rightarrow> Done () (s\<lparr>as_kern := k\<rparr>)
      | (None, k) \<Rightarrow>
          andThen (lib_call L ''acl_get_tag_type'' (s\<lparr>as_kern := k\<rparr>)) (\<lambda>_ s.
          andThen (view_qualifier L db e (acl_print ''%-12s'' [S (view_tag (e_tag e))] s)) (\<lambda>_ s.
          andThen (lib_call L ''acl_get_permset'' s) (\<lambda>_ s.
          andThen (view_perm L e ACL_READ CHR ''r'' ''acl_get_perm - ACL_READ'' s) (\<lambda>_ s.
          andThen (view_perm L e ACL_WRITE CHR ''w'' ''acl_get_perm - ACL_WRITE'' s) (\<lambda>_ s.
          andThen (view_perm L e ACL_EXECUTE CHR ''x'' ''acl_get_perm - ACL_EXECUTE'' s) (\<lambda>_ s.
            view_entries L db es (acl_print [CHR 0x0A] [] s))))))))"

definition acl_view_usage :: "string \<Rightarrow> 'k acl_state \<Rightarrow> ('k acl_state, 'a) run" where
  "acl_view_usage prog s = Halt (Exit EXIT_FAILURE) (acl_eprint [(''Usage: %s [-d] filename'', [S prog])] s)"

definition acl_view_main ::
  "'k acl_lib \<Rightarrow> ugid_db \<Rightarrow> string \<Rightarrow> char list \<Rightarrow> string list \<Rightarrow> 'k acl_state \<Rightarrow> ('k acl_state, unit) run" where
  "acl_view_main L db prog opts args s =
     (if \<exists>c\<in>set opts. c \<noteq> CHR ''d'' then acl_view_usage prog s
      else case args of
        [file] \<Rightarrow>
          andThen (lib_call L ''acl_get_file'' s) (\<lambda>_ s.
          andThen (view_entries L db
             (file_acl s file (if opts = [] then ACL_TYPE_ACCESS else ACL_TYPE_DEFAULT)) s) (\<lambda>_ s.
          andThen (lib_call L ''acl_free'' s) (\<lambda>_ s. Halt (Exit EXIT_SUCCESS) s)))
      | _ \<Rightarrow> acl_view_usage prog s)"

text \<open>What is printed for an entry.\<close>

definition view_lines :: "ugid_db \<Rightarrow> acl_entry \<Rightarrow> logrec list" where
  "view_lines db e =
     [(''%-12s'', [S (view_tag (e_tag e))]),
      (if has_qual (e_tag e) then
         case (if e_tag e = ACL_USER then getpwuid db (e_qual e) else getgrgid db (e_qual e)) of
           None \<Rightarrow> (''%-8d '', [I (sint (e_qual e))]) | Some n \<Rightarrow> (''%-8s '', [S n])
       else (''         '', []))] @
     map (\<lambda>c. (''%c'', [S [c]])) (perm_chars (e_perms e)) @ [([CHR 0x0A], [])]"

section \<open>Correctness of the programs\<close>

text \<open>A library without failures, whose mask is the union of the group-class permissions.\<close>

definition demo_mask :: "acl \<Rightarrow> acl" where
  "demo_mask acl =
     filter (\<lambda>e. e_tag e \<noteq> ACL_MASK) acl @
     [\<lparr>e_tag = ACL_MASK, e_qual = 0,
       e_perms = fold (\<lambda>e p. if e_tag e \<in> {ACL_USER, ACL_GROUP_OBJ, ACL_GROUP} then p OR e_perms e else p) acl 0\<rparr>]"

definition demo_acl_lib :: "unit acl_lib" where
  "demo_acl_lib = \<lparr>lib_fails = \<lambda>_ k. (None, k), calc_mask = demo_mask, valid_acl = \<lambda>_. True\<rparr>"

definition demo_acl_state :: "unit acl_state" where
  "demo_acl_state =
     \<lparr>file_acl = \<lambda>_ ty. if ty = ACL_TYPE_DEFAULT then [] else
        [\<lparr>e_tag = ACL_USER_OBJ, e_qual = 0, e_perms = 6\<rparr>, \<lparr>e_tag = ACL_USER, e_qual = 1000, e_perms = 7\<rparr>,
         \<lparr>e_tag = ACL_GROUP_OBJ, e_qual = 0, e_perms = 4\<rparr>, \<lparr>e_tag = ACL_MASK, e_qual = 0, e_perms = 7\<rparr>,
         \<lparr>e_tag = ACL_OTHER, e_qual = 0, e_perms = 0\<rparr>],
      as_out = [], as_err = [], as_kern = ()\<rparr>"

definition demo_db :: ugid_db where
  "demo_db = \<lparr>getpwuid = \<lambda>u. if u = 0 then Some ''root'' else None, getpwnam = \<lambda>n. if n = ''root'' then Some 0 else None,
     getgrgid = \<lambda>_. None, getgrnam = \<lambda>_. None\<rparr>"

lemma acl_ok_filter: "acl_ok acl \<Longrightarrow> acl_ok (filter P acl)"
  by (simp add: acl_ok_def distinct_map_filter)

lemma demo_mask_law: "mask_law demo_acl_lib"
proof -
  have other: "acl_map (filter (\<lambda>e. e_tag e \<noteq> ACL_MASK) acl) k = (if fst k = ACL_MASK then None else acl_map acl k)"
    for acl k
    by (induction acl) (auto simp: acl_map_def entry_key_def)
  show ?thesis
    unfolding mask_law_def demo_acl_lib_def demo_mask_def
    by (simp add: acl_ok_append acl_ok_filter acl_map_append other entry_key_def split: option.split)
qed

text \<open>C20: parsing an ACL specification inverts printing it, for named and obligatory entries with any
  permissions, with or without permission fields, up to the table size of the program.\<close>
theorem parseACL_roundtrip:
  assumes "as \<noteq> []" "length as \<le> MAX_ENTRIES" "\<forall>a\<in>set as. ace_ok permsReqd a"
  shows "parseACL db (acl_string as) permsReqd = Inr as"
  using parse_acl_string [of as permsReqd 0 db] assms by (simp add: parseACL_def)

theorem parseACL_roundtrip_witness:
  "parseACL demo_db (acl_string [\<lparr>tag = ACL_USER, qual = 1000, perms = Some 6\<rparr>, \<lparr>tag = ACL_OTHER, qual = 0, perms = Some 1\<rparr>]) True =
     Inr [\<lparr>tag = ACL_USER, qual = 1000, perms = Some 6\<rparr>, \<lparr>tag = ACL_OTHER, qual = 0, perms = Some 1\<rparr>]"
  by (rule parseACL_roundtrip) (simp_all add: ace_ok_def has_qual_def)

text \<open>C21: an accepted specification, whatever the text, gives between one entry and the table size, and every
  entry is well formed: a known tag, a valid identifier exactly for named users and groups, and three permission
  bits exactly when permissions are required. The table of the program is never overrun.\<close>
theorem parseACL_wellformed:
  assumes "parseACL db str permsReqd = Inr as"
  shows "1 \<le> length as \<and> length as \<le> MAX_ENTRIES \<and> list_all (ace_ok permsReqd) as"
  using parse_entries_ok [of db 0 str permsReqd as] assms by (cases as) (simp_all add: parseACL_def list_all_iff)

theorem parseACL_wellformed_witness:
  "1 \<le> length [\<lparr>tag = ACL_USER, qual = 0, perms = Some 4\<rparr>] \<and>
   length [\<lparr>tag = ACL_USER, qual = 0, perms = Some 4\<rparr>] \<le> MAX_ENTRIES \<and>
   list_all (ace_ok True) [\<lparr>tag = ACL_USER, qual = 0, perms = Some 4\<rparr>]"
  by (rule parseACL_wellformed [of demo_db "''u:root:r''"]) code_simp



text \<open>A numeric user or group name is not range checked. A number outside 32 bits denotes the identifier it is
  congruent to modulo 2^32, a number above the range of long the error value, and a number below it identifier 0,
  the superuser.\<close>
theorem numeric_ids_wrap:
  "userIdFromName db (Some (decimal_int v)) =
     (if LONG_MAX < v then -1 else if v < LONG_MIN then 0 else word_of_int v) \<and>
   groupIdFromName db (Some (decimal_int v)) =
     (if LONG_MAX < v then -1 else if v < LONG_MIN then 0 else word_of_int v)"
proof -
  have st: "strtol (decimal_int v) 10 = (clamp_long v, [], clamp_long v \<noteq> v)"
    by (rule strtol_denotes [OF denotes_decimal_int])
  have ne: "decimal_int v \<noteq> []" by (simp add: decimal_int_def)
  have "word_of_int LONG_MAX = (-1 :: 32 word)" "word_of_int LONG_MIN = (0 :: 32 word)"
    by (simp_all add: LONG_MAX_def LONG_MIN_def)
  with st ne show ?thesis by (simp add: userIdFromName_def groupIdFromName_def clamp_long_def)
qed

text \<open>A run that returns, having printed some records and touched no file.\<close>

abbreviation prints :: "'k acl_state \<Rightarrow> logrec list \<Rightarrow> ('k acl_state, 'a) run \<Rightarrow> bool" where
  "prints s xs \<equiv> holds (\<lambda>_ t. as_out t = as_out s @ xs \<and> file_acl t = file_acl s) (\<lambda>_ _. False)"

lemma prints_andThen:
  "prints s xs r \<Longrightarrow> (\<And>a t. file_acl t = file_acl s \<Longrightarrow> prints t ys (f a t)) \<Longrightarrow> zs = xs @ ys \<Longrightarrow> prints s zs (andThen r f)"
proof (cases r)
  case (Done a t)
  assume "prints s xs r" and f: "\<And>a t. file_acl t = file_acl s \<Longrightarrow> prints t ys (f a t)" and zs: "zs = xs @ ys"
  with Done have t: "as_out t = as_out s @ xs" "file_acl t = file_acl s" by auto
  show ?thesis
    unfolding Done andThen.simps by (rule holds_weaken [OF f [OF t(2)]]) (use t zs in auto)
qed simp

lemma prints_after:
  "prints (acl_print fmt as s) ys r \<Longrightarrow> prints s ((fmt, as) # ys) r"
  by (erule holds_weaken) (auto simp: acl_print_def)

lemma lib_call_prints:
  assumes "\<forall>f k. fst (lib_fails L f k) = None"
  shows "prints s [] (lib_call L f s)"
  using assms [rule_format, of f "as_kern s"] by (auto simp: lib_call_def split: prod.split option.split)

lemma view_perm_prints:
  assumes "\<forall>f k. fst (lib_fails L f k) = None"
  shows "prints s [(''%c'', [S [if e_perms e AND b \<noteq> 0 then c else CHR ''-'']])] (view_perm L e b c m s)"
  using assms [rule_format, of "''acl_get_perm''" "as_kern s"]
  by (auto simp: view_perm_def acl_print_def split: prod.split option.split)

lemma view_qualifier_prints:
  fixes s :: "'k acl_state"
  assumes "\<forall>f k. fst (lib_fails L f k) = None"
  shows "prints s [view_lines db e ! 1] (view_qualifier L db e s)"
  unfolding view_qualifier_def
proof (rule holds_if, rule prints_andThen [OF lib_call_prints [OF assms]])
  fix t :: "'k acl_state" assume c: "e_tag e = ACL_USER \<or> e_tag e = ACL_GROUP" and t: "file_acl t = file_acl s"
  show "prints t [view_lines db e ! 1]
     (let name = (if e_tag e = ACL_USER then userNameFromId db (e_qual e) else groupNameFromId db (e_qual e));
              s = (case name of None \<Rightarrow> acl_print ''%-8d '' [I (sint (e_qual e))] t
                   | Some n \<Rightarrow> acl_print ''%-8s '' [S n] t)
          in lib_call L ''acl_free'' s)"
    unfolding Let_def
    by (rule holds_weaken [OF lib_call_prints [OF assms]])
      (use c in \<open>auto simp: view_lines_def has_qual_def userNameFromId_def groupNameFromId_def acl_print_def split: option.splits\<close>)
qed (auto simp: view_lines_def has_qual_def acl_print_def)

lemma view_entries_prints:
  assumes ok: "\<forall>f k. fst (lib_fails L f k) = None"
  shows "prints s (concat (map (view_lines db) es)) (view_entries L db es s)"
proof (induction es arbitrary: s)
  case (Cons e es)
  obtain k where k: "lib_fails L ''acl_get_entry'' (as_kern s) = (None, k)"
    using ok by (metis fst_conv surj_pair)
  have split: "view_lines db e = [(''%-12s'', [S (view_tag (e_tag e))])] @ [view_lines db e ! 1] @
      [(''%c'', [S [if e_perms e AND ACL_READ \<noteq> 0 then CHR ''r'' else CHR ''-'']])] @
      [(''%c'', [S [if e_perms e AND ACL_WRITE \<noteq> 0 then CHR ''w'' else CHR ''-'']])] @
      [(''%c'', [S [if e_perms e AND ACL_EXECUTE \<noteq> 0 then CHR ''x'' else CHR ''-'']])] @ [([CHR 0x0A], [])]"
    by (simp add: view_lines_def perm_chars_def)
  show ?case
    apply (simp only: view_entries.simps k prod.case option.case)
    apply (rule prints_andThen [where xs = "[]" and s = s])
      apply (rule holds_weaken [OF lib_call_prints [OF ok]], simp, simp)
     apply (rule prints_andThen [where xs = "[(''%-12s'', [S (view_tag (e_tag e))]), view_lines db e ! 1]"])
       apply (rule prints_after, rule view_qualifier_prints [OF ok])
      apply (rule prints_andThen [OF lib_call_prints [OF ok]])
       apply (rule prints_andThen [OF view_perm_prints [OF ok]])
        apply (rule prints_andThen [OF view_perm_prints [OF ok]])
         apply (rule prints_andThen [OF view_perm_prints [OF ok]])
          apply (rule prints_after, rule Cons.IH)
         apply (rule refl)+
    apply (subst list.map, subst concat.simps, subst split)
    apply (simp only: append.simps append_assoc)
    done
qed simp

text \<open>Acl_view prints, for every entry of the list in order, the tag, the name of the user or group (or the number
  if there is no name) and the permissions, and changes no list; a library call that cannot fail is the only assumption.\<close>
theorem acl_view_output:
  assumes "\<forall>f k. fst (lib_fails L f k) = None"
  shows "\<exists>t. acl_view_main L db prog opts [file] s =
      (if \<exists>c\<in>set opts. c \<noteq> CHR ''d'' then acl_view_usage prog s else Halt (Exit EXIT_SUCCESS) t) \<and>
    file_acl t = file_acl s \<and>
    as_out t = as_out s @ concat (map (view_lines db)
      (file_acl s file (if opts = [] then ACL_TYPE_ACCESS else ACL_TYPE_DEFAULT)))"
proof -
  let ?es = "file_acl s file (if opts = [] then ACL_TYPE_ACCESS else ACL_TYPE_DEFAULT)"
  have "prints s (concat (map (view_lines db) ?es))
      (andThen (lib_call L ''acl_get_file'' s) (\<lambda>_ s.
          andThen (view_entries L db
             (file_acl s file (if opts = [] then ACL_TYPE_ACCESS else ACL_TYPE_DEFAULT)) s) (\<lambda>_ s.
          lib_call L ''acl_free'' s)))" (is "prints s ?xs ?r")
    apply (rule prints_andThen [OF lib_call_prints [OF assms], where ys = "concat (map (view_lines db) ?es)"])
     apply (rule prints_andThen [OF view_entries_prints [OF assms]])
      apply (rule lib_call_prints [OF assms])
     apply simp
    apply simp
    done
  then obtain t where t: "?r = Done () t" "as_out t = as_out s @ ?xs" "file_acl t = file_acl s"
    by (cases ?r) auto
  have "andThen ?r (\<lambda>_ s. Halt (Exit EXIT_SUCCESS) s) = (Halt (Exit EXIT_SUCCESS) t :: (_, unit) run)"
    by (simp only: t andThen.simps)
  then show ?thesis
    unfolding acl_view_main_def using t(2,3) by (intro exI [of _ t], cases "opts = []") (simp_all add: andThen_assoc)
qed

theorem acl_view_output_witness:
  "\<exists>t. acl_view_main demo_acl_lib demo_db ''acl_view'' [] [''f''] demo_acl_state = Halt (Exit EXIT_SUCCESS) t \<and>
    as_out t = concat (map (view_lines demo_db) (file_acl demo_acl_state ''f'' ACL_TYPE_ACCESS))"
  using acl_view_output [of demo_acl_lib demo_db "''acl_view''" "[]" "''f''" demo_acl_state]
  by (auto simp: demo_acl_lib_def demo_acl_state_def)

end
