(* ===== verification/Bounded_System.thy ===== *)
theory Bounded_System
  imports Tlpi_Prelude
begin

text \<open>
  The interface through which the concurrent programs are shown to terminate.  A system has
  steps of its own and steps of its environment that the programs must tolerate (spurious
  wakeups, interrupted calls); a potential falls with every own step and an environment
  step raises it by at most a constant.  If moreover an unfinished state always has an own
  step, then every run is bounded and ends in a finished state.
  The second part has sums over the threads of a system, which state the invariants.
\<close>

inductive run_of :: "('s \<Rightarrow> 's \<Rightarrow> bool) \<Rightarrow> ('s \<Rightarrow> 's \<Rightarrow> bool) \<Rightarrow> nat \<Rightarrow> nat \<Rightarrow> 's \<Rightarrow> 's \<Rightarrow> bool"
  for own env where
  run_nil: "run_of own env 0 0 s s"
| run_own: "run_of own env n k s t \<Longrightarrow> own t u \<Longrightarrow> run_of own env (Suc n) k s u"
| run_env: "run_of own env n k s t \<Longrightarrow> env t u \<Longrightarrow> run_of own env n (Suc k) s u"

locale transition_system =
  fixes own env :: "'s \<Rightarrow> 's \<Rightarrow> bool" and inv :: "'s \<Rightarrow> bool"
  assumes inv_own: "inv s \<Longrightarrow> own s t \<Longrightarrow> inv t"
    and inv_env: "inv s \<Longrightarrow> env s t \<Longrightarrow> inv t"
begin

lemma run_inv: "run_of own env n k s t \<Longrightarrow> inv s \<Longrightarrow> inv t"
  by (induction rule: run_of.induct) (auto intro: inv_own inv_env)

end

locale bounded_system = transition_system own env inv
  for own env :: "'s \<Rightarrow> 's \<Rightarrow> bool" and inv :: "'s \<Rightarrow> bool" +
  fixes potential :: "'s \<Rightarrow> int" and rise :: int and finished :: "'s \<Rightarrow> bool"
  assumes potential_nonneg: "inv s \<Longrightarrow> 0 \<le> potential s"
    and potential_own: "inv s \<Longrightarrow> own s t \<Longrightarrow> potential t < potential s"
    and potential_env: "inv s \<Longrightarrow> env s t \<Longrightarrow> potential t \<le> potential s + rise"
    and progress: "inv s \<Longrightarrow> \<not> finished s \<Longrightarrow> \<exists>t. own s t"
begin

lemma run_potential:
  "run_of own env n k s t \<Longrightarrow> inv s \<Longrightarrow> int n + potential t \<le> potential s + int k * rise"
proof (induction rule: run_of.induct)
  case (run_own n k s t u)
  then show ?case using potential_own [of t u] run_inv by fastforce
next
  case (run_env n k s t u)
  then have "potential u \<le> potential t + rise" using potential_env run_inv by blast
  with run_env show ?case by (simp add: algebra_simps)
qed simp

lemma run_bounded:
  assumes "inv s" "run_of own env n k s t"
  shows "int n \<le> potential s + int k * rise"
  using run_potential [OF assms(2,1)] potential_nonneg [OF run_inv [OF assms(2,1)]] by linarith

lemma reaches_finished:
  assumes "inv s"
  shows "\<exists>n t. run_of own env n 0 s t \<and> finished t"
proof -
  have "\<exists>n' u. run_of own env n' 0 s u \<and> finished u" if "run_of own env n 0 s t" for n t
    using that
  proof (induction "nat (potential t)" arbitrary: n t rule: less_induct)
    case less
    have inv: "inv t" by (rule run_inv [OF less.prems assms])
    show ?case
    proof (cases "finished t")
      case False
      then obtain u where u: "own t u" using progress [OF inv] by blast
      have "nat (potential u) < nat (potential t)"
        using potential_own [OF inv u] potential_nonneg [OF inv_own [OF inv u]] by linarith
      from less.hyps [OF this run_own [OF less.prems u]] show ?thesis .
    qed (use less.prems in blast)
  qed
  from this [OF run_nil] show ?thesis .
qed

lemma stuck_finished: "inv s \<Longrightarrow> run_of own env n k s t \<Longrightarrow> \<not> (\<exists>u. own t u) \<Longrightarrow> finished t"
  using progress run_inv by blast

end

text \<open>A run without a step of the environment is a run in any environment.\<close>

lemma run_no_env:
  assumes "run_of own env n k s t" "k = 0"
  shows "run_of own env' n 0 s t"
  using assms by (induction rule: run_of.induct) (auto intro: run_of.intros)

section \<open>Sums over threads\<close>

definition sumw :: "('a \<Rightarrow> int) \<Rightarrow> 'a list \<Rightarrow> int" where
  "sumw f xs = sum_list (map f xs)"

abbreviation cnt :: "('a \<Rightarrow> bool) \<Rightarrow> 'a list \<Rightarrow> int" where
  "cnt P \<equiv> sumw (\<lambda>x. if P x then 1 else 0)"

lemma sumw_simps [simp]: "sumw f [] = 0" "sumw f (x # xs) = f x + sumw f xs"
  "sumw f (xs @ ys) = sumw f xs + sumw f ys" "sumw f (map h xs) = sumw (\<lambda>x. f (h x)) xs"
  by (simp_all add: sumw_def comp_def)

lemma sumw_zero [simp]: "sumw (\<lambda>_. 0) xs = 0"
  by (simp add: sumw_def)

lemma sumw_update: "i < length xs \<Longrightarrow> sumw f (xs[i := y]) = sumw f xs - f (xs ! i) + f y"
  by (induction xs arbitrary: i) (auto simp: nth_Cons split: nat.splits)

lemma sumw_cong: "(\<And>x. x \<in> set xs \<Longrightarrow> f x = g x) \<Longrightarrow> sumw f xs = sumw g xs"
  unfolding sumw_def by (metis map_cong)

lemma sumw_mono: "(\<And>x. x \<in> set xs \<Longrightarrow> f x \<le> g x) \<Longrightarrow> sumw f xs \<le> sumw g xs"
  by (induction xs) (auto simp: add_mono)

lemma sumw_nonneg: "(\<And>x. x \<in> set xs \<Longrightarrow> 0 \<le> f x) \<Longrightarrow> 0 \<le> sumw f xs"
  using sumw_mono [of xs "\<lambda>_. 0" f] by (simp add: sumw_def)

lemma sumw_add: "sumw (\<lambda>x. f x + g x) xs = sumw f xs + sumw g xs"
  by (induction xs) auto

lemma sumw_times: "sumw (\<lambda>x. c * f x) xs = c * sumw f xs"
  by (induction xs) (auto simp: algebra_simps)

lemma cnt_nonneg [simp]: "0 \<le> cnt P xs"
  by (rule sumw_nonneg) simp

lemma cnt_pos: "0 < cnt P xs \<longleftrightarrow> (\<exists>x\<in>set xs. P x)"
proof (induction xs)
  case (Cons x xs)
  have "0 \<le> cnt P xs" by simp
  then have "0 < 1 + cnt P xs" by linarith
  with Cons show ?case by auto
qed simp

lemma cnt_zero: "cnt P xs = 0 \<longleftrightarrow> (\<forall>x\<in>set xs. \<not> P x)"
  using cnt_pos [of P xs] cnt_nonneg [of P xs] by (metis less_le)

lemma cnt_at: "i < length xs \<Longrightarrow> P (xs ! i) \<Longrightarrow> 1 \<le> cnt P xs"
  using cnt_pos [of P xs] nth_mem by fastforce

lemma cnt_compl: "cnt P xs + cnt (\<lambda>x. \<not> P x) xs = int (length xs)"
  by (induction xs) auto

lemma cnt_le_length: "cnt P xs \<le> int (length xs)"
  using cnt_compl [of P xs] cnt_nonneg [of "\<lambda>x. \<not> P x" xs] by linarith

lemma cnt_all: "(\<And>x. x \<in> set xs \<Longrightarrow> P x) \<Longrightarrow> cnt P xs = int (length xs)"
  by (induction xs) auto

lemma sumw_map_eq:
  assumes "map h xs = map h ys"
  shows "sumw (\<lambda>x. g (h x)) xs = sumw (\<lambda>x. g (h x)) ys"
proof -
  have "sumw g (map h xs) = sumw g (map h ys)" by (simp only: assms)
  then show ?thesis by (simp add: sumw_def comp_def)
qed

end
