(* ===== verification/Prod_Cons.thy ===== *)
theory Prod_Cons
  imports Bounded_System C_Numbers
begin

text \<open>
  The producer-consumer program \<^verbatim>\<open>threads/prod_cons_cv.c\<close>: any number of producer and consumer
  threads around one mutex and one condition variable, created by a main thread that runs
  concurrently with them.  A thread is the point of its code it has reached, with its local
  variable; code between two synchronisation calls is one step, since it runs with the
  mutex held or touches no shared data (the \<^verbatim>\<open>usleep()\<close> calls are not steps).
  The environment may wake a waiting thread spuriously and may make a library call fail.
  The lemmas show that units are neither lost nor invented, that no wakeup is lost, and
  that every run ends with the exit of the process after all units are consumed.
\<close>

datatype pc_loc =
    P_lock | P_body | P_unlock bool | P_broadcast bool | P_return
  | C_lock | C_test | C_wait | C_wake | C_unlock bool | C_return

datatype pc_main = M_prod nat | M_cons nat | M_pause

record pc =
  mtx :: bool                \<comment> \<open>is the mutex locked\<close>
  avail :: int
  totalUnits :: int
  unitsProduced :: int
  unitsConsumed :: int
  numLiveCons :: int
  sFactor :: int
  numProd :: int
  numCons :: int
  pc_main :: pc_main
  threads :: "pc_loc list"
  pc_out :: "logrec list"
  exited :: "int option"

definition pc_say :: "string \<Rightarrow> farg list \<Rightarrow> pc \<Rightarrow> pc" where
  "pc_say fmt as s = (if 0 < sFactor s then s\<lparr>pc_out := pc_out s @ [(fmt, as)]\<rparr> else s)"

definition goto :: "nat \<Rightarrow> pc_loc \<Rightarrow> pc \<Rightarrow> pc" where
  "goto i l s = s\<lparr>threads := (threads s)[i := l]\<rparr>"

text \<open>\<^verbatim>\<open>pthread_cond_broadcast()\<close> sends every waiting thread to reacquire the mutex.\<close>

fun wake :: "pc_loc \<Rightarrow> pc_loc" where
  "wake C_wait = C_wake"
| "wake l = l"

definition broadcast :: "pc \<Rightarrow> pc" where
  "broadcast s = s\<lparr>threads := map wake (threads s)\<rparr>"

text \<open>The step of a producer thread; \<open>None\<close> while it is blocked or once it has returned.\<close>

fun producer :: "pc_loc \<Rightarrow> nat \<Rightarrow> pc \<Rightarrow> pc option" where
  "producer P_lock i s = (if mtx s then None else Some (goto i P_body (s\<lparr>mtx := True\<rparr>)))"
| "producer P_body i s =
     (if unitsProduced s \<ge> totalUnits s then Some (goto i (P_unlock True) s)
      else
        let s = s\<lparr>avail := avail s + 1, unitsProduced := unitsProduced s + 1\<rparr>
        in Some (goto i (P_unlock False)
             (pc_say ''Produced a unit (total produced: %d): avail = %d'' [I (unitsProduced s), I (avail s)] s)))"
| "producer (P_unlock prodDone) i s = Some (goto i (P_broadcast prodDone) (s\<lparr>mtx := False\<rparr>))"
| "producer (P_broadcast prodDone) i s =
     Some (if prodDone then pc_say ''Producer terminating'' [] (goto i P_return (broadcast s))
           else goto i P_lock (broadcast s))"
| "producer _ i s = None"

text \<open>The step of a consumer thread; the last one to find all units consumed ends the process.\<close>

fun consumer :: "pc_loc \<Rightarrow> nat \<Rightarrow> pc \<Rightarrow> pc option" where
  "consumer C_lock i s = (if mtx s then None else Some (goto i C_test (s\<lparr>mtx := True\<rparr>)))"
| "consumer C_wake i s = (if mtx s then None else Some (goto i C_test (s\<lparr>mtx := True\<rparr>)))"
| "consumer C_test i s =
     (if avail s = 0 \<and> unitsConsumed s < totalUnits s then Some (goto i C_wait (s\<lparr>mtx := False\<rparr>))
      else if unitsConsumed s \<ge> totalUnits s then
        let s = goto i (C_unlock True) (s\<lparr>numLiveCons := numLiveCons s - 1\<rparr>)
        in Some (if numLiveCons s \<le> 0
                 then s\<lparr>pc_out := pc_out s @
                          [(''Produced: %d; consumed: %d. '', [I (unitsProduced s), I (unitsConsumed s)]),
                           (''All units consumed; terminating'', [])], exited := Some EXIT_SUCCESS\<rparr>
                 else s)
      else
        let s = s\<lparr>unitsConsumed := unitsConsumed s + 1, avail := avail s - 1\<rparr>
        in Some (goto i (C_unlock False)
             (pc_say ''Consumed a unit (total consumed: %d); avail = %d'' [I (unitsConsumed s), I (avail s)] s)))"
| "consumer (C_unlock consDone) i s =
     Some (if consDone then pc_say ''Consumer terminating'' [] (goto i C_return (s\<lparr>mtx := False\<rparr>))
           else goto i C_lock (s\<lparr>mtx := False\<rparr>))"
| "consumer _ i s = None"

fun is_prod :: "pc_loc \<Rightarrow> bool" where
  "is_prod P_lock = True" | "is_prod P_body = True" | "is_prod (P_unlock _) = True"
| "is_prod (P_broadcast _) = True" | "is_prod P_return = True" | "is_prod _ = False"

definition thread_step :: "nat \<Rightarrow> pc \<Rightarrow> pc option" where
  "thread_step i s =
     (if exited s \<noteq> None \<or> length (threads s) \<le> i then None
      else let l = threads s ! i in if is_prod l then producer l i s else consumer l i s)"

text \<open>The creation of the threads in \<^verbatim>\<open>main()\<close>, and the \<^verbatim>\<open>pause()\<close> at its end.\<close>

definition main_step :: "pc \<Rightarrow> pc option" where
  "main_step s =
     (if exited s \<noteq> None then None
      else case pc_main s of
        M_prod j \<Rightarrow> Some (if int j < numProd s then s\<lparr>threads := threads s @ [P_lock], pc_main := M_prod (Suc j)\<rparr>
                         else s\<lparr>pc_main := M_cons 0\<rparr>)
      | M_cons j \<Rightarrow> Some (if int j < numCons s then s\<lparr>threads := threads s @ [C_lock], pc_main := M_cons (Suc j)\<rparr>
                         else s\<lparr>pc_main := M_pause\<rparr>)
      | M_pause \<Rightarrow> None)"

definition pc_usage :: "string \<Rightarrow> logrec list" where
  "pc_usage prog =
     [(''Usage: %s num-prod num-cons num-units [sleep-factor]'', [S prog]),
      ([CHR 0x27] @ ''num-prod'' @ [CHR 0x27] @ '' is the number of producer threads'', []),
      ([CHR 0x27] @ ''num-cons'' @ [CHR 0x27] @ '' is the number of consumer threads'', []),
      ([CHR 0x27] @ ''num-units'' @ [CHR 0x27] @ '' is the total number of units to produce and consume'', []),
      ([CHR 0x27] @ ''sleep-factor'' @ [CHR 0x27] @ '' is a duration multiplier for sleeps that simulate work.'', []),
      (''A value of zero disables sleeps and informational messages.'', []),
      (''The default value is %d.'', [I 1000])]"

text \<open>The start of \<^verbatim>\<open>main()\<close>: the usage message, or the state before the first thread is created.\<close>

definition prod_cons_start :: "string list \<Rightarrow> logrec list + pc" where
  "prod_cons_start argv =
     (if length argv < 4 then Inl (pc_usage (hd argv))
      else Inr \<lparr>mtx = False, avail = 0, totalUnits = atoi (argv ! 3), unitsProduced = 0, unitsConsumed = 0,
         numLiveCons = atoi (argv ! 2), sFactor = (if length argv > 4 then atoi (argv ! 4) else 1000),
         numProd = atoi (argv ! 1), numCons = atoi (argv ! 2), pc_main = M_prod 0, threads = [], pc_out = [],
         exited = None\<rparr>)"

text \<open>Steps of the program, and of the environment: spurious wakeups and failing calls.\<close>

inductive pc_step :: "pc \<Rightarrow> pc \<Rightarrow> bool" where
  thread: "thread_step i s = Some t \<Longrightarrow> pc_step s t"
| main: "main_step s = Some t \<Longrightarrow> pc_step s t"

inductive pc_env :: "pc \<Rightarrow> pc \<Rightarrow> bool" where
  spurious: "exited s = None \<Longrightarrow> i < length (threads s) \<Longrightarrow> threads s ! i = C_wait \<Longrightarrow> pc_env s (goto i C_wake s)"
| call_fails: "exited s = None \<Longrightarrow> pc_env s (s\<lparr>exited := Some EXIT_FAILURE\<rparr>)"

inductive_cases pc_stepE: "pc_step s t"
inductive_cases pc_envE: "pc_env s t"

section \<open>The invariant\<close>

fun holding :: "pc_loc \<Rightarrow> bool" where
  "holding P_body = True" | "holding (P_unlock _) = True" | "holding C_test = True"
| "holding (C_unlock _) = True" | "holding _ = False"

fun pending :: "pc_loc \<Rightarrow> bool" where
  "pending (P_unlock _) = True" | "pending (P_broadcast _) = True" | "pending _ = False"

fun finishing :: "pc_loc \<Rightarrow> bool" where
  "finishing (P_unlock d) = d" | "finishing (P_broadcast d) = d" | "finishing P_return = True" | "finishing _ = False"

fun leaving :: "pc_loc \<Rightarrow> bool" where
  "leaving (C_unlock d) = d" | "leaving C_return = True" | "leaving _ = False"

definition created :: "pc \<Rightarrow> bool" where
  "created s \<longleftrightarrow>
     (case pc_main s of
        M_prod j \<Rightarrow> cnt is_prod (threads s) = int j \<and> cnt (\<lambda>l. \<not> is_prod l) (threads s) = 0 \<and> int j \<le> max 0 (numProd s)
      | M_cons j \<Rightarrow> cnt is_prod (threads s) = max 0 (numProd s) \<and> cnt (\<lambda>l. \<not> is_prod l) (threads s) = int j \<and>
          int j \<le> max 0 (numCons s)
      | M_pause \<Rightarrow> cnt is_prod (threads s) = max 0 (numProd s) \<and> cnt (\<lambda>l. \<not> is_prod l) (threads s) = max 0 (numCons s))"

definition balanced :: "pc \<Rightarrow> bool" where
  "balanced s \<longleftrightarrow> avail s = unitsProduced s - unitsConsumed s \<and> 0 \<le> unitsConsumed s \<and>
     unitsConsumed s \<le> unitsProduced s \<and> unitsProduced s \<le> max 0 (totalUnits s)"

definition mutexed :: "pc \<Rightarrow> bool" where
  "mutexed s \<longleftrightarrow> cnt holding (threads s) = (if mtx s then 1 else 0)"

definition counted :: "pc \<Rightarrow> bool" where
  "counted s \<longleftrightarrow> numLiveCons s = numCons s - cnt leaving (threads s) \<and>
     (exited s = None \<longrightarrow> 0 < numCons s \<longrightarrow> 0 < numLiveCons s) \<and>
     (0 < cnt leaving (threads s) \<longrightarrow> totalUnits s \<le> unitsConsumed s) \<and>
     (0 < cnt finishing (threads s) \<longrightarrow> totalUnits s \<le> unitsProduced s) \<and>
     (exited s = Some EXIT_SUCCESS \<longrightarrow> totalUnits s \<le> unitsConsumed s)"

text \<open>A waiting consumer will be woken: more units are to be produced, or a broadcast is due.\<close>

definition signalled :: "pc \<Rightarrow> bool" where
  "signalled s \<longleftrightarrow> (0 < cnt (\<lambda>l. l = C_wait) (threads s) \<longrightarrow>
     unitsProduced s < totalUnits s \<or> 0 < cnt pending (threads s))"

definition pc_inv :: "pc \<Rightarrow> bool" where
  "pc_inv s \<longleftrightarrow> created s \<and> balanced s \<and> mutexed s \<and> counted s \<and> signalled s"

lemma wake_simps [simp]:
  "holding (wake l) = holding l" "pending (wake l) = pending l" "finishing (wake l) = finishing l"
  "leaving (wake l) = leaving l" "is_prod (wake l) = is_prod l" "wake l = C_wait \<longleftrightarrow> False"
  by (cases l; simp)+

lemma frame_fields [simp]:
  "threads (goto i l s) = (threads s)[i := l]" "threads (broadcast s) = map wake (threads s)" "threads (pc_say f as s) = threads s"
  "mtx (goto i l s) = mtx s" "mtx (broadcast s) = mtx s" "mtx (pc_say f as s) = mtx s"
  "numLiveCons (goto i l s) = numLiveCons s" "numLiveCons (broadcast s) = numLiveCons s" "numLiveCons (pc_say f as s) = numLiveCons s"
  "exited (goto i l s) = exited s" "exited (broadcast s) = exited s" "exited (pc_say f as s) = exited s"
  "avail (goto i l s) = avail s" "avail (broadcast s) = avail s" "avail (pc_say f as s) = avail s"
  "unitsProduced (goto i l s) = unitsProduced s" "unitsProduced (broadcast s) = unitsProduced s"
  "unitsProduced (pc_say f as s) = unitsProduced s"
  "unitsConsumed (goto i l s) = unitsConsumed s" "unitsConsumed (broadcast s) = unitsConsumed s"
  "unitsConsumed (pc_say f as s) = unitsConsumed s"
  "totalUnits (goto i l s) = totalUnits s" "totalUnits (broadcast s) = totalUnits s" "totalUnits (pc_say f as s) = totalUnits s"
  "numProd (goto i l s) = numProd s" "numProd (broadcast s) = numProd s" "numProd (pc_say f as s) = numProd s"
  "numCons (goto i l s) = numCons s" "numCons (broadcast s) = numCons s" "numCons (pc_say f as s) = numCons s"
  "pc_main (goto i l s) = pc_main s" "pc_main (broadcast s) = pc_main s" "pc_main (pc_say f as s) = pc_main s"
  by (simp_all add: goto_def broadcast_def pc_say_def)

lemma created_cong:
  assumes "pc_main t = pc_main s" "numProd t = numProd s" "numCons t = numCons s"
    and "cnt is_prod (threads t) = cnt is_prod (threads s)"
    and "cnt (\<lambda>l. \<not> is_prod l) (threads t) = cnt (\<lambda>l. \<not> is_prod l) (threads s)"
  shows "created t \<longleftrightarrow> created s"
  unfolding created_def assms ..

text \<open>What a step of a thread does, as one rule: only its location, the mutex and the counters change.\<close>

lemma pc_inv_thread:
  assumes inv: "pc_inv s" and ex: "exited s = None" and i: "i < length (threads s)"
    and frame: "pc_main t = pc_main s" "numProd t = numProd s" "numCons t = numCons s" "totalUnits t = totalUnits s"
    and threads: "threads t = (if b then map wake (threads s) else threads s)[i := l]"
    and prod: "is_prod l = is_prod (threads s ! i)"
    and units: "balanced s \<Longrightarrow> balanced t" "unitsConsumed s \<le> unitsConsumed t" "unitsProduced s \<le> unitsProduced t"
    and mtx: "(if mtx t then 1 else 0) = (if mtx s then 1 else (0::int))
      - (if holding (threads s ! i) then 1 else 0) + (if holding l then 1 else 0)"
    and live: "numLiveCons t = numLiveCons s + (if leaving (threads s ! i) then 1 else 0) - (if leaving l then 1 else 0)"
      "exited t = None \<Longrightarrow> 0 < numCons s \<Longrightarrow> 0 < numLiveCons s \<Longrightarrow> 0 < numLiveCons t"
    and leave: "leaving l \<Longrightarrow> leaving (threads s ! i) \<or> totalUnits t \<le> unitsConsumed t"
      "finishing l \<Longrightarrow> finishing (threads s ! i) \<or> totalUnits t \<le> unitsProduced t"
      "exited t = Some EXIT_SUCCESS \<Longrightarrow> totalUnits t \<le> unitsConsumed t"
    and wait: "l = C_wait \<Longrightarrow> unitsProduced t < totalUnits t"
    and pend: "b \<or> (unitsProduced t = unitsProduced s \<or> pending l) \<and> (pending (threads s ! i) \<longrightarrow> pending l)"
  shows "pc_inv t"
proof -
  let ?old = "threads s ! i"
  have cnt: "cnt P (threads t) = cnt P (threads s) - (if P ?old then 1 else 0) + (if P l then 1 else 0)"
    if "\<And>l. P (wake l) = P l" for P
    using i that by (cases b) (simp_all add: threads sumw_update)
  note I = inv [unfolded pc_inv_def]
  have "created t" using I prod by (subst created_cong [of t s]) (simp_all add: frame cnt)
  moreover have "balanced t" using I units by simp
  moreover have "mutexed t" using I mtx by (simp add: mutexed_def cnt)
  moreover have "counted t"
  proof -
    have C: "numLiveCons s = numCons s - cnt leaving (threads s)" "0 < numCons s \<Longrightarrow> 0 < numLiveCons s"
      "0 < cnt leaving (threads s) \<Longrightarrow> totalUnits s \<le> unitsConsumed s"
      "0 < cnt finishing (threads s) \<Longrightarrow> totalUnits s \<le> unitsProduced s"
      using I ex by (auto simp: counted_def)
    have lv: "totalUnits t \<le> unitsConsumed t" if c: "0 < cnt leaving (threads t)"
    proof -
      consider "leaving l" "\<not> leaving ?old" | "0 < cnt leaving (threads s)"
        using c cnt_at [OF i, of leaving] by (cases "leaving l"; cases "leaving ?old") (auto simp: cnt)
      then show ?thesis using leave(1) C(3) units(2) frame(4) by cases auto
    qed
    have fn: "totalUnits t \<le> unitsProduced t" if c: "0 < cnt finishing (threads t)"
    proof -
      consider "finishing l" "\<not> finishing ?old" | "0 < cnt finishing (threads s)"
        using c cnt_at [OF i, of finishing] by (cases "finishing l"; cases "finishing ?old") (auto simp: cnt)
      then show ?thesis using leave(2) C(4) units(3) frame(4) by cases auto
    qed
    have "numLiveCons t = numCons t - cnt leaving (threads t)" using live(1) C(1) by (simp add: cnt frame)
    then show ?thesis
      using lv fn live(2) C(2) leave(3) by (auto simp: counted_def frame)
  qed
  moreover have "signalled t"
    unfolding signalled_def
  proof
    assume w: "0 < cnt (\<lambda>l. l = C_wait) (threads t)"
    show "unitsProduced t < totalUnits t \<or> 0 < cnt pending (threads t)"
    proof (cases "l = C_wait")
      case False
      have nb: "\<not> b"
      proof
        assume b
        then have "cnt (\<lambda>l. l = C_wait) (threads t) = 0"
          using i False by (simp add: threads sumw_update cnt_zero)
        with w show False by simp
      qed
      then have "0 < cnt (\<lambda>l. l = C_wait) (threads s)"
        using w False i cnt_nonneg [of "\<lambda>l. l = C_wait" "threads s"] by (auto simp: threads sumw_update split: if_splits)
      then have S: "unitsProduced s < totalUnits s \<or> 0 < cnt pending (threads s)" using I by (simp add: signalled_def)
      show ?thesis
      proof (cases "pending l")
        case True
        then have "1 \<le> cnt pending (threads t)"
          using cnt_at [of i "threads t" pending] i by (simp add: threads)
        then show ?thesis by simp
      next
        case False
        then show ?thesis using S pend nb frame(4) by (simp add: cnt)
      qed
    qed (use wait in simp)
  qed
  ultimately show ?thesis by (simp add: pc_inv_def)
qed

lemma producer_inv:
  assumes "pc_inv s" "exited s = None" "i < length (threads s)" "producer (threads s ! i) i s = Some t"
  shows "pc_inv t"
proof (cases "threads s ! i")
  case P_lock
  with assms have t: "t = goto i P_body (s\<lparr>mtx := True\<rparr>)" "\<not> mtx s" by (auto split: if_splits)
  show ?thesis by (rule pc_inv_thread [OF assms(1-3), of _ False P_body]) (simp_all add: t P_lock assms balanced_def)
next
  case P_body
  have "1 \<le> cnt holding (threads s)" using cnt_at [OF assms(3), of holding] P_body by simp
  then have m: "mtx s" using assms(1) by (auto simp: pc_inv_def mutexed_def split: if_splits)
  show ?thesis
  proof (cases "unitsProduced s \<ge> totalUnits s")
    case True
    with assms P_body have t: "t = goto i (P_unlock True) s" by simp
    show ?thesis by (rule pc_inv_thread [OF assms(1-3), of _ False "P_unlock True"]) (simp_all add: t P_body m True assms balanced_def)
  next
    case False
    define s' where "s' = s\<lparr>avail := avail s + 1, unitsProduced := unitsProduced s + 1\<rparr>"
    from False assms P_body have t: "t = goto i (P_unlock False)
      (pc_say ''Produced a unit (total produced: %d): avail = %d'' [I (unitsProduced s'), I (avail s')] s')"
      by (simp add: Let_def s'_def)
    show ?thesis
      by (rule pc_inv_thread [OF assms(1-3), of _ False "P_unlock False"])
        (use False in \<open>simp_all add: t s'_def P_body m assms balanced_def\<close>)
  qed
next
  case (P_unlock d)
  have "1 \<le> cnt holding (threads s)" using cnt_at [OF assms(3), of holding] P_unlock by simp
  then have m: "mtx s" using assms(1) by (auto simp: pc_inv_def mutexed_def split: if_splits)
  from assms P_unlock have t: "t = goto i (P_broadcast d) (s\<lparr>mtx := False\<rparr>)" by simp
  show ?thesis by (rule pc_inv_thread [OF assms(1-3), of _ False "P_broadcast d"]) (simp_all add: t P_unlock m assms balanced_def)
next
  case (P_broadcast d)
  have t: "threads t = (map wake (threads s))[i := if d then P_return else P_lock]" "mtx t = mtx s" "balanced t = balanced s"
    "pc_main t = pc_main s" "numProd t = numProd s" "numCons t = numCons s" "totalUnits t = totalUnits s" "exited t = exited s"
    "unitsProduced t = unitsProduced s" "unitsConsumed t = unitsConsumed s" "numLiveCons t = numLiveCons s"
    using assms(4) P_broadcast by (cases d, auto simp: balanced_def)+
  show ?thesis
    by (rule pc_inv_thread [OF assms(1-3), of _ True "if d then P_return else P_lock"])
      (simp_all add: t P_broadcast assms split del: if_split, simp_all split: if_splits)
qed (use assms in auto)

lemma consumer_inv:
  assumes "pc_inv s" "exited s = None" "i < length (threads s)" "consumer (threads s ! i) i s = Some t"
  shows "pc_inv t"
proof -
  have B: "avail s = unitsProduced s - unitsConsumed s" using assms(1) by (simp add: pc_inv_def balanced_def)
  have m: "mtx s" if "holding (threads s ! i)"
    using assms(1) cnt_at [OF assms(3), of holding] that by (auto simp: pc_inv_def mutexed_def split: if_splits)
  show ?thesis
  proof (cases "threads s ! i")
    case C_lock
    with assms have t: "t = goto i C_test (s\<lparr>mtx := True\<rparr>)" "\<not> mtx s" by (auto split: if_splits)
    show ?thesis by (rule pc_inv_thread [OF assms(1-3), of _ False C_test]) (simp_all add: t C_lock assms balanced_def)
  next
    case C_wake
    with assms have t: "t = goto i C_test (s\<lparr>mtx := True\<rparr>)" "\<not> mtx s" by (auto split: if_splits)
    show ?thesis by (rule pc_inv_thread [OF assms(1-3), of _ False C_test]) (simp_all add: t C_wake assms balanced_def)
  next
    case C_test
    consider (sleep) "avail s = 0 \<and> unitsConsumed s < totalUnits s"
      | (finish) "\<not> (avail s = 0 \<and> unitsConsumed s < totalUnits s)" "totalUnits s \<le> unitsConsumed s"
      | (consume) "avail s \<noteq> 0" "unitsConsumed s < totalUnits s" by linarith
    then show ?thesis
    proof cases
      case sleep
      with assms C_test have t: "t = goto i C_wait (s\<lparr>mtx := False\<rparr>)" by simp
      show ?thesis
        by (rule pc_inv_thread [OF assms(1-3), of _ False C_wait])
          (use sleep B in \<open>simp_all add: t C_test m assms balanced_def\<close>)
    next
      case finish
      define s' where "s' = goto i (C_unlock True) (s\<lparr>numLiveCons := numLiveCons s - 1\<rparr>)"
      have "t = (if numLiveCons s' \<le> 0
                 then s'\<lparr>pc_out := pc_out s' @
                          [(''Produced: %d; consumed: %d. '', [I (unitsProduced s'), I (unitsConsumed s')]),
                           (''All units consumed; terminating'', [])], exited := Some EXIT_SUCCESS\<rparr>
                 else s')"
        using assms C_test finish by (auto simp: Let_def s'_def split: if_splits)
      then have t: "threads t = (threads s)[i := C_unlock True]" "mtx t = mtx s" "balanced t = balanced s"
        "pc_main t = pc_main s" "numProd t = numProd s" "numCons t = numCons s" "totalUnits t = totalUnits s"
        "unitsProduced t = unitsProduced s" "unitsConsumed t = unitsConsumed s" "numLiveCons t = numLiveCons s - 1"
        "exited t = (if numLiveCons s \<le> 1 then Some EXIT_SUCCESS else None)"
        using assms(2) by (simp_all add: s'_def balanced_def)
      show ?thesis
        by (rule pc_inv_thread [OF assms(1-3), of _ False "C_unlock True"])
          (use finish in \<open>simp_all add: t C_test m assms split: if_splits\<close>)
    next
      case consume
      define s' where "s' = s\<lparr>unitsConsumed := unitsConsumed s + 1, avail := avail s - 1\<rparr>"
      have t: "t = goto i (C_unlock False)
          (pc_say ''Consumed a unit (total consumed: %d); avail = %d'' [I (unitsConsumed s'), I (avail s')] s')"
        using assms C_test consume by (simp add: Let_def s'_def)
      show ?thesis
        by (rule pc_inv_thread [OF assms(1-3), of _ False "C_unlock False"])
          (use consume B in \<open>auto simp add: t s'_def C_test m assms balanced_def\<close>)
    qed
  next
    case (C_unlock d)
    have t: "threads t = (threads s)[i := if d then C_return else C_lock]" "mtx t = False" "balanced t = balanced s"
      "pc_main t = pc_main s" "numProd t = numProd s" "numCons t = numCons s" "totalUnits t = totalUnits s" "exited t = exited s"
      "unitsProduced t = unitsProduced s" "unitsConsumed t = unitsConsumed s" "numLiveCons t = numLiveCons s"
      using assms(4) C_unlock by (cases d, auto simp: balanced_def)+
    show ?thesis
      by (rule pc_inv_thread [OF assms(1-3), of _ False "if d then C_return else C_lock"])
        (simp_all add: t C_unlock m assms split del: if_split, simp_all split: if_splits)
  qed (use assms in auto)
qed

lemma main_step_inv:
  assumes "pc_inv s" "main_step s = Some t"
  shows "pc_inv t"
proof -
  have ex: "exited s = None" using assms(2) by (auto simp: main_step_def split: if_splits)
  have frame: "balanced t = balanced s" "mtx t = mtx s" "numLiveCons t = numLiveCons s" "numCons t = numCons s"
    "totalUnits t = totalUnits s" "unitsProduced t = unitsProduced s" "unitsConsumed t = unitsConsumed s" "exited t = exited s"
    using assms(2) by (auto simp: main_step_def balanced_def split: pc_main.splits if_splits)
  have thr: "threads t \<in> {threads s, threads s @ [P_lock], threads s @ [C_lock]}"
    using assms(2) by (auto simp: main_step_def split: pc_main.splits if_splits)
  then have cnts: "cnt holding (threads t) = cnt holding (threads s)" "cnt leaving (threads t) = cnt leaving (threads s)"
    "cnt finishing (threads t) = cnt finishing (threads s)" "cnt pending (threads t) = cnt pending (threads s)"
    "cnt (\<lambda>l. l = C_wait) (threads t) = cnt (\<lambda>l. l = C_wait) (threads s)"
    by auto
  have "created t"
    using assms ex by (auto simp: main_step_def pc_inv_def created_def split: pc_main.splits if_splits)
  then show ?thesis
    using assms(1) ex by (auto simp: pc_inv_def mutexed_def counted_def signalled_def frame cnts)
qed

lemma pc_env_inv: "pc_inv s \<Longrightarrow> pc_env s t \<Longrightarrow> pc_inv t"
proof (erule pc_envE)
  fix i
  assume s: "pc_inv s" and t: "t = goto i C_wake s" "exited s = None" "i < length (threads s)" "threads s ! i = C_wait"
  show "pc_inv t"
    by (rule pc_inv_thread [OF s t(2,3), of _ False C_wake]) (simp_all add: t balanced_def)
next
  assume s: "pc_inv s" and t: "t = s\<lparr>exited := Some EXIT_FAILURE\<rparr>"
  have "created t \<longleftrightarrow> created s" by (rule created_cong) (simp_all add: t)
  with s t show "pc_inv t"
    by (simp add: pc_inv_def balanced_def mutexed_def counted_def signalled_def)
qed

lemma pc_step_inv: "pc_inv s \<Longrightarrow> pc_step s t \<Longrightarrow> pc_inv t"
  by (erule pc_stepE)
    (auto simp: thread_step_def Let_def not_le intro: producer_inv consumer_inv main_step_inv split: if_splits)

section \<open>Progress and termination\<close>

text \<open>The weight of a location is a bound on the steps a thread takes before it needs a unit or a broadcast.\<close>

fun weight :: "int \<Rightarrow> pc_loc \<Rightarrow> int" where
  "weight K P_lock = 3 * K + 4" | "weight K P_body = 3 * K + 3"
| "weight K (P_unlock d) = (if d then 3 * K + 2 else 6 * K + 6)"
| "weight K (P_broadcast d) = (if d then 3 * K + 1 else 6 * K + 5)" | "weight K P_return = 0"
| "weight K C_lock = 3" | "weight K C_test = 2" | "weight K C_wait = 0" | "weight K C_wake = 3"
| "weight K (C_unlock d) = (if d then 1 else 4)" | "weight K C_return = 0"

fun main_weight :: "int \<Rightarrow> int \<Rightarrow> pc_main \<Rightarrow> int" where
  "main_weight n K (M_prod j) = max 0 (n - int j) * (3 * K + 5) + K * 4 + 2"
| "main_weight n K (M_cons j) = max 0 (K - int j) * 4 + 1"
| "main_weight n K M_pause = 0"

definition pc_potential :: "pc \<Rightarrow> int" where
  "pc_potential s =
     (let K = max 0 (numCons s) in
      (3 * K + 4) * max 0 (totalUnits s - unitsProduced s) + 3 * max 0 (totalUnits s - unitsConsumed s) +
      sumw (weight K) (threads s) + main_weight (numProd s) K (pc_main s))"

lemma weight_nonneg: "0 \<le> K \<Longrightarrow> 0 \<le> weight K l"
  by (cases l) auto

lemma pc_potential_nonneg: "0 \<le> pc_potential s"
proof -
  have "0 \<le> main_weight (numProd s) (max 0 (numCons s)) (pc_main s)" by (cases "pc_main s") simp_all
  moreover have "0 \<le> sumw (weight (max 0 (numCons s))) (threads s)" by (rule sumw_nonneg) (simp add: weight_nonneg)
  ultimately show ?thesis by (simp add: pc_potential_def Let_def)
qed

lemma created_consumers: "created s \<Longrightarrow> cnt (\<lambda>l. \<not> is_prod l) (threads s) \<le> max 0 (numCons s)"
  by (auto simp: created_def split: pc_main.splits)

text \<open>A broadcast raises the weight by three for every waiting consumer.\<close>

lemma sumw_wake: "sumw (weight K) (map wake xs) \<le> sumw (weight K) xs + 3 * cnt (\<lambda>l. \<not> is_prod l) xs"
proof -
  have "weight K (wake l) \<le> weight K l + 3 * (if \<not> is_prod l then 1 else 0)" for l by (cases l) auto
  then show ?thesis
    using sumw_mono [of xs "\<lambda>l. weight K (wake l)" "\<lambda>l. weight K l + 3 * (if \<not> is_prod l then 1 else 0)"]
    by (simp add: sumw_add sumw_times)
qed

lemma pc_potential_move:
  assumes "i < length (threads s)" "threads t = (threads s)[i := l]"
    and "pc_main t = pc_main s" "numProd t = numProd s" "numCons t = numCons s" "totalUnits t = totalUnits s"
    and "unitsProduced t = unitsProduced s" "unitsConsumed t = unitsConsumed s"
  shows "pc_potential t = pc_potential s - weight (max 0 (numCons s)) (threads s ! i) + weight (max 0 (numCons s)) l"
  using assms by (simp add: pc_potential_def Let_def sumw_update)

lemma producer_potential:
  assumes "pc_inv s" "i < length (threads s)" "producer (threads s ! i) i s = Some t"
  shows "pc_potential t < pc_potential s"
proof (cases "threads s ! i")
  case P_lock
  with assms have t: "t = goto i P_body (s\<lparr>mtx := True\<rparr>)" by (auto split: if_splits)
  show ?thesis by (subst pc_potential_move [OF assms(2), of _ P_body]) (simp_all add: t P_lock)
next
  case P_body
  show ?thesis
  proof (cases "unitsProduced s \<ge> totalUnits s")
    case True
    with assms P_body have t: "t = goto i (P_unlock True) s" by simp
    show ?thesis by (subst pc_potential_move [OF assms(2), of _ "P_unlock True"]) (simp_all add: t P_body)
  next
    case False
    then have "threads t = (threads s)[i := P_unlock False]" "pc_main t = pc_main s" "numProd t = numProd s"
      "numCons t = numCons s" "totalUnits t = totalUnits s" "unitsProduced t = unitsProduced s + 1"
      "unitsConsumed t = unitsConsumed s"
      using assms(3) P_body by (auto simp: Let_def)
    moreover have "max 0 (totalUnits s - unitsProduced s) = max 0 (totalUnits s - (unitsProduced s + 1)) + 1"
      using False by simp
    ultimately show ?thesis using assms(2) P_body by (simp add: pc_potential_def Let_def sumw_update algebra_simps)
  qed
next
  case (P_unlock d)
  with assms have t: "t = goto i (P_broadcast d) (s\<lparr>mtx := False\<rparr>)" by simp
  show ?thesis by (subst pc_potential_move [OF assms(2), of _ "P_broadcast d"]) (simp_all add: t P_unlock)
next
  case (P_broadcast d)
  let ?K = "max 0 (numCons s)"
  have t: "threads t = (map wake (threads s))[i := if d then P_return else P_lock]"
    "pc_main t = pc_main s" "numProd t = numProd s" "numCons t = numCons s" "totalUnits t = totalUnits s"
    "unitsProduced t = unitsProduced s" "unitsConsumed t = unitsConsumed s"
    using assms(3) P_broadcast by (cases d, auto)+
  have "sumw (weight ?K) (map wake (threads s)) \<le> sumw (weight ?K) (threads s) + 3 * ?K"
    using sumw_wake [of ?K "threads s"] created_consumers [of s] assms(1) by (simp add: pc_inv_def)
  then show ?thesis
    using assms(2) P_broadcast
    by (simp add: pc_potential_def Let_def t sumw_update nth_map del: sumw_simps(4))
qed (use assms in auto)

lemma consumer_potential:
  assumes "i < length (threads s)" "consumer (threads s ! i) i s = Some t"
  shows "pc_potential t < pc_potential s"
proof (cases "threads s ! i")
  case C_lock
  with assms have t: "t = goto i C_test (s\<lparr>mtx := True\<rparr>)" by (auto split: if_splits)
  show ?thesis by (subst pc_potential_move [OF assms(1), of _ C_test]) (simp_all add: t C_lock)
next
  case C_wake
  with assms have t: "t = goto i C_test (s\<lparr>mtx := True\<rparr>)" by (auto split: if_splits)
  show ?thesis by (subst pc_potential_move [OF assms(1), of _ C_test]) (simp_all add: t C_wake)
next
  case C_test
  consider (sleep) "avail s = 0 \<and> unitsConsumed s < totalUnits s"
      | (finish) "\<not> (avail s = 0 \<and> unitsConsumed s < totalUnits s)" "totalUnits s \<le> unitsConsumed s"
      | (consume) "avail s \<noteq> 0" "unitsConsumed s < totalUnits s" by linarith
  then show ?thesis
  proof cases
    case sleep
    with assms C_test have t: "t = goto i C_wait (s\<lparr>mtx := False\<rparr>)" by simp
    show ?thesis by (subst pc_potential_move [OF assms(1), of _ C_wait]) (simp_all add: t C_test)
  next
    case finish
    then have "threads t = (threads s)[i := C_unlock True]" "pc_main t = pc_main s" "numProd t = numProd s"
      "numCons t = numCons s" "totalUnits t = totalUnits s" "unitsProduced t = unitsProduced s"
      "unitsConsumed t = unitsConsumed s"
      using assms(2) C_test by (auto simp: Let_def)
    note t = pc_potential_move [OF assms(1) this]
    show ?thesis by (simp add: t C_test)
  next
    case consume
    then have "threads t = (threads s)[i := C_unlock False]" "pc_main t = pc_main s" "numProd t = numProd s"
      "numCons t = numCons s" "totalUnits t = totalUnits s" "unitsProduced t = unitsProduced s"
      "unitsConsumed t = unitsConsumed s + 1"
      using assms(2) C_test by (auto simp: Let_def)
    with consume show ?thesis using assms(1) C_test by (simp add: pc_potential_def Let_def sumw_update)
  qed
next
  case (C_unlock d)
  have "threads t = (threads s)[i := if d then C_return else C_lock]"
    "pc_main t = pc_main s" "numProd t = numProd s" "numCons t = numCons s" "totalUnits t = totalUnits s"
    "unitsProduced t = unitsProduced s" "unitsConsumed t = unitsConsumed s"
    using assms(2) C_unlock by (cases d, auto)+
  note t = pc_potential_move [OF assms(1) this]
  show ?thesis by (simp add: t C_unlock)
qed (use assms in auto)

lemma main_potential:
  assumes "main_step s = Some t"
  shows "pc_potential t < pc_potential s"
proof (cases "pc_main s")
  case (M_prod j)
  then show ?thesis
    using assms by (auto simp: main_step_def pc_potential_def Let_def algebra_simps max_def split: if_splits)
next
  case (M_cons j)
  then show ?thesis
    using assms by (auto simp: main_step_def pc_potential_def Let_def split: if_splits)
qed (use assms in \<open>auto simp: main_step_def split: if_splits\<close>)

lemma pc_step_potential: "pc_inv s \<Longrightarrow> pc_step s t \<Longrightarrow> pc_potential t < pc_potential s"
  by (erule pc_stepE)
    (auto simp: thread_step_def Let_def not_le intro: producer_potential consumer_potential main_potential split: if_splits)

lemma pc_env_potential: "pc_env s t \<Longrightarrow> pc_potential t \<le> pc_potential s + 3"
  by (erule pc_envE) (auto simp: pc_potential_def Let_def sumw_update)

text \<open>Some thread can always move, if there is at least one producer and one consumer.\<close>

lemma pc_progress:
  assumes inv: "pc_inv s" and ex: "exited s = None" and pos: "0 < numProd s" "0 < numCons s"
  shows "\<exists>t. pc_step s t"
proof (rule ccontr)
  assume "\<nexists>t. pc_step s t"
  then have main: "main_step s = None" and thr: "\<And>i. thread_step i s = None"
    by (metis main not_None_eq, metis thread not_None_eq)
  have pause: "pc_main s = M_pause" using main ex by (auto simp: main_step_def split: pc_main.splits)
  have stuck: "(if is_prod l then producer l i s else consumer l i s) = None" if "i < length (threads s)" "threads s ! i = l" for i l
    using thr [of i] that ex by (simp add: thread_step_def Let_def)
  have loc: "(l \<in> {P_return, C_wait, C_return}) \<or> l \<in> {P_lock, C_lock, C_wake} \<and> mtx s" if l: "l \<in> set (threads s)" for l
  proof -
    obtain i where "i < length (threads s)" "threads s ! i = l" using l by (auto simp: in_set_conv_nth)
    from stuck [OF this] show ?thesis by (cases l) (auto simp: Let_def split: if_splits)
  qed
  then have "cnt holding (threads s) = 0" by (force simp: cnt_zero)
  then have "\<not> mtx s" using inv by (simp add: pc_inv_def mutexed_def split: if_splits)
  with loc have loc: "l \<in> {P_return, C_wait, C_return}" if "l \<in> set (threads s)" for l using that by blast
  have "0 < cnt is_prod (threads s)" "cnt (\<lambda>l. \<not> is_prod l) (threads s) = numCons s"
    using inv pause pos by (auto simp: pc_inv_def created_def)
  then obtain l where "l \<in> set (threads s)" "is_prod l" by (auto simp: cnt_pos)
  with loc [of l] have "P_return \<in> set (threads s)" by auto
  then have "0 < cnt finishing (threads s)" by (force simp: cnt_pos)
  then have "totalUnits s \<le> unitsProduced s" using inv by (simp add: pc_inv_def counted_def)
  moreover have "cnt pending (threads s) = 0" using loc by (force simp: cnt_zero)
  ultimately have nw: "C_wait \<notin> set (threads s)"
    using inv by (auto simp: pc_inv_def signalled_def cnt_pos)
  have "cnt leaving (threads s) = cnt (\<lambda>l. \<not> is_prod l) (threads s)"
    using loc nw by (intro sumw_cong) fastforce
  then show False
    using inv ex pos \<open>cnt (\<lambda>l. \<not> is_prod l) (threads s) = numCons s\<close> by (auto simp: pc_inv_def counted_def)
qed

section \<open>The runs of the program\<close>

definition pc_live :: "pc \<Rightarrow> bool" where
  "pc_live s \<longleftrightarrow> pc_inv s \<and> 0 < numProd s \<and> 0 < numCons s"

lemma producer_args: "producer l i s = Some t \<Longrightarrow> numProd t = numProd s \<and> numCons t = numCons s \<and> totalUnits t = totalUnits s"
  by (cases l) (auto simp: Let_def split: if_splits)

lemma consumer_args: "consumer l i s = Some t \<Longrightarrow> numProd t = numProd s \<and> numCons t = numCons s \<and> totalUnits t = totalUnits s"
  by (cases l) (auto simp: Let_def split: if_splits)

lemma pc_step_args: "pc_step s t \<Longrightarrow> numProd t = numProd s \<and> numCons t = numCons s \<and> totalUnits t = totalUnits s"
  by (erule pc_stepE)
    (auto simp: thread_step_def main_step_def Let_def dest: producer_args consumer_args split: if_splits pc_main.splits)

lemma pc_env_args: "pc_env s t \<Longrightarrow> numProd t = numProd s \<and> numCons t = numCons s \<and> totalUnits t = totalUnits s"
  by (erule pc_envE) auto

text \<open>\<^verbatim>\<open>exit(EXIT_SUCCESS)\<close>, or the failure of a library call.\<close>

interpretation pc_any: transition_system pc_step pc_env "\<lambda>s. pc_inv s \<and> totalUnits s = n" for n
  by unfold_locales (auto dest: pc_step_inv pc_env_inv pc_step_args pc_env_args)

interpretation pc_run: bounded_system pc_step pc_env pc_live pc_potential 3 "\<lambda>s. exited s \<noteq> None"
  by unfold_locales
    (auto simp: pc_live_def pc_potential_nonneg dest: pc_step_inv pc_env_inv pc_step_args pc_env_args pc_step_potential
      pc_env_potential intro: pc_progress)

lemma pc_start_inv: "prod_cons_start argv = Inr s \<Longrightarrow> pc_inv s"
  by (auto simp: prod_cons_start_def pc_inv_def created_def balanced_def mutexed_def counted_def signalled_def split: if_splits)

text \<open>Running a schedule: the thread that moves next, or \<open>None\<close> for the main thread.\<close>

fun schedule :: "nat option list \<Rightarrow> pc \<Rightarrow> pc option" where
  "schedule [] s = Some s"
| "schedule (x # xs) s =
     (case (case x of None \<Rightarrow> main_step s | Some i \<Rightarrow> thread_step i s) of None \<Rightarrow> None | Some t \<Rightarrow> schedule xs t)"

lemma schedule_run:
  "schedule xs s = Some t \<Longrightarrow> run_of pc_step pc_env n k r s \<Longrightarrow> run_of pc_step pc_env (n + length xs) k r t"
proof (induction xs arbitrary: n s)
  case (Cons x xs)
  then obtain u where u: "(case x of None \<Rightarrow> main_step s | Some i \<Rightarrow> thread_step i s) = Some u" "schedule xs u = Some t"
    by (auto split: option.splits)
  then have "pc_step s u" by (auto intro: pc_step.intros split: option.splits)
  from Cons.IH [OF u(2) run_own [OF Cons.prems(2) this]] show ?case by simp
qed simp

lemma schedule_run_start: "schedule xs s = Some t \<Longrightarrow> run_of pc_step pc_env (length xs) 0 s t"
  using schedule_run [OF _ run_nil] by fastforce

definition pc_demo_argv :: "string list" where
  "pc_demo_argv = [''prod_cons_cv'', ''1'', ''1'', ''1'', ''0'']"

definition pc_demo :: pc where
  "pc_demo = \<lparr>mtx = False, avail = 0, totalUnits = 1, unitsProduced = 0, unitsConsumed = 0, numLiveCons = 1, sFactor = 0,
     numProd = 1, numCons = 1, pc_main = M_prod 0, threads = [], pc_out = [], exited = None\<rparr>"

definition pc_demo_end :: pc where
  "pc_demo_end = \<lparr>mtx = True, avail = 0, totalUnits = 1, unitsProduced = 1, unitsConsumed = 1, numLiveCons = 0, sFactor = 0,
     numProd = 1, numCons = 1, pc_main = M_pause, threads = [P_lock, C_unlock True],
     pc_out = [(''Produced: %d; consumed: %d. '', [I 1, I 1]), (''All units consumed; terminating'', [])], exited = Some 0\<rparr>"

text \<open>A run in which the consumer waits first and is woken by the broadcast.\<close>

lemma pc_demo:
  "prod_cons_start pc_demo_argv = Inr pc_demo"
  "atoi (pc_demo_argv ! 1) = 1" "atoi (pc_demo_argv ! 2) = 1" "atoi (pc_demo_argv ! 3) = 1"
  by code_simp+

lemma pc_demo_run: "run_of pc_step pc_env 15 0 pc_demo pc_demo_end"
proof -
  have "schedule [None, None, None, None, Some 1, Some 1, Some 0, Some 0, Some 0, Some 0, Some 1, Some 1, Some 1, Some 1, Some 1]
      pc_demo = Some pc_demo_end"
    by code_simp
  from schedule_run_start [OF this] show ?thesis by (simp add: eval_nat_numeral)
qed

text \<open>C9: in every reachable state of prod_cons_cv.c, whatever the scheduling, the spurious wakeups and the failing
  calls, the mutex excludes, the units available are those produced and not consumed, and no more than the requested
  units are produced, so that the counters never overflow; when the process exits successfully, all units
  have been produced and consumed.\<close>
theorem prod_cons_safe:
  assumes "prod_cons_start argv = Inr s" "run_of pc_step pc_env n k s t"
  shows "cnt holding (threads t) = (if mtx t then 1 else 0) \<and>
    avail t = unitsProduced t - unitsConsumed t \<and> 0 \<le> avail t \<and> 0 \<le> unitsConsumed t \<and>
    unitsProduced t \<le> max 0 (atoi (argv ! 3)) \<and>
    (exited t = Some EXIT_SUCCESS \<longrightarrow>
       avail t = 0 \<and> unitsProduced t = max 0 (atoi (argv ! 3)) \<and> unitsConsumed t = max 0 (atoi (argv ! 3)))"
proof -
  have "totalUnits s = atoi (argv ! 3)" using assms(1) by (auto simp: prod_cons_start_def split: if_splits)
  with pc_any.run_inv [OF assms(2), of "atoi (argv ! 3)"] pc_start_inv [OF assms(1)]
  have "pc_inv t" "totalUnits t = atoi (argv ! 3)" by auto
  then show ?thesis by (auto simp: pc_inv_def balanced_def mutexed_def counted_def)
qed

text \<open>C8: prod_cons_cv.c terminates. If there is at least one producer and one consumer, a run of n steps with k
  spurious wakeups satisfies a bound that grows only with k, no run gets stuck before the process exits (no wakeup is
  lost), and the process can exit from every reachable state.\<close>
theorem prod_cons_terminates:
  assumes "prod_cons_start argv = Inr s" "0 < atoi (argv ! 1)" "0 < atoi (argv ! 2)" "run_of pc_step pc_env n k s t"
  shows "int n \<le> pc_potential s + 3 * int k \<and>
    ((\<exists>u. pc_step t u) \<or> (\<exists>status. exited t = Some status)) \<and>
    (\<exists>m u. run_of pc_step pc_env m 0 t u \<and> exited u \<noteq> None)"
proof -
  have s: "pc_live s"
    using pc_start_inv [OF assms(1)] assms(1-3) by (auto simp: pc_live_def prod_cons_start_def split: if_splits)
  have t: "pc_live t" by (rule pc_run.run_inv [OF assms(4) s])
  show ?thesis
    using pc_run.run_bounded [OF s assms(4)] pc_run.progress [OF t] pc_run.reaches_finished [OF t] by (auto simp: mult.commute)
qed

theorem prod_cons_safe_witness:
  "run_of pc_step pc_env 15 0 pc_demo pc_demo_end \<and> exited pc_demo_end = Some EXIT_SUCCESS \<and>
   avail pc_demo_end = 0 \<and> unitsConsumed pc_demo_end = 1"
  using prod_cons_safe [OF pc_demo(1) pc_demo_run] pc_demo_run by (simp add: pc_demo(4) pc_demo_end_def)

theorem prod_cons_terminates_witness:
  "(15 :: int) \<le> pc_potential pc_demo \<and> (\<exists>m u. run_of pc_step pc_env m 0 pc_demo_end u \<and> exited u \<noteq> None)"
  using prod_cons_terminates [OF pc_demo(1) _ _ pc_demo_run, unfolded pc_demo] by simp

end
