(* ===== verification/Stream_Io.thy ===== *)
theory Stream_Io
  imports Tlpi_Prelude
begin

text \<open>
  Input and output on byte streams: \<^verbatim>\<open>sockets/rdwrn.c\<close>, \<^verbatim>\<open>sockets/read_line.c\<close> and
  \<^verbatim>\<open>sockets/read_line_buf.c\<close>.  The bytes that arrive at a descriptor, in the pieces in which the
  kernel delivers them and interleaved with failing calls, form an \<open>input\<close>; end-of-file
  follows the last piece.  The fate of successive \<^verbatim>\<open>write()\<close> calls is a similar list.
  The lemmas show that the functions depend on the byte stream only, and not on the way it is
  cut into pieces or interrupted by signals.
\<close>

abbreviation (input) EINTR :: int where "EINTR \<equiv> 4"
abbreviation (input) EINVAL :: int where "EINVAL \<equiv> 22"
abbreviation (input) newline :: char where "newline \<equiv> CHR 0x0A"
abbreviation (input) NULb :: char where "NULb \<equiv> CHR 0x00"

section \<open>The kernel side of a stream\<close>

datatype revent = Bytes string | Fail int

type_synonym input = "revent list"

datatype rd = Got string | Rerr int

text \<open>\<^verbatim>\<open>read()\<close> of at most \<open>n\<close> bytes; the rest of a longer piece stays for the next call.\<close>

fun sys_read :: "nat \<Rightarrow> input \<Rightarrow> rd \<times> input" where
  "sys_read n [] = (Got [], [])"
| "sys_read n (Bytes s # es) =
     (if s = [] then sys_read n es
      else (Got (take n s), if length s \<le> n then es else Bytes (drop n s) # es))"
| "sys_read n (Fail e # es) = (Rerr e, es)"

datatype wevent = Accepts nat | Wfail int

text \<open>\<^verbatim>\<open>write()\<close>: the number of bytes taken, or an error; at the end of the script everything is taken.\<close>

fun sys_write :: "string \<Rightarrow> wevent list \<Rightarrow> (int + nat) \<times> wevent list" where
  "sys_write bs [] = (Inr (length bs), [])"
| "sys_write bs (Accepts k # ws) = (Inr (min k (length bs)), ws)"
| "sys_write bs (Wfail e # ws) = (Inl e, ws)"

text \<open>The byte stream of an input up to the first failure that is not skipped.\<close>

fun stream :: "(int \<Rightarrow> bool) \<Rightarrow> input \<Rightarrow> string \<times> int option" where
  "stream skip [] = ([], None)"
| "stream skip (Bytes s # es) = (let (bs, f) = stream skip es in (s @ bs, f))"
| "stream skip (Fail e # es) = (if skip e then stream skip es else ([], Some e))"

abbreviation restarted :: "input \<Rightarrow> string \<times> int option" where
  "restarted \<equiv> stream (\<lambda>e. e = EINTR)"

abbreviation raw :: "input \<Rightarrow> string \<times> int option" where
  "raw \<equiv> stream (\<lambda>e. False)"

fun weight_in :: "input \<Rightarrow> nat" where
  "weight_in [] = 0"
| "weight_in (Bytes s # es) = Suc (length s + weight_in es)"
| "weight_in (Fail e # es) = Suc (weight_in es)"

lemma sys_read_weight:
  "sys_read n inp = (x, r) \<Longrightarrow> 0 < n \<Longrightarrow> (x = Got [] \<and> r = []) \<or> x \<noteq> Got [] \<and> weight_in r < weight_in inp"
  by (induction n inp rule: sys_read.induct) (auto split: if_splits)

lemma sys_read_stream:
  assumes "sys_read n inp = (x, r)" "0 < n"
  shows "case x of
      Got cs \<Rightarrow> length cs \<le> n \<and> stream skip inp = (cs @ fst (stream skip r), snd (stream skip r)) \<and>
        (cs = [] \<longrightarrow> stream skip inp = ([], None))
    | Rerr e \<Rightarrow> stream skip inp = (if skip e then stream skip r else ([], Some e))"
  using assms
proof (induction n inp rule: sys_read.induct)
  case (2 n s es)
  then show ?case
    by (cases "s = []") (auto simp: split_def Let_def split: if_splits rd.splits)
qed auto

lemma sys_write_shrinks:
  "sys_write bs ws = (Inr k, ws') \<Longrightarrow> k \<le> length bs \<and> length ws' \<le> length ws"
  "sys_write bs ws = (Inl e, ws') \<Longrightarrow> length ws' < length ws"
  by (cases "(bs, ws)" rule: sys_write.cases; auto)+

section \<open>readn() and writen()\<close>

text \<open>The result is the value returned (\<open>Inl\<close> the error number for -1), the bytes stored, and the input left.\<close>

function readn_loop :: "nat \<Rightarrow> string \<Rightarrow> input \<Rightarrow> (int + nat) \<times> string \<times> input" where
  "readn_loop n buf inp =
     (if length buf < n then
        (case sys_read (n - length buf) inp of
           (Got cs, r) \<Rightarrow> if cs = [] then (Inr (length buf), buf, r) else readn_loop n (buf @ cs) r
         | (Rerr e, r) \<Rightarrow> if e = EINTR then readn_loop n buf r else (Inl e, buf, r))
      else (Inr (length buf), buf, inp))"
  by pat_completeness auto
termination
  by (relation "measure (\<lambda>(n, buf, inp). weight_in inp)")
    (auto dest!: sys_read_weight [OF sym])

declare readn_loop.simps [simp del]

definition readn :: "nat \<Rightarrow> input \<Rightarrow> (int + nat) \<times> string \<times> input" where
  "readn n inp = readn_loop n [] inp"

text \<open>The bytes sent so far are the third argument.\<close>

function writen_loop :: "nat \<Rightarrow> string \<Rightarrow> string \<Rightarrow> wevent list \<Rightarrow> int \<Rightarrow> (int + nat) \<times> string \<times> wevent list" where
  "writen_loop n buf sent ws errno =
     (if length sent < n then
        (case sys_write (drop (length sent) (take n buf)) ws of
           (Inr k, ws) \<Rightarrow> if k = 0 then (Inl errno, sent, ws)
                         else writen_loop n buf (sent @ take k (drop (length sent) (take n buf))) ws errno
         | (Inl e, ws) \<Rightarrow> if e = EINTR then writen_loop n buf sent ws e else (Inl e, sent, ws))
      else (Inr (length sent), sent, ws))"
  by pat_completeness auto
termination
proof (relation "measure (\<lambda>(n, buf, sent, ws, _). length ws + (n - length sent))", goal_cases)
  case (3 n buf sent ws errno x ws' k)
  then have "k \<le> length (drop (length sent) (take n buf)) \<and> length ws' \<le> length ws"
    by (intro sys_write_shrinks(1)) simp
  with 3 show ?case by auto
next
  case (2 n buf sent ws errno x ws' e)
  then have "length ws' < length ws" by (metis sys_write_shrinks(2))
  with 2 show ?case by simp
qed simp

declare writen_loop.simps [simp del]

definition writen :: "nat \<Rightarrow> string \<Rightarrow> wevent list \<Rightarrow> int \<Rightarrow> (int + nat) \<times> string \<times> wevent list" where
  "writen n buf ws errno = writen_loop n buf [] ws errno"

lemma readn_loop_spec:
  assumes "length buf \<le> n" "readn_loop n buf inp = (ret, out, r)"
  shows "case restarted inp of (bs, f) \<Rightarrow>
    if n \<le> length (buf @ bs) then ret = Inr n \<and> out = take n (buf @ bs) \<and> restarted r = (drop (n - length buf) bs, f)
    else out = buf @ bs \<and> (case f of None \<Rightarrow> ret = Inr (length out) \<and> restarted r = ([], None) | Some e \<Rightarrow> ret = Inl e)"
  using assms
proof (induction n buf inp rule: readn_loop.induct)
  case (1 n buf inp)
  obtain x r' where rd: "sys_read (n - length buf) inp = (x, r')" by fastforce
  show ?case
  proof (cases "length buf < n")
    case False
    with 1 show ?thesis by (subst (asm) readn_loop.simps) (auto split: option.splits)
  next
    case True
    note st = sys_read_stream [OF rd, where skip = "\<lambda>e. e = EINTR"]
    show ?thesis
    proof (cases x)
      case (Got cs)
      with st True have cs: "length cs \<le> n - length buf"
        "restarted inp = (cs @ fst (restarted r'), snd (restarted r'))" "cs = [] \<Longrightarrow> restarted inp = ([], None)" by auto
      show ?thesis
      proof (cases "cs = []")
        case c: True
        then have "r' = []" using sys_read_weight [OF rd] True Got by auto
        with "1.prems" True rd Got c cs show ?thesis
          by (subst (asm) readn_loop.simps) auto
      next
        case c: False
        then have "readn_loop n (buf @ cs) r' = (ret, out, r)"
          using "1.prems" True rd Got by (subst (asm) readn_loop.simps) auto
        from "1.IH"(1) [OF True rd [symmetric] Got c _ this] cs(1) True
        show ?thesis by (auto simp: cs(2) split_def split: option.splits if_splits)
      qed
    next
      case (Rerr e)
      show ?thesis
      proof (cases "e = EINTR")
        case e: True
        then have "readn_loop n buf r' = (ret, out, r)"
          using "1.prems" True rd Rerr by (subst (asm) readn_loop.simps) auto
        from "1.IH"(2) [OF True rd [symmetric] Rerr e _ this] True st Rerr e
        show ?thesis by auto
      next
        case e: False
        with "1.prems" True rd Rerr st show ?thesis by (subst (asm) readn_loop.simps) auto
      qed
    qed
  qed
qed

text \<open>What was sent is always a prefix of the buffer, and the whole of it if the call succeeds.\<close>

lemma writen_loop_spec:
  assumes "n \<le> length buf" "sent = take (length sent) (take n buf)" "writen_loop n buf sent ws errno = (ret, out, ws')"
  shows "out = take (length out) (take n buf) \<and> length sent \<le> length out \<and>
    (case ret of Inr k \<Rightarrow> k = n \<and> out = take n buf | Inl e \<Rightarrow> length out < n)"
  using assms
proof (induction n buf sent ws errno rule: writen_loop.induct)
  case (1 n buf sent ws errno)
  let ?rest = "drop (length sent) (take n buf)"
  have len: "length sent \<le> n" using "1.prems"(1,2) by (metis length_take min.cobounded1 min.cobounded2 min.absorb2 le_trans nat_le_linear take_all_iff)
  show ?case
  proof (cases "length sent < n")
    case False
    then have "writen_loop n buf sent ws errno = (Inr (length sent), sent, ws)" by (subst writen_loop.simps) simp
    with False len "1.prems" show ?thesis by auto
  next
    case True
    obtain x w where wr: "sys_write ?rest ws = (x, w)" by fastforce
    show ?thesis
    proof (cases x)
      case (Inl e)
      show ?thesis
      proof (cases "e = EINTR")
        case e: True
        then have "writen_loop n buf sent w e = (ret, out, ws')"
          using "1.prems"(3) True wr Inl by (subst (asm) writen_loop.simps) auto
        from "1.IH"(1) [OF True wr [symmetric] Inl e "1.prems"(1,2) this] show ?thesis .
      next
        case e: False
        then have "out = sent" "ret = Inl e" using "1.prems"(3) True wr Inl by (subst (asm) writen_loop.simps; simp)+
        with True "1.prems"(2) show ?thesis by simp
      qed
    next
      case (Inr k)
      have k: "k \<le> length ?rest" using sys_write_shrinks(1) wr Inr by blast
      show ?thesis
      proof (cases "k = 0")
        case z: True
        then have "out = sent" "ret = Inl errno" using "1.prems"(3) True wr Inr by (subst (asm) writen_loop.simps; simp)+
        with True "1.prems"(2) show ?thesis by simp
      next
        case z: False
        have next_: "writen_loop n buf (sent @ take k ?rest) w errno = (ret, out, ws')"
          using "1.prems"(3) True wr Inr z by (subst (asm) writen_loop.simps) auto
        have pre: "sent @ take k ?rest = take (length (sent @ take k ?rest)) (take n buf)"
          using "1.prems"(2) k by (metis (no_types, lifting) length_append length_take min.absorb2 take_add)
        from "1.IH"(2) [OF True wr [symmetric] Inr z "1.prems"(1) pre next_] show ?thesis by simp
      qed
    qed
  qed
qed

text \<open>Without hard errors the call succeeds.\<close>

definition no_hard_error :: "wevent list \<Rightarrow> bool" where
  "no_hard_error ws \<longleftrightarrow> list_all (\<lambda>w. case w of Accepts k \<Rightarrow> 0 < k | Wfail e \<Rightarrow> e = EINTR) ws"

lemma writen_loop_succeeds:
  assumes "n \<le> length buf" "length sent \<le> n" "no_hard_error ws"
  shows "\<exists>out ws'. writen_loop n buf sent ws errno = (Inr n, out, ws')"
  using assms
proof (induction ws arbitrary: sent errno)
  case Nil
  then show ?case
    by (cases "length sent < n") (simp_all add: writen_loop.simps)
next
  case (Cons w ws)
  let ?rest = "drop (length sent) (take n buf)"
  show ?case
  proof (cases "length sent < n")
    case False
    with Cons show ?thesis by (subst writen_loop.simps) simp
  next
    case True
    have rest: "length ?rest = n - length sent" using Cons.prems by simp
    show ?thesis
    proof (cases w)
      case (Accepts k)
      with Cons.prems True rest Cons.IH [of "sent @ take (min k (length ?rest)) ?rest" errno]
      show ?thesis by (subst writen_loop.simps) (simp add: no_hard_error_def)
    next
      case (Wfail e)
      with Cons.prems True Cons.IH [of sent e] show ?thesis by (subst writen_loop.simps) (simp add: no_hard_error_def)
    qed
  qed
qed

section \<open>readLine()\<close>

text \<open>The bytes stored include the terminating null byte when one is stored.\<close>

function readLine_loop :: "nat \<Rightarrow> string \<Rightarrow> input \<Rightarrow> (int + nat) \<times> string \<times> input" where
  "readLine_loop n buf inp =
     (case sys_read 1 inp of
        (Rerr e, r) \<Rightarrow> if e = EINTR then readLine_loop n buf r else (Inl e, buf, r)
      | (Got cs, r) \<Rightarrow>
          if cs = [] then
            if buf = [] then (Inr 0, [], r) else (Inr (length buf), buf @ [NULb], r)
          else
            let buf = (if length buf < n - 1 then buf @ [hd cs] else buf)
            in if hd cs = newline then (Inr (length buf), buf @ [NULb], r) else readLine_loop n buf r)"
  by pat_completeness auto
termination
  by (relation "measure (\<lambda>(n, buf, inp). weight_in inp)") (auto dest!: sys_read_weight [OF sym])

declare readLine_loop.simps [simp del]

definition readLine :: "nat \<Rightarrow> bool \<Rightarrow> input \<Rightarrow> (int + nat) \<times> string \<times> input" where
  "readLine n null inp = (if n = 0 \<or> null then (Inl EINVAL, [], inp) else readLine_loop n [] inp)"

text \<open>The first line of a byte stream, with its newline, and whether it is complete.\<close>

definition first_line :: "string \<Rightarrow> string" where
  "first_line bs = takeWhile (\<lambda>c. c \<noteq> newline) bs @ (if newline \<in> set bs then [newline] else [])"

lemma first_line_simps [simp]:
  "first_line [] = []" "first_line (c # bs) = c # (if c = newline then [] else first_line bs)"
  by (auto simp: first_line_def)

text \<open>A reader with room for \<open>m\<close> characters stores the next one or drops it.\<close>

lemma take_room:
  assumes "length buf \<le> m"
  shows "take m (buf @ c # y) = take m ((if length buf < m then buf @ [c] else buf) @ y)"
    and "length (if length buf < m then buf @ [c] else buf) \<le> m"
proof -
  have "take (m - length buf) (c # y) = c # take (m - Suc (length buf)) y" if "length buf < m"
    using that by (simp add: take_Cons')
  then show "take m (buf @ c # y) = take m ((if length buf < m then buf @ [c] else buf) @ y)" using assms by auto
  show "length (if length buf < m then buf @ [c] else buf) \<le> m" using assms by auto
qed

lemma readLine_loop_spec:
  assumes "readLine_loop n buf inp = (ret, out, r)" "length buf \<le> n - 1"
  shows "case restarted inp of (bs, f) \<Rightarrow>
    (let kept = take (n - 1) (buf @ first_line bs) in
     if newline \<in> set bs then ret = Inr (length kept) \<and> out = kept @ [NULb] \<and>
         restarted r = (drop (length (first_line bs)) bs, f)
     else case f of
       None \<Rightarrow> ret = Inr (length kept) \<and> out = (if kept = [] then [] else kept @ [NULb]) \<and> restarted r = ([], None)
     | Some e \<Rightarrow> ret = Inl e \<and> out = kept)"
  using assms
proof (induction n buf inp rule: readLine_loop.induct)
  case (1 n buf inp)
  obtain x r' where rd: "sys_read 1 inp = (x, r')" by fastforce
  note st = sys_read_stream [OF rd, where skip = "\<lambda>e. e = EINTR"]
  have full: "take (n - Suc 0) buf = buf" using "1.prems"(2) by simp
  show ?case
  proof (cases x)
    case (Rerr e)
    show ?thesis
    proof (cases "e = EINTR")
      case True
      then have "readLine_loop n buf r' = (ret, out, r)"
        using "1.prems"(1) rd Rerr by (subst (asm) readLine_loop.simps) simp
      from "1.IH"(2) [OF rd [symmetric] Rerr True this "1.prems"(2)] st Rerr True show ?thesis by simp
    next
      case False
      with "1.prems" rd Rerr st full show ?thesis by (subst (asm) readLine_loop.simps) simp
    qed
  next
    case (Got cs)
    show ?thesis
    proof (cases "cs = []")
      case True
      then have "r' = []" using sys_read_weight [OF rd] Got by auto
      with True "1.prems" rd Got st full show ?thesis
        by (subst (asm) readLine_loop.simps) (auto split: if_splits)
    next
      case False
      with st Got obtain c where c: "cs = [c]" "restarted inp = (c # fst (restarted r'), snd (restarted r'))"
        by (cases cs) (auto simp: Suc_le_eq)
      define buf' where "buf' = (if length buf < n - 1 then buf @ [c] else buf)"
      have buf': "take (n - 1) (buf @ c # y) = take (n - 1) (buf' @ y)" "length buf' \<le> n - 1" for y
        unfolding buf'_def by (rule take_room [OF "1.prems"(2)])+
      have run: "readLine_loop n buf inp =
          (if c = newline then (Inr (length buf'), buf' @ [NULb], r') else readLine_loop n buf' r')"
        using rd Got c(1) by (subst readLine_loop.simps) (simp add: buf'_def Let_def)
      show ?thesis
      proof (cases "c = newline")
        case nl: True
        with run "1.prems"(1) have "ret = Inr (length buf')" "out = buf' @ [NULb]" "r = r'" by simp_all
        then show ?thesis using nl buf'(1) [of "[]"] buf'(2) by (simp add: c split_def del: take_append)
      next
        case nl: False
        with run "1.prems"(1) have rest: "readLine_loop n buf' r' = (ret, out, r)" by simp
        have hd: "buf' = (if length buf < n - 1 then buf @ [hd cs] else buf)" "hd cs \<noteq> newline"
          using nl by (simp_all add: buf'_def c(1))
        have "take (n - 1) (buf @ first_line (c # y)) = take (n - 1) (buf' @ first_line y)"
          "newline \<in> set (c # y) \<longleftrightarrow> newline \<in> set y" "drop (length (first_line (c # y))) (c # y) = drop (length (first_line y)) y" for y
          using nl buf'(1) by (simp_all del: take_append)
        note this "1.IH"(1) [OF rd [symmetric] Got False hd rest buf'(2)]
        then show ?thesis by (simp only: c(2) split_def fst_conv snd_conv)
      qed
    qed
  qed
qed

section \<open>readLineBuf()\<close>

abbreviation (input) RL_MAX_BUF :: nat where "RL_MAX_BUF \<equiv> 10"

record ReadLineBuf =
  rl_fd :: int              \<comment> \<open>the descriptor, whose input the functions take as an argument\<close>
  rl_buf :: string          \<comment> \<open>the array, always of length \<open>RL_MAX_BUF\<close>\<close>
  rl_next :: int
  rl_len :: int

definition readLineBufInit :: "int \<Rightarrow> ReadLineBuf \<Rightarrow> ReadLineBuf" where
  "readLineBufInit fd rl = rl\<lparr>rl_fd := fd, rl_len := 0, rl_next := 0\<rparr>"

text \<open>The refill of an exhausted buffer: an error, or whether a character is available.\<close>

definition refill :: "ReadLineBuf \<Rightarrow> input \<Rightarrow> (int + bool) \<times> ReadLineBuf \<times> input" where
  "refill rl inp =
     (if rl_next rl \<ge> rl_len rl then
        (case sys_read RL_MAX_BUF inp of
           (Rerr e, r) \<Rightarrow> (Inl e, rl\<lparr>rl_len := -1\<rparr>, r)
         | (Got cs, r) \<Rightarrow>
             let rl = rl\<lparr>rl_buf := cs @ drop (length cs) (rl_buf rl), rl_len := int (length cs)\<rparr>
             in if cs = [] then (Inr False, rl, r) else (Inr True, rl\<lparr>rl_next := 0\<rparr>, r))
      else (Inr True, rl, inp))"

lemma refill_measure:
  assumes "refill rl inp = (Inr True, rl', r)"
  shows "rl_next rl' < rl_len rl' \<and> (weight_in r < weight_in inp \<or> r = inp \<and> rl' = rl)"
proof (cases "rl_len rl \<le> rl_next rl")
  case True
  obtain y r' where rd: "sys_read RL_MAX_BUF inp = (y, r')" by fastforce
  with assms True obtain cs where cs: "y = Got cs" "cs \<noteq> []" "rl_next rl' = 0" "rl_len rl' = int (length cs)" "r = r'"
    by (cases y) (auto simp: refill_def Let_def split: if_splits)
  then show ?thesis using sys_read_weight [OF rd] by auto
qed (use assms in \<open>simp add: refill_def\<close>)

text \<open>An access outside the array would be undefined: \<open>rl_ok\<close> below excludes it.\<close>

function readLineBuf_loop :: "nat \<Rightarrow> string \<Rightarrow> ReadLineBuf \<Rightarrow> input \<Rightarrow> (int + nat) \<times> string \<times> ReadLineBuf \<times> input" where
  "readLineBuf_loop n buf rl inp =
     (case refill rl inp of
        (Inl e, rl, r) \<Rightarrow> (Inl e, buf, rl, r)
      | (Inr ready, rl, r) \<Rightarrow>
          if \<not> ready then (Inr (length buf), buf, rl, r)
          else
            let c = rl_buf rl ! nat (rl_next rl);
                rl = rl\<lparr>rl_next := rl_next rl + 1\<rparr>;
                buf = (if length buf < n then buf @ [c] else buf)
            in if c = newline then (Inr (length buf), buf, rl, r) else readLineBuf_loop n buf rl r)"
  by pat_completeness auto
termination
proof (relation "inv_image (less_than <*lex*> less_than)
        (\<lambda>(n, buf, rl, inp). (weight_in inp, nat (rl_len rl - rl_next rl)))", goal_cases)
  case (2 n buf rl inp x y b rl1 r c rl2 buf2)
  then have "refill rl inp = (Inr True, rl1, r)" by simp
  from refill_measure [OF this] 2(6) show ?case by auto
qed (simp add: wf_inv_image wf_lex_prod)

declare readLineBuf_loop.simps [simp del]

definition readLineBuf :: "ReadLineBuf \<Rightarrow> nat \<Rightarrow> bool \<Rightarrow> input \<Rightarrow> (int + nat) \<times> string \<times> ReadLineBuf \<times> input" where
  "readLineBuf rl n null inp = (if n = 0 \<or> null then (Inl EINVAL, [], rl, inp) else readLineBuf_loop n [] rl inp)"

definition rl_ok :: "ReadLineBuf \<Rightarrow> bool" where
  "rl_ok rl \<longleftrightarrow> length (rl_buf rl) = RL_MAX_BUF \<and> rl_len rl \<le> int RL_MAX_BUF \<and> 0 \<le> rl_next rl"

text \<open>The characters read from the descriptor but not yet handed out.\<close>

definition unread :: "ReadLineBuf \<Rightarrow> string" where
  "unread rl = drop (nat (rl_next rl)) (take (nat (rl_len rl)) (rl_buf rl))"

lemma unread_Cons:
  assumes "rl_ok rl" "rl_next rl < rl_len rl"
  shows "unread rl = rl_buf rl ! nat (rl_next rl) # unread (rl\<lparr>rl_next := rl_next rl + 1\<rparr>)"
    and "rl_ok (rl\<lparr>rl_next := rl_next rl + 1\<rparr>)" and "nat (rl_next rl) < length (rl_buf rl)"
proof -
  have b: "nat (rl_next rl) < length (take (nat (rl_len rl)) (rl_buf rl))"
    using assms by (auto simp: rl_ok_def)
  have "nat (rl_next rl + 1) = Suc (nat (rl_next rl))" using assms(1) by (simp add: rl_ok_def nat_add_distrib)
  then show "unread rl = rl_buf rl ! nat (rl_next rl) # unread (rl\<lparr>rl_next := rl_next rl + 1\<rparr>)"
    using Cons_nth_drop_Suc [OF b] b by (simp add: unread_def)
  show "rl_ok (rl\<lparr>rl_next := rl_next rl + 1\<rparr>)" "nat (rl_next rl) < length (rl_buf rl)"
    using assms b by (auto simp: rl_ok_def)
qed

lemma unread_Nil: "rl_len rl \<le> rl_next rl \<Longrightarrow> unread rl = []"
  by (auto simp: unread_def)

definition line_spec :: "nat \<Rightarrow> string \<Rightarrow> string \<times> int option \<Rightarrow> (int + nat) \<times> string \<times> ReadLineBuf \<times> input \<Rightarrow> bool" where
  "line_spec n buf = (\<lambda>(bs, f) (ret, out, rl, r).
     out = take n (buf @ first_line bs) \<and> rl_ok rl \<and>
     (if newline \<in> set bs
      then ret = Inr (length out) \<and> (unread rl @ fst (raw r), snd (raw r)) = (drop (length (first_line bs)) bs, f)
      else case f of
        None \<Rightarrow> ret = Inr (length out) \<and> unread rl @ fst (raw r) = [] \<and> snd (raw r) = None
      | Some e \<Rightarrow> ret = Inl e))"

lemma refill_spec:
  assumes "rl_ok rl" "refill rl inp = (x, rl', r)"
  shows "rl_ok rl' \<and>
    (case x of
       Inl e \<Rightarrow> unread rl @ fst (raw inp) = [] \<and> snd (raw inp) = Some e
     | Inr True \<Rightarrow> rl_next rl' < rl_len rl' \<and> unread rl' @ fst (raw r) = unread rl @ fst (raw inp) \<and> snd (raw r) = snd (raw inp)
     | Inr False \<Rightarrow> unread rl @ fst (raw inp) = [] \<and> snd (raw inp) = None \<and> unread rl' = [] \<and> raw r = ([], None))"
proof (cases "rl_len rl \<le> rl_next rl")
  case False
  with assms show ?thesis by (auto simp: refill_def)
next
  case True
  obtain y r' where rd: "sys_read RL_MAX_BUF inp = (y, r')" by fastforce
  note st = sys_read_stream [OF rd, where skip = "\<lambda>_. False"]
  show ?thesis
  proof (cases y)
    case (Rerr e)
    with assms True rd have "x = Inl e" "rl' = rl\<lparr>rl_len := -1\<rparr>" by (auto simp: refill_def)
    with st Rerr assms(1) show ?thesis by (simp add: rl_ok_def unread_Nil [OF True])
  next
    case (Got cs)
    let ?rl = "rl\<lparr>rl_buf := cs @ drop (length cs) (rl_buf rl), rl_len := int (length cs)\<rparr>"
    have cs: "length cs \<le> RL_MAX_BUF" "raw inp = (cs @ fst (raw r'), snd (raw r'))" using st Got by auto
    then have ok: "rl_ok ?rl" using assms(1) by (auto simp: rl_ok_def)
    show ?thesis
    proof (cases "cs = []")
      case e: True
      then have "r' = []" using sys_read_weight [OF rd] Got by auto
      moreover from e have "x = Inr False" "rl' = ?rl" "r = r'" using assms(2) True rd Got by (simp_all add: refill_def)
      moreover have "unread ?rl = []" using e by (simp add: unread_def)
      ultimately show ?thesis using e cs ok by (simp add: unread_Nil [OF True])
    next
      case e: False
      then have "x = Inr True" "rl' = ?rl\<lparr>rl_next := 0\<rparr>" "r = r'" using assms(2) True rd Got by (simp_all add: refill_def Let_def)
      moreover have "rl_ok (?rl\<lparr>rl_next := 0\<rparr>)" "unread (?rl\<lparr>rl_next := 0\<rparr>) = cs"
        using ok by (auto simp: rl_ok_def unread_def)
      ultimately show ?thesis using e cs by (simp add: unread_Nil [OF True])
    qed
  qed
qed

lemma readLineBuf_loop_spec:
  assumes "rl_ok rl" "length buf \<le> n"
  shows "line_spec n buf (unread rl @ fst (raw inp), snd (raw inp)) (readLineBuf_loop n buf rl inp)"
  using assms
proof (induction n buf rl inp rule: readLineBuf_loop.induct)
  case (1 n buf rl inp)
  obtain x rl1 r where rf: "refill rl inp = (x, rl1, r)" by (metis prod_cases3)
  note sp = refill_spec [OF "1.prems"(1) rf]
  have full: "take n buf = buf" using "1.prems"(2) by simp
  consider e where "x = Inl e" | "x = Inr False" | (more) "x = Inr True" by (cases x) auto
  then show ?case
  proof cases
    case (1 e)
    with rf have "readLineBuf_loop n buf rl inp = (Inl e, buf, rl1, r)" by (subst readLineBuf_loop.simps) simp
    with sp 1 full show ?thesis by (simp add: line_spec_def)
  next
    case 2
    with rf have "readLineBuf_loop n buf rl inp = (Inr (length buf), buf, rl1, r)" by (subst readLineBuf_loop.simps) simp
    with sp 2 full show ?thesis by (simp add: line_spec_def)
  next
    case more
    with sp have sp: "rl_ok rl1" "rl_next rl1 < rl_len rl1" "unread rl1 @ fst (raw r) = unread rl @ fst (raw inp)"
      "snd (raw r) = snd (raw inp)" by auto
    define c where "c = rl_buf rl1 ! nat (rl_next rl1)"
    define rl2 where "rl2 = rl1\<lparr>rl_next := rl_next rl1 + 1\<rparr>"
    define buf' where "buf' = (if length buf < n then buf @ [c] else buf)"
    have un: "unread rl @ fst (raw inp) = c # unread rl2 @ fst (raw r)" "rl_ok rl2"
      using unread_Cons [OF sp(1,2)] sp(3) by (simp_all add: c_def rl2_def)
    have take: "take n (buf @ c # y) = take n (buf' @ y)" "length buf' \<le> n" for y
      unfolding buf'_def by (rule take_room [OF "1.prems"(2)])+
    have run: "readLineBuf_loop n buf rl inp =
        (if c = newline then (Inr (length buf'), buf', rl2, r) else readLineBuf_loop n buf' rl2 r)"
      using rf more by (subst readLineBuf_loop.simps) (simp add: c_def rl2_def buf'_def Let_def)
    show ?thesis
    proof (cases "c = newline")
      case True
      then show ?thesis using run un take(1) [of "[]"] take(2) sp(4) by (simp add: line_spec_def)
    next
      case False
      have "line_spec n buf' (unread rl2 @ fst (raw r), snd (raw r)) (readLineBuf_loop n buf' rl2 r)"
        by (rule "1.IH" [OF rf [symmetric] more refl]) (use False un(2) take(2) in \<open>simp_all add: c_def rl2_def buf'_def\<close>)
      moreover have "line_spec n buf (c # y, f) = line_spec n buf' (y, f)" for y f
      proof -
        have "take n (buf @ first_line (c # y)) = take n (buf' @ first_line y)"
          "newline \<in> set (c # y) \<longleftrightarrow> newline \<in> set y" "drop (length (first_line (c # y))) (c # y) = drop (length (first_line y)) y"
          using False take(1) by (simp_all del: take_append)
        then show ?thesis by (simp only: line_spec_def split_conv)
      qed
      ultimately show ?thesis using False by (simp add: run un(1) sp(4))
    qed
  qed
qed

section \<open>The byte stream is all that matters\<close>

text \<open>C12: what writen() sends, readn() receives. However the kernel splits the writes, however the bytes are cut into
  pieces on the way, and whatever signals interrupt both sides, writen() of n bytes succeeds in the absence of
  hard errors, and readn() of n bytes on a stream that begins with what was sent returns exactly these n bytes and leaves
  the rest of the stream unread.\<close>
theorem writen_readn:
  assumes "n \<le> length buf" "no_hard_error ws"
  shows "\<exists>sent ws'. writen n buf ws errno = (Inr n, sent, ws') \<and>
    (\<forall>inp rest f. restarted inp = (sent @ rest, f) \<longrightarrow>
       (\<exists>r. readn n inp = (Inr n, take n buf, r) \<and> restarted r = (rest, f)))"
proof -
  obtain sent ws' where w: "writen_loop n buf [] ws errno = (Inr n, sent, ws')"
    using writen_loop_succeeds [OF assms(1) _ assms(2), of "[]" errno] by auto
  have sent: "sent = take n buf" using writen_loop_spec [OF assms(1) _ w] by simp
  have "\<exists>r. readn n inp = (Inr n, take n buf, r) \<and> restarted r = (rest, f)"
    if "restarted inp = (sent @ rest, f)" for inp rest f
  proof -
    obtain ret out r where r: "readn_loop n [] inp = (ret, out, r)" by (metis prod_cases3)
    show ?thesis
      using readn_loop_spec [OF _ r] that assms(1) by (simp add: readn_def r sent)
  qed
  with w show ?thesis by (auto simp: writen_def)
qed

theorem writen_readn_witness:
  "\<exists>r. readn 4 [Bytes ''ab'', Fail EINTR, Bytes ''cdxyz''] = (Inr 4, ''abcd'', r) \<and> restarted r = (''xyz'', None)"
proof -
  have run: "writen 4 ''abcdef'' [Accepts 1, Wfail EINTR, Accepts 2] 0 = (Inr 4, ''abcd'', [])" by code_simp
  have "restarted [Bytes ''ab'', Fail EINTR, Bytes ''cdxyz''] = (''abcd'' @ ''xyz'', None)" by simp
  then show ?thesis
    using writen_readn [of 4 "''abcdef''" "[Accepts 1, Wfail EINTR, Accepts 2]" 0] run
    by (simp add: no_hard_error_def)
qed

text \<open>C14: readLine() stores the first line of the stream, its newline included, cut to n - 1 characters and
  terminated by a null byte, and consumes the whole line; at end-of-file it stores what is left, and nothing
  if nothing is left; it fails only on a read error other than an interruption. At most n bytes are stored.\<close>
theorem readLine_correct:
  assumes "0 < n" "readLine n False inp = (ret, out, r)" "restarted inp = (bs, f)"
  shows "length out \<le> n \<and>
    (if newline \<in> set bs
     then ret = Inr (length (take (n - 1) (first_line bs))) \<and> out = take (n - 1) (first_line bs) @ [NULb] \<and>
       restarted r = (drop (length (first_line bs)) bs, f)
     else case f of
       None \<Rightarrow> ret = Inr (length (take (n - 1) bs)) \<and>
         out = (if take (n - 1) bs = [] then [] else take (n - 1) bs @ [NULb]) \<and> restarted r = ([], None)
     | Some e \<Rightarrow> ret = Inl e)"
proof -
  have all: "first_line bs = bs" if "newline \<notin> set bs"
    using that by (induction bs) auto
  have "readLine_loop n [] inp = (ret, out, r)" using assms(1,2) by (simp add: readLine_def)
  from readLine_loop_spec [OF this] have sp: "let kept = take (n - 1) (first_line bs) in
     if newline \<in> set bs then ret = Inr (length kept) \<and> out = kept @ [NULb] \<and>
         restarted r = (drop (length (first_line bs)) bs, f)
     else case f of
       None \<Rightarrow> ret = Inr (length kept) \<and> out = (if kept = [] then [] else kept @ [NULb]) \<and> restarted r = ([], None)
     | Some e \<Rightarrow> ret = Inl e \<and> out = kept" by (simp add: assms(3))
  show ?thesis
  proof (cases "newline \<in> set bs")
    case True
    with sp assms(1) show ?thesis by (simp add: Let_def)
  next
    case False
    with sp assms(1) all show ?thesis by (cases f) (auto simp: Let_def)
  qed
qed

theorem readLine_correct_witness:
  "readLine 4 False [Bytes ''abcd'', Fail EINTR, Bytes (''ef'' @ [newline] @ ''g'')] = (Inr 3, ''abc'' @ [NULb], [Bytes ''g''])"
proof -
  let ?inp = "[Bytes ''abcd'', Fail EINTR, Bytes (''ef'' @ [newline] @ ''g'')]"
  have run: "readLine 4 False ?inp = (Inr 3, ''abc'' @ [NULb], [Bytes ''g''])" by code_simp
  have "length (''abc'' @ [NULb]) \<le> 4" using readLine_correct [OF _ run, of "''abcdef'' @ [newline] @ ''g''" None] by simp
  with run show ?thesis by simp
qed

text \<open>C13: the buffered reader readLineBuf() agrees with readLine(). If the characters it has buffered followed by
  the input it reads are the stream that readLine() reads, without errors, then both return the same number and the
  same characters (readLine() needs room for a null byte), both leave the same rest of the stream,
  and the buffer stays well formed.\<close>
theorem readLineBuf_agrees:
  assumes "rl_ok rl" "0 < n" "readLineBuf rl n False inp = (ret, out, rl', r)"
    and "readLine (Suc n) False inp' = (ret', out', r')"
    and "raw inp = (bs, None)" "restarted inp' = (unread rl @ bs, None)"
  shows "ret = ret' \<and> ret = Inr (length out) \<and> out' = (if out = [] then [] else out @ [NULb]) \<and>
    rl_ok rl' \<and> restarted r' = (unread rl' @ fst (raw r), snd (raw r))"
proof -
  let ?bs = "unread rl @ bs"
  have "readLine_loop (Suc n) [] inp' = (ret', out', r')" using assms(4) by (simp add: readLine_def)
  from readLine_loop_spec [OF this, unfolded assms(6) split_conv]
  have rl: "let kept = take n (first_line ?bs) in
     if newline \<in> set ?bs then ret' = Inr (length kept) \<and> out' = kept @ [NULb] \<and>
         restarted r' = (drop (length (first_line ?bs)) ?bs, None)
     else ret' = Inr (length kept) \<and> out' = (if kept = [] then [] else kept @ [NULb]) \<and> restarted r' = ([], None)"
    by (simp only: append_Nil diff_Suc_1 option.case list.size le0)
  have "line_spec n [] (?bs, None) (ret, out, rl', r)"
    using readLineBuf_loop_spec [OF assms(1), of "[]" n inp] assms(2,3,5) by (simp add: readLineBuf_def)
  then have buf: "out = take n (first_line ?bs) \<and> rl_ok rl' \<and> ret = Inr (length out) \<and>
      (if newline \<in> set ?bs then (unread rl' @ fst (raw r), snd (raw r)) = (drop (length (first_line ?bs)) ?bs, None)
       else unread rl' @ fst (raw r) = [] \<and> snd (raw r) = None)"
    unfolding line_spec_def by (cases "newline \<in> set ?bs") (simp_all only: split_conv if_True if_False option.case simp_thms append_Nil)
  have ne: "first_line xs \<noteq> []" if "newline \<in> set xs" for xs using that by (cases xs) auto
  show ?thesis
  proof (cases "newline \<in> set ?bs")
    case True
    with ne [OF this] assms(2) rl buf show ?thesis by (auto simp: Let_def)
  next
    case False
    with rl buf show ?thesis by (simp add: Let_def split: if_splits)
  qed
qed

theorem readLineBuf_agrees_witness:
  "fst (readLineBuf \<lparr>rl_fd = 3, rl_buf = replicate 10 CHR ''x'', rl_next = 0, rl_len = 0\<rparr> 3 False [Bytes ''ab'', Bytes ''cde'']) =
   fst (readLine 4 False [Bytes ''abcde''])"
proof -
  let ?rl = "\<lparr>rl_fd = 3, rl_buf = replicate 10 CHR ''x'', rl_next = 0, rl_len = 0\<rparr>"
  obtain ret out rl' r where run: "readLineBuf ?rl 3 False [Bytes ''ab'', Bytes ''cde''] = (ret, out, rl', r)"
    by (metis prod_cases4)
  obtain ret' out' r' where run': "readLine (Suc 3) False [Bytes ''abcde''] = (ret', out', r')" by (metis prod_cases3)
  have "rl_ok ?rl" "unread ?rl = []" by (simp_all add: rl_ok_def unread_def)
  then have "ret = ret'" using readLineBuf_agrees [OF _ _ run run', of "''abcde''"] by simp
  then show ?thesis using run run' by simp
qed

end
