(* ===== verification/C_Stdio.thy ===== *)
theory C_Stdio
  imports C_Numbers Stream_Io
begin

text \<open>
  The text input functions of the C library that the programs call: \<^verbatim>\<open>fgets()\<close> on the rest of
  a text file, and the conversions of \<^verbatim>\<open>sscanf()\<close>.  A conversion returns the value and the
  rest of the text, or \<open>None\<close> where the scan stops.
\<close>

definition fgets :: "nat \<Rightarrow> string \<Rightarrow> (string \<times> string) option" where
  "fgets n s = (if s = [] then None else let l = take (n - 1) (first_line s) in Some (l, drop (length l) s))"

definition skip_space :: "string \<Rightarrow> string" where
  "skip_space s = dropWhile isspace s"

text \<open>\<^verbatim>\<open>%lld\<close> and \<^verbatim>\<open>%d\<close>: a 64-bit number, cut to 32 bits for the latter.\<close>

definition scan_lld :: "string \<Rightarrow> (int \<times> string) option" where
  "scan_lld s = (case strtol s 10 of (v, r, _) \<Rightarrow> if r = s then None else Some (v, r))"

definition scan_d :: "string \<Rightarrow> (int \<times> string) option" where
  "scan_d s = map_option (\<lambda>(v, r). (int_of_long v, r)) (scan_lld s)"

fun scan_c :: "string \<Rightarrow> (char \<times> string) option" where
  "scan_c [] = None"
| "scan_c (c # cs) = Some (c, cs)"

lemma fgets_shorter: "fgets n s = Some (l, r) \<Longrightarrow> 1 < n \<Longrightarrow> length r < length s"
  by (cases s) (auto simp: fgets_def first_line_def Let_def split: if_splits)

lemma first_line_prefix: "first_line s = take (length (first_line s)) s"
  by (induction s) auto

lemma fgets_split: "fgets n s = Some (l, r) \<Longrightarrow> 1 < n \<Longrightarrow> s = l @ r \<and> l \<noteq> []"
proof -
  assume g: "fgets n s = Some (l, r)" "1 < n"
  then have s: "s \<noteq> []" and l: "l = take (n - 1) (first_line s)" and r: "r = drop (length l) s"
    by (auto simp: fgets_def Let_def split: if_splits)
  have "l = take (length l) s" unfolding l by (subst first_line_prefix) (simp add: min_def)
  then have "s = l @ r" unfolding r by (metis append_take_drop_id)
  moreover have "l \<noteq> []" using s g(2) unfolding l by (cases s) auto
  ultimately show ?thesis by simp
qed

lemma strtol_skip:
  assumes "strtol s 10 = (v, r, e)" "r \<noteq> s" "list_all isspace ws"
  shows "strtol (ws @ s) 10 = (v, r, e)"
proof -
  have "dropWhile isspace (ws @ s) = dropWhile isspace s"
    using assms(3) by (induction ws) auto
  then show ?thesis
    using assms(1,2) by (auto simp: strtol_def Let_def split: prod.splits if_splits)
qed

lemma scan_lld_decimal:
  assumes "list_all isspace ws" "rest = [] \<or> \<not> is_digit 10 (hd rest)" "int n \<le> LONG_MAX"
  shows "scan_lld (ws @ decimal n @ rest) = Some (int n, rest)"
proof -
  have c: "clamp_long (int n) = int n" using assms(3) by (simp add: clamp_long_def LONG_MIN_def)
  have s: "strtol (decimal n @ rest) 10 = (int n, rest, False)"
    using strtol_decimal_prefix [OF assms(2), of n] by (simp add: c)
  have "rest \<noteq> decimal n @ rest" "rest \<noteq> ws @ decimal n @ rest" using decimal_digits [of n] by auto
  with strtol_skip [OF s _ assms(1)] show ?thesis by (simp add: scan_lld_def)
qed

lemma int_of_long_nonneg: "0 \<le> v \<Longrightarrow> v \<le> INT_MAX \<Longrightarrow> int_of_long v = v"
  by (simp add: int_of_long_def INT_MAX_def)

lemma scan_d_decimal:
  assumes "list_all isspace ws" "rest = [] \<or> \<not> is_digit 10 (hd rest)" "int n \<le> INT_MAX"
  shows "scan_d (ws @ decimal n @ rest) = Some (int n, rest)"
proof -
  have "int n \<le> LONG_MAX" using assms(3) by (simp add: INT_MAX_def LONG_MAX_def)
  with scan_lld_decimal [OF assms(1,2)] int_of_long_nonneg [OF _ assms(3)] show ?thesis by (simp add: scan_d_def)
qed

text \<open>A file of short lines is read line by line.\<close>

lemma fgets_line:
  assumes "newline \<notin> set l" "length l + 2 \<le> n"
  shows "fgets n (l @ newline # rest) = Some (l @ [newline], rest)"
proof -
  have "first_line (l @ newline # rest) = l @ [newline]" using assms(1) by (induction l) auto
  with assms(2) show ?thesis by (simp add: fgets_def Let_def)
qed

text \<open>Signed numerals.\<close>

lemma strtol_decimal_int_prefix:
  assumes "rest = [] \<or> \<not> is_digit 10 (hd rest)"
  shows "strtol (decimal_int i @ rest) 10 = (clamp_long i, rest, clamp_long i \<noteq> i)"
proof (cases "i < 0")
  case True
  let ?ds = "decimal (nat (- i))"
  have ds: "?ds \<noteq> []" "list_all (is_digit 10) ?ds" using decimal_digits by auto
  have tw: "takeWhile (is_digit 10) (?ds @ rest) = ?ds" "dropWhile (is_digit 10) (?ds @ rest) = rest"
    using ds(2) assms by (auto simp: list_all_iff takeWhile_append dropWhile_append takeWhile_eq_Nil_iff dropWhile_eq_self_iff)
  have nb: "number_base 10 (?ds @ rest) = (10, ?ds @ rest)" by (simp add: number_base_def)
  have sg: "split_sign (dropWhile isspace (decimal_int i @ rest)) = (True, ?ds @ rest)"
    using True by (simp add: decimal_int_def isspace_def)
  show ?thesis
    using ds(1) LONG_MIN_less True
    by (simp only: strtol_def sg nb tw clamp_long_def Let_def prod.case if_True) simp
qed (use strtol_decimal_prefix [OF assms, of "nat i"] in \<open>simp add: decimal_int_def\<close>)

lemma scan_lld_decimal_int:
  assumes "list_all isspace ws" "rest = [] \<or> \<not> is_digit 10 (hd rest)" "LONG_MIN \<le> i" "i \<le> LONG_MAX"
  shows "scan_lld (ws @ decimal_int i @ rest) = Some (i, rest)"
proof -
  have c: "clamp_long i = i" using assms(3,4) by (simp add: clamp_long_def)
  have s: "strtol (decimal_int i @ rest) 10 = (i, rest, False)"
    using strtol_decimal_int_prefix [OF assms(2), of i] by (simp add: c)
  have n: "decimal_int i \<noteq> []" using decimal_digits by (simp add: decimal_int_def)
  have "rest \<noteq> decimal_int i @ rest" "rest \<noteq> ws @ decimal_int i @ rest" using n by auto
  with strtol_skip [OF s _ assms(1)] show ?thesis by (simp add: scan_lld_def)
qed

lemma decimal_long_length: "LONG_MIN \<le> i \<Longrightarrow> i \<le> LONG_MAX \<Longrightarrow> length (decimal_int i) \<le> 20"
proof -
  assume i: "LONG_MIN \<le> i" "i \<le> LONG_MAX"
  have "nat i < 10 ^ Suc 18" "nat (- i) < 10 ^ Suc 18" using i by (simp_all add: LONG_MIN_def LONG_MAX_def)
  then show ?thesis using decimal_length [of "nat i" 18] decimal_length [of "nat (- i)" 18] by (simp add: decimal_int_def)
qed

lemma line_chars: "c \<in> set (decimal_int i) \<Longrightarrow> c \<noteq> newline \<and> c \<noteq> NULb"
proof -
  have d: "c \<in> set (decimal k) \<Longrightarrow> c \<noteq> newline \<and> c \<noteq> NULb" for k
    using decimal_digits [of k]
    by (auto simp: list_all_iff is_digit_def digit_val_def Let_def dest!: bspec [of _ _ c] split: if_splits option.splits)
  show "c \<in> set (decimal_int i) \<Longrightarrow> c \<noteq> newline \<and> c \<noteq> NULb"
    using d [of "nat i"] d [of "nat (- i)"] by (auto simp: decimal_int_def split: if_splits)
qed

end
