(* ===== verification/Get_Num.thy ===== *)
theory Get_Num
  imports C_Numbers
begin

text \<open>
  \<^verbatim>\<open>lib/get_num.c\<close> (the conversion of numeric command-line arguments) and
  \<^verbatim>\<open>lib/error_functions.c\<close> (diagnostics and termination).  The lemmas state exactly which
  arguments \<^verbatim>\<open>getLong()\<close> and \<^verbatim>\<open>getInt()\<close> accept and what they return, that every other argument
  ends the process, and that the error functions terminate it as documented.
\<close>

section \<open>Output of a process\<close>

text \<open>
  The part of a process the library touches: data buffered for standard output, data that
  reached standard output and standard error, \<^verbatim>\<open>errno\<close>, and the environment variable
  \<^verbatim>\<open>EF_DUMPCORE\<close>.
\<close>

record proc =
  stdout_buf :: string
  stdout_text :: string
  stderr_text :: string
  errno :: int
  ef_dumpcore :: "string option"

definition fflush_stdout :: "proc \<Rightarrow> proc" where
  "fflush_stdout s = s\<lparr>stdout_text := stdout_text s @ stdout_buf s, stdout_buf := []\<rparr>"

definition fputs_stderr :: "string \<Rightarrow> proc \<Rightarrow> proc" where
  "fputs_stderr msg s = s\<lparr>stderr_text := stderr_text s @ msg\<rparr>"

text \<open>\<^verbatim>\<open>exit()\<close> flushes the stdio buffers; \<^verbatim>\<open>_exit()\<close> and \<^verbatim>\<open>abort()\<close> do not.\<close>

definition do_exit :: "int \<Rightarrow> proc \<Rightarrow> (proc, 'a) run" where
  "do_exit status s = Halt (Exit status) (fflush_stdout s)"

section \<open>Error functions\<close>

definition terminate :: "bool \<Rightarrow> proc \<Rightarrow> (proc, 'a) run" where
  "terminate useExit3 s =
     (if ef_dumpcore s \<noteq> None \<and> ef_dumpcore s \<noteq> Some [] then Halt Abort s
      else if useExit3 then do_exit EXIT_FAILURE s
      else Halt (Exit_now EXIT_FAILURE) s)"

abbreviation (input) BUF_SIZE :: nat where "BUF_SIZE \<equiv> 500"

text \<open>
  The generated table \<open>ename\<close> with its bound \<^verbatim>\<open>MAX_ENAME\<close>, and \<^verbatim>\<open>strerror()\<close>, are parameters;
  the message of the caller is already formatted.
\<close>

record env_tables =
  ename :: "int \<Rightarrow> string"
  MAX_ENAME :: int
  strerror :: "int \<Rightarrow> string"

definition nl :: string where "nl = [CHR 0x0A]"

definition outputError :: "env_tables \<Rightarrow> bool \<Rightarrow> int \<Rightarrow> bool \<Rightarrow> string \<Rightarrow> proc \<Rightarrow> proc" where
  "outputError tb useErr err flushStdout msg s =
     (let userMsg = snprintf_str BUF_SIZE msg;
          errText = (if useErr
                     then snprintf_str BUF_SIZE ('' ['' @
                            (if err > 0 \<and> err \<le> MAX_ENAME tb then ename tb err else ''?UNKNOWN?'') @
                            '' '' @ strerror tb err @ '']'')
                     else snprintf_str BUF_SIZE '':'');
          buf = snprintf_str BUF_SIZE (''ERROR'' @ errText @ '' '' @ userMsg @ nl);
          s = (if flushStdout then fflush_stdout s else s)
      in fputs_stderr buf s)"

definition errMsg :: "env_tables \<Rightarrow> string \<Rightarrow> proc \<Rightarrow> proc" where
  "errMsg tb msg s =
     (let savedErrno = errno s
      in (outputError tb True (errno s) True msg s)\<lparr>errno := savedErrno\<rparr>)"

definition errExit :: "env_tables \<Rightarrow> string \<Rightarrow> proc \<Rightarrow> (proc, 'a) run" where
  "errExit tb msg s = terminate True (outputError tb True (errno s) True msg s)"

definition err_exit :: "env_tables \<Rightarrow> string \<Rightarrow> proc \<Rightarrow> (proc, 'a) run" where
  "err_exit tb msg s = terminate False (outputError tb True (errno s) False msg s)"

definition errExitEN :: "env_tables \<Rightarrow> int \<Rightarrow> string \<Rightarrow> proc \<Rightarrow> (proc, 'a) run" where
  "errExitEN tb errnum msg s = terminate True (outputError tb True errnum True msg s)"

definition fatal :: "env_tables \<Rightarrow> string \<Rightarrow> proc \<Rightarrow> (proc, 'a) run" where
  "fatal tb msg s = terminate True (outputError tb False 0 True msg s)"

definition usageErr :: "string \<Rightarrow> proc \<Rightarrow> (proc, 'a) run" where
  "usageErr msg s =
     do_exit EXIT_FAILURE (fputs_stderr msg (fputs_stderr ''Usage: '' (fflush_stdout s)))"

definition cmdLineErr :: "string \<Rightarrow> proc \<Rightarrow> (proc, 'a) run" where
  "cmdLineErr msg s =
     do_exit EXIT_FAILURE (fputs_stderr msg (fputs_stderr ''Command-line usage error: '' (fflush_stdout s)))"

section \<open>Numeric arguments\<close>

abbreviation (input) GN_NONNEG :: "32 word" where "GN_NONNEG \<equiv> 1"
abbreviation (input) GN_GT_0 :: "32 word" where "GN_GT_0 \<equiv> 2"
abbreviation (input) GN_ANY_BASE :: "32 word" where "GN_ANY_BASE \<equiv> 64"
abbreviation (input) GN_BASE_8 :: "32 word" where "GN_BASE_8 \<equiv> 128"
abbreviation (input) GN_BASE_16 :: "32 word" where "GN_BASE_16 \<equiv> 256"

definition gnFail :: "string \<Rightarrow> string \<Rightarrow> string option \<Rightarrow> string option \<Rightarrow> proc \<Rightarrow> (proc, 'a) run" where
  "gnFail fname msg arg name s =
     (let s = fputs_stderr (fname @ '' error'') s;
          s = (case name of None \<Rightarrow> s | Some n \<Rightarrow> fputs_stderr ('' (in '' @ n @ '')'') s);
          s = fputs_stderr ('': '' @ msg @ nl) s;
          s = (case arg of
                 None \<Rightarrow> s
               | Some a \<Rightarrow> if a \<noteq> [] then fputs_stderr (''        offending text: '' @ a @ nl) s else s)
      in do_exit EXIT_FAILURE s)"

definition gn_base :: "32 word \<Rightarrow> nat" where
  "gn_base flags =
     (if flags AND GN_ANY_BASE \<noteq> 0 then 0
      else if flags AND GN_BASE_8 \<noteq> 0 then 8
      else if flags AND GN_BASE_16 \<noteq> 0 then 16 else 10)"

abbreviation (input) ERANGE :: int where "ERANGE \<equiv> 34"

definition getNum ::
  "string \<Rightarrow> string option \<Rightarrow> 32 word \<Rightarrow> string option \<Rightarrow> proc \<Rightarrow> (proc, int) run" where
  "getNum fname arg flags name s =
     (if arg = None \<or> arg = Some [] then gnFail fname ''null or empty string'' arg name s
      else
        let (res, endptr, erange) = strtol (the arg) (gn_base flags);
            s = s\<lparr>errno := (if erange then ERANGE else 0)\<rparr>
        in if errno s \<noteq> 0 then gnFail fname ''strtol() failed'' arg name s
           else if endptr \<noteq> [] then gnFail fname ''nonnumeric characters'' arg name s
           else if flags AND GN_NONNEG \<noteq> 0 \<and> res < 0
           then gnFail fname ''negative value not allowed'' arg name s
           else if flags AND GN_GT_0 \<noteq> 0 \<and> res \<le> 0
           then gnFail fname ''value must be > 0'' arg name s
           else Done res s)"

definition getLong :: "string option \<Rightarrow> 32 word \<Rightarrow> string option \<Rightarrow> proc \<Rightarrow> (proc, int) run" where
  "getLong arg flags name s = getNum ''getLong'' arg flags name s"

definition getInt :: "string option \<Rightarrow> 32 word \<Rightarrow> string option \<Rightarrow> proc \<Rightarrow> (proc, int) run" where
  "getInt arg flags name s =
     andThen (getNum ''getInt'' arg flags name s) (\<lambda>res s.
       if res > INT_MAX \<or> res < INT_MIN then gnFail ''getInt'' ''integer out of range'' arg name s
       else Done (int_of_long res) s)"

section \<open>What the conversions accept\<close>

definition flags_allow :: "32 word \<Rightarrow> int \<Rightarrow> bool" where
  "flags_allow flags v \<longleftrightarrow>
     (flags AND GN_NONNEG \<noteq> 0 \<longrightarrow> 0 \<le> v) \<and> (flags AND GN_GT_0 \<noteq> 0 \<longrightarrow> 0 < v)"

lemma gnFail_exits: "gnFail fname msg arg name s = Done v t \<longleftrightarrow> False"
  "holds Q (\<lambda>h _. h = Exit EXIT_FAILURE) (gnFail fname msg arg name s)"
  by (simp_all add: gnFail_def do_exit_def Let_def)

lemma getNum_iff:
  "(\<exists>t. getNum fname arg flags name s = Done v t) \<longleftrightarrow>
     (\<exists>a. arg = Some a \<and> a \<noteq> [] \<and> strtol a (gn_base flags) = (v, [], False) \<and> flags_allow flags v)"
  by (cases arg) (auto simp: getNum_def gnFail_exits flags_allow_def Let_def split: prod.splits if_splits)

lemma getNum_else_exits:
  "holds (\<lambda>_ t. t = s\<lparr>errno := 0\<rparr>) (\<lambda>h _. h = Exit EXIT_FAILURE) (getNum fname arg flags name s)"
  by (auto simp: getNum_def gnFail_exits Let_def split: prod.splits)

lemma strtol_decimal_iff:
  assumes "a \<noteq> []"
  shows "strtol a 10 = (v, [], False) \<longleftrightarrow> denotes a v \<and> LONG_MIN \<le> v \<and> v \<le> LONG_MAX"
proof
  assume st: "strtol a 10 = (v, [], False)"
  with assms have d: "denotes a v" by (intro strtol_complete)
  from strtol_denotes [OF this] st LONG_MIN_less show "denotes a v \<and> LONG_MIN \<le> v \<and> v \<le> LONG_MAX"
    using d by (auto simp: clamp_long_def split: if_splits)
next
  assume "denotes a v \<and> LONG_MIN \<le> v \<and> v \<le> LONG_MAX"
  then have "denotes a v" "clamp_long v = v" by (simp_all add: clamp_long_def)
  then show "strtol a 10 = (v, [], False)" by (simp add: strtol_denotes [of a v])
qed

lemma int_of_long_id: "INT_MIN \<le> v \<Longrightarrow> v \<le> INT_MAX \<Longrightarrow> int_of_long v = v"
  by (simp add: int_of_long_def INT_MIN_def INT_MAX_def)

lemma denotes_nonempty: "denotes a v \<Longrightarrow> a \<noteq> []"
  by (auto simp: denotes_def)

lemma getInt_iff:
  "(\<exists>t. getInt arg flags name s = Done v t) \<longleftrightarrow>
     (\<exists>t. getNum ''getInt'' arg flags name s = Done v t) \<and> INT_MIN \<le> v \<and> v \<le> INT_MAX"
  unfolding getInt_def
  by (cases "getNum ''getInt'' arg flags name s")
    (auto simp: gnFail_exits int_of_long_id)

lemma getInt_else_exits:
  "holds (\<lambda>_ t. t = s\<lparr>errno := 0\<rparr>) (\<lambda>h _. h = Exit EXIT_FAILURE) (getInt arg flags name s)"
  unfolding getInt_def
  by (rule holds_andThen [OF getNum_else_exits]) (simp add: gnFail_exits)

text \<open>
  C22: \<^verbatim>\<open>getInt()\<close> with decimal flags returns exactly on the decimal numerals of \<^verbatim>\<open>int\<close> values that
  the flags allow, and returns that value with \<^verbatim>\<open>errno\<close> cleared; on every other argument the
  process exits with a failure status.
\<close>

theorem getInt_correct:
  assumes "gn_base flags = 10"
  shows "((\<exists>t. getInt arg flags name s = Done v t) \<longleftrightarrow>
           (\<exists>a. arg = Some a \<and> denotes a v \<and> INT_MIN \<le> v \<and> v \<le> INT_MAX \<and> flags_allow flags v)) \<and>
         holds (\<lambda>_ t. t = s\<lparr>errno := 0\<rparr>) (\<lambda>h _. h = Exit EXIT_FAILURE) (getInt arg flags name s)"
proof -
  have long: "LONG_MIN \<le> v \<and> v \<le> LONG_MAX" if "INT_MIN \<le> v" "v \<le> INT_MAX"
    using that by (auto simp: LONG_MIN_def LONG_MAX_def INT_MIN_def INT_MAX_def)
  have "(\<exists>t. getInt arg flags name s = Done v t) \<longleftrightarrow>
      (\<exists>a. arg = Some a \<and> a \<noteq> [] \<and> (denotes a v \<and> LONG_MIN \<le> v \<and> v \<le> LONG_MAX) \<and> flags_allow flags v) \<and>
      INT_MIN \<le> v \<and> v \<le> INT_MAX"
    unfolding getInt_iff getNum_iff assms by (metis strtol_decimal_iff)
  then show ?thesis
    using long denotes_nonempty getInt_else_exits by auto
qed

text \<open>A process that has printed nothing.\<close>

definition fresh_proc :: proc where
  "fresh_proc = \<lparr>stdout_buf = [], stdout_text = [], stderr_text = [], errno = 0, ef_dumpcore = None\<rparr>"

theorem getInt_correct_witness:
  "\<exists>t. getInt (Some '' -42'') 0 None fresh_proc = Done (-42) t"
proof -
  have "denotes '' -42'' (-42)"
    unfolding denotes_def
    by (intro exI [of _ "'' ''"] exI [of _ "''-''"] exI [of _ "''42''"])
      (simp add: isspace_def is_digit_def digit_val_def digits_value_def)
  then show ?thesis
    using getInt_correct [of 0 "Some '' -42''" None fresh_proc "-42"]
    by (simp add: gn_base_def INT_MIN_def INT_MAX_def flags_allow_def)
qed

text \<open>
  Printing an \<^verbatim>\<open>int\<close> in decimal and converting it with \<^verbatim>\<open>getInt()\<close> gives it back.
\<close>

theorem getInt_decimal:
  assumes "INT_MIN \<le> i" "i \<le> INT_MAX" "gn_base flags = 10" "flags_allow flags i"
  shows "getInt (Some (decimal_int i)) flags name s = Done i (s\<lparr>errno := 0\<rparr>)"
proof -
  have "\<exists>t. getInt (Some (decimal_int i)) flags name s = Done i t"
    using assms denotes_decimal_int [of i] denotes_nonempty
    by (auto simp: getInt_iff getNum_iff strtol_decimal_iff LONG_MIN_def LONG_MAX_def INT_MIN_def INT_MAX_def)
  moreover note getInt_else_exits [of s "Some (decimal_int i)" flags name]
  ultimately show ?thesis by auto
qed

theorem getInt_decimal_witness:
  "getInt (Some (decimal_int (-2147483648))) 0 None fresh_proc = Done (-2147483648) fresh_proc"
  using getInt_decimal [of "-2147483648" 0 None fresh_proc]
  by (simp add: gn_base_def INT_MIN_def INT_MAX_def flags_allow_def fresh_proc_def)

section \<open>How the error functions end the process\<close>

definition diagnostic :: "env_tables \<Rightarrow> bool \<Rightarrow> int \<Rightarrow> string \<Rightarrow> string" where
  "diagnostic tb useErr err msg = stderr_text (outputError tb useErr err False msg fresh_proc)"

lemma outputError_frame:
  "stderr_text (outputError tb u e fl msg s) = stderr_text s @ diagnostic tb u e msg"
  "stdout_text (outputError tb u e fl msg s) = (if fl then stdout_text s @ stdout_buf s else stdout_text s)"
  "stdout_buf (outputError tb u e fl msg s) = (if fl then [] else stdout_buf s)"
  "ef_dumpcore (outputError tb u e fl msg s) = ef_dumpcore s"
  "errno (outputError tb u e fl msg s) = errno s"
  by (simp_all add: outputError_def diagnostic_def fputs_stderr_def fflush_stdout_def fresh_proc_def Let_def)

lemma length_diagnostic: "length (diagnostic tb u e msg) < BUF_SIZE"
  by (simp add: diagnostic_def outputError_def fputs_stderr_def fresh_proc_def snprintf_str_def Let_def)

text \<open>
  Unless a core dump was requested, \<^verbatim>\<open>errExit()\<close> flushes standard output, writes one
  diagnostic of fewer than \<^verbatim>\<open>BUF_SIZE\<close> bytes and exits with a failure status, while \<^verbatim>\<open>err_exit()\<close>
  writes the same diagnostic, leaves the buffered output unwritten and calls \<^verbatim>\<open>_exit()\<close>;
  \<^verbatim>\<open>errMsg()\<close> writes it, returns, and preserves \<^verbatim>\<open>errno\<close>.  With a core dump requested the
  terminating functions abort.
\<close>

theorem error_functions:
  "length (diagnostic tb True (errno s) msg) < BUF_SIZE \<and>
    (\<exists>t. errExit tb msg s =
           Halt (if ef_dumpcore s \<in> {None, Some []} then Exit EXIT_FAILURE else Abort) t \<and>
         stderr_text t = stderr_text s @ diagnostic tb True (errno s) msg \<and> stdout_text t = stdout_text s @ stdout_buf s \<and> stdout_buf t = []) \<and>
    (\<exists>t. err_exit tb msg s =
           Halt (if ef_dumpcore s \<in> {None, Some []} then Exit_now EXIT_FAILURE else Abort) t \<and>
         stderr_text t = stderr_text s @ diagnostic tb True (errno s) msg \<and> stdout_text t = stdout_text s \<and> stdout_buf t = stdout_buf s) \<and>
    stderr_text (errMsg tb msg s) = stderr_text s @ diagnostic tb True (errno s) msg \<and> errno (errMsg tb msg s) = errno s"
  by (auto simp: length_diagnostic errExit_def err_exit_def errMsg_def terminate_def do_exit_def
      outputError_frame Let_def fflush_stdout_def)

end
