(* ===== verification/Seqnum.thy ===== *)
theory Seqnum
  imports C_Stdio Get_Num
begin

text \<open>
  The Internet socket library \<^verbatim>\<open>sockets/inet_sockets.c\<close> and the sequence-number service built on
  it and on \<^verbatim>\<open>readLine()\<close>: the servers \<^verbatim>\<open>is_seqnum_sv.c\<close> and \<^verbatim>\<open>is_seqnum_v2_sv.c\<close> and the clients
  \<^verbatim>\<open>is_seqnum_cl.c\<close> and \<^verbatim>\<open>is_seqnum_v2_cl.c\<close>.  The resolver and the socket calls are parameters
  over an abstract kernel state; the model keeps the descriptors that are open.
  A server handles a finite list of connections, each with the bytes its client sends.
\<close>

section \<open>Sockets\<close>

record addrinfo =
  ai_family :: int
  ai_addr :: string
  ai_addrlen :: nat

record 'k net =
  nt_proc :: proc
  nt_open :: "nat list"     \<comment> \<open>the open socket descriptors\<close>
  seqNum :: "32 word"       \<comment> \<open>of a server: the next sequence number\<close>
  replies :: "string list"  \<comment> \<open>what was sent on the connections so far\<close>
  nt_kern :: 'k

record 'k net_sys =
  getaddrinfo :: "string option \<Rightarrow> string \<Rightarrow> 'k \<Rightarrow> (int + addrinfo list) \<times> 'k"
  socket :: "addrinfo \<Rightarrow> 'k \<Rightarrow> (int + nat) \<times> 'k"
  setsockopt :: "nat \<Rightarrow> 'k \<Rightarrow> int option \<times> 'k"
  bind_sock :: "nat \<Rightarrow> addrinfo \<Rightarrow> 'k \<Rightarrow> int option \<times> 'k"
  listen_sock :: "nat \<Rightarrow> int \<Rightarrow> 'k \<Rightarrow> int option \<times> 'k"
  connect_sock :: "nat \<Rightarrow> addrinfo \<Rightarrow> 'k \<Rightarrow> int option \<times> 'k"

text \<open>A call that sets \<^verbatim>\<open>errno\<close> when it fails; and the same for the calls that return a descriptor.\<close>

definition net_call :: "('k \<Rightarrow> int option \<times> 'k) \<Rightarrow> 'k net \<Rightarrow> bool \<times> 'k net" where
  "net_call f s =
     (case f (nt_kern s) of
        (None, k) \<Rightarrow> (True, s\<lparr>nt_kern := k\<rparr>)
      | (Some e, k) \<Rightarrow> (False, s\<lparr>nt_kern := k, nt_proc := (nt_proc s)\<lparr>errno := e\<rparr>\<rparr>))"

definition open_socket :: "'k net_sys \<Rightarrow> addrinfo \<Rightarrow> 'k net \<Rightarrow> nat option \<times> 'k net" where
  "open_socket N rp s =
     (case socket N rp (nt_kern s) of
        (Inl e, k) \<Rightarrow> (None, s\<lparr>nt_kern := k, nt_proc := (nt_proc s)\<lparr>errno := e\<rparr>\<rparr>)
      | (Inr fd, k) \<Rightarrow> (Some fd, s\<lparr>nt_kern := k, nt_open := fd # nt_open s\<rparr>))"

definition close_socket :: "nat \<Rightarrow> 'k net \<Rightarrow> 'k net" where
  "close_socket fd s = s\<lparr>nt_open := remove1 fd (nt_open s)\<rparr>"

text \<open>The loop of \<^verbatim>\<open>inetConnect()\<close> over the list of addresses.\<close>

fun connect_walk :: "'k net_sys \<Rightarrow> addrinfo list \<Rightarrow> 'k net \<Rightarrow> nat option \<times> 'k net" where
  "connect_walk N [] s = (None, s)"
| "connect_walk N (rp # rps) s =
     (case open_socket N rp s of
        (None, s) \<Rightarrow> connect_walk N rps s
      | (Some sfd, s) \<Rightarrow>
          (case net_call (connect_sock N sfd rp) s of
             (True, s) \<Rightarrow> (Some sfd, s)
           | (False, s) \<Rightarrow> connect_walk N rps (close_socket sfd s)))"

abbreviation (input) ENOSYS :: int where "ENOSYS \<equiv> 38"

definition inetConnect :: "'k net_sys \<Rightarrow> string option \<Rightarrow> string \<Rightarrow> 'k net \<Rightarrow> nat option \<times> 'k net" where
  "inetConnect N host service s =
     (case getaddrinfo N host service (nt_kern s) of
        (Inl _, k) \<Rightarrow> (None, s\<lparr>nt_kern := k, nt_proc := (nt_proc s)\<lparr>errno := ENOSYS\<rparr>\<rparr>)
      | (Inr rs, k) \<Rightarrow> connect_walk N rs (s\<lparr>nt_kern := k\<rparr>))"

text \<open>
  The loop of \<^verbatim>\<open>inetPassiveSocket()\<close>: the descriptor and the address it is bound to, no address
  left, or (\<open>Inl\<close>) the failure of \<^verbatim>\<open>setsockopt()\<close>.
\<close>

fun passive_walk ::
  "'k net_sys \<Rightarrow> bool \<Rightarrow> addrinfo list \<Rightarrow> 'k net \<Rightarrow> (unit + (nat \<times> addrinfo) option) \<times> 'k net" where
  "passive_walk N doListen [] s = (Inr None, s)"
| "passive_walk N doListen (rp # rps) s =
     (case open_socket N rp s of
        (None, s) \<Rightarrow> passive_walk N doListen rps s
      | (Some sfd, s) \<Rightarrow>
          (case (if doListen then net_call (setsockopt N sfd) s else (True, s)) of
             (False, s) \<Rightarrow> (Inl (), close_socket sfd s)
           | (True, s) \<Rightarrow>
               (case net_call (bind_sock N sfd rp) s of
                  (True, s) \<Rightarrow> (Inr (Some (sfd, rp)), s)
                | (False, s) \<Rightarrow> passive_walk N doListen rps (close_socket sfd s))))"

definition inetPassiveSocket ::
  "'k net_sys \<Rightarrow> string \<Rightarrow> bool \<Rightarrow> int \<Rightarrow> 'k net \<Rightarrow> (nat \<times> nat) option \<times> 'k net" where
  "inetPassiveSocket N service doListen backlog s =
     (case getaddrinfo N None service (nt_kern s) of
        (Inl _, k) \<Rightarrow> (None, s\<lparr>nt_kern := k\<rparr>)
      | (Inr rs, k) \<Rightarrow>
          (case passive_walk N doListen rs (s\<lparr>nt_kern := k\<rparr>) of
             (Inl _, s) \<Rightarrow> (None, s)
           | (Inr None, s) \<Rightarrow> (None, s)
           | (Inr (Some (sfd, rp)), s) \<Rightarrow>
               (case (if doListen then net_call (listen_sock N sfd backlog) s else (True, s)) of
                  (False, s) \<Rightarrow> (None, s)
                | (True, s) \<Rightarrow> (Some (sfd, ai_addrlen rp), s))))"

definition inetListen :: "'k net_sys \<Rightarrow> string \<Rightarrow> int \<Rightarrow> 'k net \<Rightarrow> (nat \<times> nat) option \<times> 'k net" where
  "inetListen N service backlog s = inetPassiveSocket N service True backlog s"

definition inetBind :: "'k net_sys \<Rightarrow> string \<Rightarrow> 'k net \<Rightarrow> (nat \<times> nat) option \<times> 'k net" where
  "inetBind N service s = inetPassiveSocket N service False 0 s"

text \<open>The result of \<^verbatim>\<open>getnameinfo()\<close> is a parameter: the host and service names, or a failure.\<close>

definition inetAddressStr :: "(string \<times> string) option \<Rightarrow> nat \<Rightarrow> string" where
  "inetAddressStr name addrStrLen =
     snprintf_str addrStrLen
       (case name of Some (host, service) \<Rightarrow> ''('' @ host @ '', '' @ service @ '')'' | None \<Rightarrow> ''(?UNKNOWN?)'')"

section \<open>Descriptors are not leaked\<close>

lemma net_call_open: "net_call f s = (b, t) \<Longrightarrow> nt_open t = nt_open s"
  by (auto simp: net_call_def split: prod.splits option.splits)

lemma open_socket_open:
  "open_socket N rp s = (x, t) \<Longrightarrow> nt_open t = (case x of None \<Rightarrow> nt_open s | Some fd \<Rightarrow> fd # nt_open s)"
  by (auto simp: open_socket_def split: prod.splits sum.splits)

lemma connect_walk_open:
  "connect_walk N rs s = (x, t) \<Longrightarrow> nt_open t = (case x of None \<Rightarrow> nt_open s | Some fd \<Rightarrow> fd # nt_open s)"
proof (induction rs arbitrary: s)
  case (Cons rp rps)
  obtain y s1 where o: "open_socket N rp s = (y, s1)" by fastforce
  show ?case
  proof (cases y)
    case None
    then have s1: "nt_open s1 = nt_open s" using open_socket_open [OF o] by simp
    show ?thesis using Cons.prems Cons.IH [of s1, unfolded s1] o None by simp
  next
    case (Some sfd)
    obtain b s2 where c: "net_call (connect_sock N sfd rp) s1 = (b, s2)" by fastforce
    have s2: "nt_open s2 = sfd # nt_open s" using net_call_open [OF c] open_socket_open [OF o] Some by simp
    then have cl: "nt_open (close_socket sfd s2) = nt_open s" by (simp add: close_socket_def)
    show ?thesis
      using Cons.prems Cons.IH [of "close_socket sfd s2", unfolded cl] o Some c s2 by (cases b) auto
  qed
qed simp

lemma passive_walk_open:
  "passive_walk N d rs s = (x, t) \<Longrightarrow>
     nt_open t = (case x of Inr (Some (fd, _)) \<Rightarrow> fd # nt_open s | _ \<Rightarrow> nt_open s) \<and> (x = Inl () \<longrightarrow> d)"
proof (induction rs arbitrary: s)
  case (Cons rp rps)
  obtain y s1 where o: "open_socket N rp s = (y, s1)" by fastforce
  show ?case
  proof (cases y)
    case None
    then have s1: "nt_open s1 = nt_open s" using open_socket_open [OF o] by simp
    show ?thesis using Cons.prems Cons.IH [of s1, unfolded s1] o None by simp
  next
    case (Some sfd)
    obtain b s2 where c: "(if d then net_call (setsockopt N sfd) s1 else (True, s1)) = (b, s2)" by fastforce
    then have s2: "nt_open s2 = sfd # nt_open s" "\<not> b \<longrightarrow> d"
      using net_call_open [of _ s1 b s2] open_socket_open [OF o] Some by (auto split: if_splits)
    obtain b' s3 where c': "net_call (bind_sock N sfd rp) s2 = (b', s3)" by fastforce
    have s3: "nt_open s3 = sfd # nt_open s" using net_call_open [OF c'] s2 by simp
    show ?thesis
    proof (cases b)
      case False
      with Cons.prems o Some c s2 show ?thesis by (auto simp: close_socket_def)
    next
      case True
      have cl: "nt_open (close_socket sfd s3) = nt_open s" using s3 by (simp add: close_socket_def)
      show ?thesis
        using True Cons.prems Cons.IH [of "close_socket sfd s3", unfolded cl] o Some c c' s3 by (cases b') auto
    qed
  qed
qed auto

text \<open>C15: the socket functions leak no descriptor. When inetConnect() or inetBind() succeeds, exactly the returned socket
  has been added to the open ones; when they fail, none has, however many addresses were tried. For inetListen() the
  same holds except when listen() fails: then the bound socket stays open although -1 is returned.\<close>
theorem inet_sockets_descriptors:
  "(case inetConnect N host service s of (x, t) \<Rightarrow>
      nt_open t = (case x of None \<Rightarrow> nt_open s | Some fd \<Rightarrow> fd # nt_open s)) \<and>
   (case inetBind N service s of (x, t) \<Rightarrow>
      nt_open t = (case x of None \<Rightarrow> nt_open s | Some (fd, _) \<Rightarrow> fd # nt_open s)) \<and>
   (case inetListen N service backlog s of (x, t) \<Rightarrow>
      (case x of None \<Rightarrow> nt_open t = nt_open s \<or>
                   (\<exists>fd k k'. nt_open t = fd # nt_open s \<and> fst (listen_sock N fd backlog k) = Some k')
       | Some (fd, _) \<Rightarrow> nt_open t = fd # nt_open s))"
proof (intro conjI)
  show "case inetConnect N host service s of (x, t) \<Rightarrow>
      nt_open t = (case x of None \<Rightarrow> nt_open s | Some fd \<Rightarrow> fd # nt_open s)"
  proof (cases "getaddrinfo N host service (nt_kern s)")
    case (Pair r k)
    have open_eq: "nt_open (s\<lparr>nt_kern := k\<rparr>) = nt_open s" by simp
    show ?thesis
      using Pair connect_walk_open [of N _ "s\<lparr>nt_kern := k\<rparr>", unfolded open_eq]
      by (cases r) (auto simp: inetConnect_def split: prod.split)
  qed
next
  obtain r k where g: "getaddrinfo N None service (nt_kern s) = (r, k)" by fastforce
  have pass: "case inetPassiveSocket N service d bl s of (x, t) \<Rightarrow>
      (case x of None \<Rightarrow> nt_open t = nt_open s \<or>
                   d \<and> (\<exists>fd k k'. nt_open t = fd # nt_open s \<and> fst (listen_sock N fd bl k) = Some k')
       | Some (fd, _) \<Rightarrow> nt_open t = fd # nt_open s)" for d bl
  proof (cases r)
    case (Inl e)
    with g show ?thesis by (simp add: inetPassiveSocket_def)
  next
    case (Inr rs)
    obtain y s1 where w: "passive_walk N d rs (s\<lparr>nt_kern := k\<rparr>) = (y, s1)" by fastforce
    note o = passive_walk_open [OF w]
    consider "y = Inl ()" | "y = Inr None" | (bound) sfd rp where "y = Inr (Some (sfd, rp))"
      by (metis old.unit.exhaust option.exhaust prod.exhaust sum.exhaust)
    then show ?thesis
    proof cases
      case bound
      obtain b s2 where l: "net_call (listen_sock N sfd bl) s1 = (b, s2)" by fastforce
      have "\<exists>k k'. fst (listen_sock N sfd bl k) = Some k'" if "\<not> b"
        using l that by (auto simp: net_call_def split: prod.splits option.splits) (metis fst_conv)
      with g Inr w bound o l net_call_open [OF l] show ?thesis
        by (cases d; cases b) (auto simp: inetPassiveSocket_def)
    qed (use g Inr w o in \<open>simp_all add: inetPassiveSocket_def\<close>)
  qed
  show "case inetBind N service s of (x, t) \<Rightarrow>
      nt_open t = (case x of None \<Rightarrow> nt_open s | Some (fd, _) \<Rightarrow> fd # nt_open s)"
    using pass [of False 0] by (auto simp: inetBind_def split: prod.splits option.splits)
  show "case inetListen N service backlog s of (x, t) \<Rightarrow>
      (case x of None \<Rightarrow> nt_open t = nt_open s \<or>
                   (\<exists>fd k k'. nt_open t = fd # nt_open s \<and> fst (listen_sock N fd backlog k) = Some k')
       | Some (fd, _) \<Rightarrow> nt_open t = fd # nt_open s)"
    using pass [of True backlog, unfolded simp_thms] by (simp add: inetListen_def)
qed

section \<open>The servers\<close>

abbreviation (input) INT_LEN :: nat where "INT_LEN \<equiv> 30"

record client =
  cl_name :: "(string \<times> string) option"    \<comment> \<open>what \<open>getnameinfo()\<close> says about its address\<close>
  cl_in :: input                            \<comment> \<open>what it sends\<close>
  cl_out :: "wevent list"                   \<comment> \<open>how it accepts the reply\<close>
  cl_close :: "int option"                  \<comment> \<open>an error of \<open>close()\<close>\<close>

definition on_proc :: "(proc \<Rightarrow> (proc, 'a) run) \<Rightarrow> 'k net \<Rightarrow> ('k net, 'a) run" where
  "on_proc f s =
     (case f (nt_proc s) of
        Done a p \<Rightarrow> Done a (s\<lparr>nt_proc := p\<rparr>)
      | Halt h p \<Rightarrow> Halt h (s\<lparr>nt_proc := p\<rparr>))"

definition put_out :: "string \<Rightarrow> 'k net \<Rightarrow> 'k net" where
  "put_out msg s = s\<lparr>nt_proc := (nt_proc s)\<lparr>stdout_buf := stdout_buf (nt_proc s) @ msg\<rparr>\<rparr>"

definition put_err :: "string \<Rightarrow> 'k net \<Rightarrow> 'k net" where
  "put_err msg s = s\<lparr>nt_proc := fputs_stderr msg (nt_proc s)\<rparr>"

definition net_errMsg :: "env_tables \<Rightarrow> int \<Rightarrow> string \<Rightarrow> 'k net \<Rightarrow> 'k net" where
  "net_errMsg tb e msg s = s\<lparr>nt_proc := errMsg tb msg ((nt_proc s)\<lparr>errno := e\<rparr>)\<rparr>"

text \<open>The C string in a buffer.\<close>

definition c_str :: "string \<Rightarrow> string" where
  "c_str bs = takeWhile (\<lambda>c. c \<noteq> NULb) bs"

text \<open>The request of a client: the line it sends, converted; \<open>None\<close> if the server skips it.\<close>

definition read_request :: "client \<Rightarrow> int option" where
  "read_request c =
     (case readLine INT_LEN False (cl_in c) of
        (Inl _, _, _) \<Rightarrow> None
      | (Inr k, out, _) \<Rightarrow>
          if k = 0 then None
          else let reqLen = atoi (c_str out) in if reqLen \<le> 0 then None else Some reqLen)"

text \<open>The reply: \<^verbatim>\<open>%d\<close> prints the unsigned variable as a signed number.\<close>

definition reply_text :: "32 word \<Rightarrow> string" where
  "reply_text q = snprintf_str INT_LEN (decimal_int (sint q) @ nl)"

definition serve_client :: "env_tables \<Rightarrow> nat \<Rightarrow> client \<Rightarrow> 'k net \<Rightarrow> 'k net" where
  "serve_client tb addrStrLen c s =
     (let s = put_out (''Connection from '' @ inetAddressStr (cl_name c) addrStrLen @ nl) s
      in case read_request c of
        None \<Rightarrow> s
      | Some reqLen \<Rightarrow>
          let seqNumStr = reply_text (seqNum s);
              w = fst (sys_write seqNumStr (cl_out c));
              s = (if w \<noteq> Inr (length seqNumStr) then put_err ''Error on write'' s else s);
              s = s\<lparr>replies := replies s @ [case w of Inl _ \<Rightarrow> [] | Inr k \<Rightarrow> take k seqNumStr],
                    seqNum := seqNum s + word_of_int reqLen\<rparr>
          in case cl_close c of None \<Rightarrow> s | Some e \<Rightarrow> net_errMsg tb e ''close'' s)"

text \<open>The loop of the servers, until no further client connects; \<open>Inl\<close> is a failure of \<^verbatim>\<open>accept()\<close>.\<close>

fun serve :: "env_tables \<Rightarrow> nat \<Rightarrow> (int + client) list \<Rightarrow> 'k net \<Rightarrow> ('k net, unit) run" where
  "serve tb n [] s = Halt Blocked s"
| "serve tb n (Inl e # cs) s = serve tb n cs (net_errMsg tb e ''accept'' s)"
| "serve tb n (Inr c # cs) s = serve tb n cs (serve_client tb n c s)"

definition net_fail :: "env_tables \<Rightarrow> string \<Rightarrow> 'k net \<Rightarrow> ('k net, 'a) run" where
  "net_fail tb msg s = on_proc (errExit tb msg) s"

text \<open>The walk through the addresses in \<^verbatim>\<open>is_seqnum_sv.c\<close>, which exits if \<^verbatim>\<open>setsockopt()\<close> fails.\<close>

fun bind_walk :: "env_tables \<Rightarrow> 'k net_sys \<Rightarrow> addrinfo list \<Rightarrow> 'k net \<Rightarrow> ('k net, nat) run" where
  "bind_walk tb N [] s = on_proc (fatal tb ''Could not bind socket to any address'') s"
| "bind_walk tb N (rp # rps) s =
     (case open_socket N rp s of
        (None, s) \<Rightarrow> bind_walk tb N rps s
      | (Some lfd, s) \<Rightarrow>
          (case net_call (setsockopt N lfd) s of
             (False, s) \<Rightarrow> net_fail tb ''setsockopt'' s
           | (True, s) \<Rightarrow>
               (case net_call (bind_sock N lfd rp) s of
                  (True, s) \<Rightarrow> Done lfd s
                | (False, s) \<Rightarrow> bind_walk tb N rps (close_socket lfd s))))"

text \<open>The start of both servers: the argument and the disposition of \<^verbatim>\<open>SIGPIPE\<close>.\<close>

definition seqnum_args ::
  "env_tables \<Rightarrow> ('k \<Rightarrow> int option \<times> 'k) \<Rightarrow> string list \<Rightarrow> 'k net \<Rightarrow> ('k net, unit) run" where
  "seqnum_args tb ignore_sigpipe argv s =
     (if 1 < length argv \<and> argv ! 1 = ''--help'' then on_proc (usageErr (hd argv @ '' [init-seq-num]'' @ nl)) s
      else
        andThen (if 1 < length argv then on_proc (getInt (Some (argv ! 1)) 0 (Some ''init-seq-num'')) s else Done 0 s)
          (\<lambda>v s.
        let s = s\<lparr>seqNum := word_of_int v\<rparr>
        in case net_call ignore_sigpipe s of
             (False, s) \<Rightarrow> net_fail tb ''signal'' s
           | (True, s) \<Rightarrow> Done () s))"

definition is_seqnum_sv_main ::
  "env_tables \<Rightarrow> 'k net_sys \<Rightarrow> ('k \<Rightarrow> int option \<times> 'k) \<Rightarrow> string list \<Rightarrow> (int + client) list \<Rightarrow> 'k net \<Rightarrow> ('k net, unit) run" where
  "is_seqnum_sv_main tb N ignore_sigpipe argv conns s =
     andThen (seqnum_args tb ignore_sigpipe argv s) (\<lambda>_ s.
       case getaddrinfo N None ''50000'' (nt_kern s) of
         (Inl _, k) \<Rightarrow> net_fail tb ''getaddrinfo'' (s\<lparr>nt_kern := k\<rparr>)
       | (Inr rs, k) \<Rightarrow>
           andThen (bind_walk tb N rs (s\<lparr>nt_kern := k\<rparr>)) (\<lambda>lfd s.
             case net_call (listen_sock N lfd 50) s of
               (False, s) \<Rightarrow> net_fail tb ''listen'' s
             | (True, s) \<Rightarrow> serve tb 1067 conns s))"

text \<open>\<open>mem\<close>: does \<^verbatim>\<open>malloc()\<close> of the address buffer succeed.\<close>

definition is_seqnum_v2_sv_main ::
  "env_tables \<Rightarrow> 'k net_sys \<Rightarrow> ('k \<Rightarrow> int option \<times> 'k) \<Rightarrow> bool \<Rightarrow> string list \<Rightarrow> (int + client) list \<Rightarrow> 'k net \<Rightarrow> ('k net, unit) run" where
  "is_seqnum_v2_sv_main tb N ignore_sigpipe mem argv conns s =
     andThen (seqnum_args tb ignore_sigpipe argv s) (\<lambda>_ s.
       case inetListen N ''50000'' 5 s of
         (None, s) \<Rightarrow> on_proc (fatal tb ''inetListen() failed'') s
       | (Some (lfd, addrlen), s) \<Rightarrow>
           if mem then serve tb 4096 conns s else net_fail tb ''malloc'' s)"

section \<open>The clients\<close>

text \<open>
  What both clients do once connected: \<open>w1\<close> and \<open>w2\<close> are the fates of the two writes, \<open>inp\<close>
  what the server sends.  The bytes sent are appended to \<open>replies\<close>.
\<close>

definition seqnum_request ::
  "env_tables \<Rightarrow> string list \<Rightarrow> wevent list \<Rightarrow> input \<Rightarrow> 'k net \<Rightarrow> ('k net, unit) run" where
  "seqnum_request tb argv ws inp s =
     (let reqLenStr = (if 2 < length argv then argv ! 2 else ''1'');
          (w1, ws) = sys_write reqLenStr ws;
          s = s\<lparr>replies := replies s @ [case w1 of Inl _ \<Rightarrow> [] | Inr k \<Rightarrow> take k reqLenStr]\<rparr>
      in if w1 \<noteq> Inr (length reqLenStr) then on_proc (fatal tb ''Partial/failed write (reqLenStr)'') s
         else
           let (w2, ws) = sys_write nl ws;
               s = s\<lparr>replies := replies s @ [case w2 of Inl _ \<Rightarrow> [] | Inr k \<Rightarrow> take k nl]\<rparr>
           in if w2 \<noteq> Inr 1 then on_proc (fatal tb ''Partial/failed write (newline)'') s
              else
                (case readLine INT_LEN False inp of
                   (Inl e, _, _) \<Rightarrow> net_fail tb ''readLine'' (s\<lparr>nt_proc := (nt_proc s)\<lparr>errno := e\<rparr>\<rparr>)
                 | (Inr k, out, _) \<Rightarrow>
                     if k = 0 then on_proc (fatal tb ''Unexpected EOF from server'') s
                     else on_proc (do_exit EXIT_SUCCESS) (put_out (''Sequence number: '' @ c_str out) s)))"

definition seqnum_cl_usage :: "string list \<Rightarrow> bool" where
  "seqnum_cl_usage argv \<longleftrightarrow> length argv < 2 \<or> argv ! 1 = ''--help''"

definition is_seqnum_cl_main ::
  "env_tables \<Rightarrow> 'k net_sys \<Rightarrow> string list \<Rightarrow> wevent list \<Rightarrow> input \<Rightarrow> 'k net \<Rightarrow> ('k net, unit) run" where
  "is_seqnum_cl_main tb N argv ws inp s =
     (if seqnum_cl_usage argv then on_proc (usageErr (hd argv @ '' server-host [sequence-len]'' @ nl)) s
      else case getaddrinfo N (Some (argv ! 1)) ''50000'' (nt_kern s) of
        (Inl _, k) \<Rightarrow> net_fail tb ''getaddrinfo'' (s\<lparr>nt_kern := k\<rparr>)
      | (Inr rs, k) \<Rightarrow>
          (case connect_walk N rs (s\<lparr>nt_kern := k\<rparr>) of
             (None, s) \<Rightarrow> on_proc (fatal tb ''Could not connect socket to any address'') s
           | (Some cfd, s) \<Rightarrow> seqnum_request tb argv ws inp s))"

definition is_seqnum_v2_cl_main ::
  "env_tables \<Rightarrow> 'k net_sys \<Rightarrow> string list \<Rightarrow> wevent list \<Rightarrow> input \<Rightarrow> 'k net \<Rightarrow> ('k net, unit) run" where
  "is_seqnum_v2_cl_main tb N argv ws inp s =
     (if seqnum_cl_usage argv then on_proc (usageErr (hd argv @ '' server-host [sequence-len]'' @ nl)) s
      else case inetConnect N (Some (argv ! 1)) ''50000'' s of
        (None, s) \<Rightarrow> on_proc (fatal tb ''inetConnect() failed'') s
      | (Some cfd, s) \<Rightarrow> seqnum_request tb argv ws inp s)"

section \<open>Sequence numbers are unique\<close>

text \<open>The sequences granted: the first number, the length and the client.\<close>

fun grants :: "(int + client) list \<Rightarrow> 32 word \<Rightarrow> (32 word \<times> int \<times> client) list" where
  "grants [] q = []"
| "grants (Inl e # cs) q = grants cs q"
| "grants (Inr c # cs) q =
     (case read_request c of None \<Rightarrow> grants cs q | Some r \<Rightarrow> (q, r, c) # grants cs (q + word_of_int r))"

definition delivered :: "32 word \<times> int \<times> client \<Rightarrow> string" where
  "delivered = (\<lambda>(q, r, c). case fst (sys_write (reply_text q) (cl_out c)) of Inl _ \<Rightarrow> [] | Inr k \<Rightarrow> take k (reply_text q))"

lemma net_frame [simp]:
  "seqNum (put_out m s) = seqNum s" "replies (put_out m s) = replies s"
  "seqNum (put_err m s) = seqNum s" "replies (put_err m s) = replies s"
  "seqNum (net_errMsg tb e m s) = seqNum s" "replies (net_errMsg tb e m s) = replies s"
  by (simp_all add: put_out_def put_err_def net_errMsg_def)

lemma serve_client_effect:
  "seqNum (serve_client tb n c s) = seqNum s + (case read_request c of None \<Rightarrow> 0 | Some r \<Rightarrow> word_of_int r)"
  "replies (serve_client tb n c s) = replies s @
     (case read_request c of None \<Rightarrow> [] | Some r \<Rightarrow> [delivered (seqNum s, r, c)])"
proof -
  let ?w = "fst (sys_write (reply_text (seqNum s)) (cl_out c))"
  let ?s = "put_out (''Connection from '' @ inetAddressStr (cl_name c) n @ nl) s"
  let ?e = "if ?w \<noteq> Inr (length (reply_text (seqNum s))) then put_err ''Error on write'' ?s else ?s"
  have e: "seqNum ?e = seqNum s" "replies ?e = replies s" by simp_all
  have upd: "seqNum (t\<lparr>replies := x, seqNum := y\<rparr>) = y" "replies (t\<lparr>replies := x, seqNum := y\<rparr>) = x" for t x y
    by simp_all
  show "seqNum (serve_client tb n c s) = seqNum s + (case read_request c of None \<Rightarrow> 0 | Some r \<Rightarrow> word_of_int r)"
    unfolding serve_client_def Let_def net_frame
    by (cases "read_request c"; cases "cl_close c") (simp_all only: option.case net_frame upd e add_0_right)
  show "replies (serve_client tb n c s) = replies s @
     (case read_request c of None \<Rightarrow> [] | Some r \<Rightarrow> [delivered (seqNum s, r, c)])"
    unfolding serve_client_def Let_def net_frame
    by (cases "read_request c"; cases "cl_close c")
      (simp_all only: option.case net_frame upd e append_Nil2 delivered_def prod.case)
qed

lemma serve_grants:
  "\<exists>t. serve tb n cs s = Halt Blocked t \<and> replies t = replies s @ map delivered (grants cs (seqNum s)) \<and>
     seqNum t = seqNum s + word_of_int (sum_list (map (\<lambda>(q, r, c). r) (grants cs (seqNum s))))"
proof (induction tb n cs s rule: serve.induct)
  case (3 tb n c cs s)
  then show ?case
    by (cases "read_request c") (auto simp: serve_client_effect ac_simps)
qed auto

lemma read_request_pos: "read_request c = Some r \<Longrightarrow> 0 < r"
  by (auto simp: read_request_def Let_def split: prod.splits sum.splits if_splits)

abbreviation granted :: "(32 word \<times> int \<times> client) list \<Rightarrow> int" where
  "granted gs \<equiv> sum_list (map (\<lambda>(q, r, c). r) gs)"

text \<open>One sequence ends before another begins.\<close>

definition before :: "32 word \<times> int \<times> client \<Rightarrow> 32 word \<times> int \<times> client \<Rightarrow> bool" where
  "before x y \<longleftrightarrow> uint (fst x) + fst (snd x) \<le> uint (fst y)"

lemma granted_nonneg: "0 \<le> granted (grants cs q) \<and> (granted (grants cs q) = 0 \<longrightarrow> grants cs q = [])"
proof (induction cs q rule: grants.induct)
  case (3 c cs q)
  show ?case
  proof (cases "read_request c")
    case (Some r)
    with 3(2) [OF Some] read_request_pos [OF Some] show ?thesis by simp
  qed (use 3 in simp)
qed auto

lemma grants_disjoint:
  assumes "uint q + granted (grants cs q) \<le> 2 ^ 32"
  shows "sorted_wrt before (grants cs q) \<and> (\<forall>x \<in> set (grants cs q). uint q \<le> uint (fst x))"
  using assms
proof (induction cs q rule: grants.induct)
  case (3 c cs q)
  show ?case
  proof (cases "read_request c")
    case None
    with 3 show ?thesis by simp
  next
    case (Some r)
    let ?g = "grants cs (q + word_of_int r)"
    have pos: "0 < r" by (rule read_request_pos [OF Some])
    have g: "0 \<le> granted ?g" "granted ?g = 0 \<longrightarrow> ?g = []" using granted_nonneg [of cs "q + word_of_int r"] by auto
    have sum: "uint q + r + granted ?g \<le> 2 ^ 32" using "3.prems" Some by simp
    show ?thesis
    proof (cases "uint q + r < 2 ^ 32")
      case True
      then have q: "uint (q + word_of_int r) = uint q + r"
        using pos uint_nonnegative [of q] by (simp add: uint_word_ariths uint_word_of_int mod_simps)
      from "3.IH"(2) [OF Some] sum q
      have IH: "sorted_wrt before ?g" "\<forall>x \<in> set ?g. uint q + r \<le> uint (fst x)" by auto
      then have "\<forall>x \<in> set ?g. uint q \<le> uint (fst x)" using pos by force
      then show ?thesis using Some IH by (simp add: before_def [of "(q, r, c)"])
    next
      case False
      then have "?g = []" using sum g by auto
      then show ?thesis using Some by simp
    qed
  qed
qed auto

text \<open>C11: the server hands out unique sequence numbers. Whatever the clients send and however their connections fail, each
  client with a valid request is sent the next number, a client without one is skipped, and as long as the numbers
  handed out fit into 32 bits, the granted sequences are pairwise disjoint and in increasing order.\<close>
theorem seqnum_unique:
  assumes "uint (seqNum s) + granted (grants cs (seqNum s)) \<le> 2 ^ 32"
  shows "\<exists>t. serve tb n cs s = Halt Blocked t \<and>
    replies t = replies s @ map delivered (grants cs (seqNum s)) \<and>
    seqNum t = seqNum s + word_of_int (granted (grants cs (seqNum s))) \<and>
    sorted_wrt before (grants cs (seqNum s))"
  using serve_grants [of tb n cs s] grants_disjoint [OF assms] by auto

definition demo_tables :: env_tables where
  "demo_tables = \<lparr>ename = \<lambda>_. ''E'', MAX_ENAME = 0, strerror = \<lambda>_. ''error''\<rparr>"

definition demo_net :: "32 word \<Rightarrow> unit net" where
  "demo_net q = \<lparr>nt_proc = fresh_proc, nt_open = [], seqNum = q, replies = [], nt_kern = ()\<rparr>"

definition demo_client :: "string \<Rightarrow> client" where
  "demo_client line = \<lparr>cl_name = None, cl_in = [Bytes line], cl_out = [], cl_close = None\<rparr>"

definition demo_conns :: "(int + client) list" where
  "demo_conns = [Inr (demo_client (''5'' @ nl)), Inr (demo_client (''x'' @ nl)), Inl 4, Inr (demo_client ''1'')]"

lemma demo_grants:
  "grants demo_conns 7 =
     [(7, 5, demo_client (''5'' @ nl)), (12, 1, demo_client ''1'')]"
  by code_simp

theorem seqnum_unique_witness:
  "\<exists>t. serve demo_tables 100 demo_conns (demo_net 7) = Halt Blocked t \<and>
     replies t = [''7'' @ nl, ''12'' @ nl] \<and> seqNum t = 13"
proof -
  have d: "delivered (7, 5, demo_client (''5'' @ nl)) = ''7'' @ nl" "delivered (12, 1, demo_client ''1'') = ''12'' @ nl"
    by code_simp+
  have n: "seqNum (demo_net 7) = 7" "replies (demo_net 7) = []" by (simp_all add: demo_net_def)
  have "uint (7 :: 32 word) + granted [(7, 5, demo_client (''5'' @ nl)), (12, 1, demo_client ''1'')] \<le> 2 ^ 32" by simp
  from seqnum_unique [of "demo_net 7" demo_conns demo_tables 100, unfolded n demo_grants, OF this]
  show ?thesis by (auto simp: d simp del: append.simps)
qed

section \<open>A client and the server understand each other\<close>

lemma decimal_int_length: "INT_MIN \<le> i \<Longrightarrow> i \<le> INT_MAX \<Longrightarrow> length (decimal_int i) \<le> 11"
proof -
  assume i: "INT_MIN \<le> i" "i \<le> INT_MAX"
  have "nat i < 10 ^ Suc 9" "nat (- i) < 10 ^ Suc 9" using i by (simp_all add: INT_MIN_def INT_MAX_def)
  then show ?thesis using decimal_length [of "nat i" 9] decimal_length [of "nat (- i)" 9] by (simp add: decimal_int_def)
qed

text \<open>A short line arrives whole, however the stream is cut.\<close>

lemma readLine_number:
  assumes "INT_MIN \<le> i" "i \<le> INT_MAX" "restarted inp = (decimal_int i @ nl @ rest, f)"
  shows "\<exists>r. readLine INT_LEN False inp = (Inr (length (decimal_int i @ nl)), decimal_int i @ nl @ [NULb], r)"
proof -
  obtain ret out r where run: "readLine_loop INT_LEN [] inp = (ret, out, r)" by (metis prod_cases3)
  have fl: "first_line (ds @ nl @ rest) = ds @ nl" if "\<And>c. c \<in> set ds \<Longrightarrow> c \<noteq> newline" for ds
    using that by (induction ds) (auto simp: nl_def)
  have line: "first_line (decimal_int i @ nl @ rest) = decimal_int i @ nl" by (rule fl) (use line_chars in blast)
  have "take (INT_LEN - 1) (decimal_int i @ nl) = decimal_int i @ nl"
    using decimal_int_length [OF assms(1,2)] by (simp add: nl_def)
  moreover have "newline \<in> set (decimal_int i @ nl @ rest)" by (simp add: nl_def)
  ultimately have "ret = Inr (length (decimal_int i @ nl))" "out = (decimal_int i @ nl) @ [NULb]"
    using readLine_loop_spec [OF run, unfolded assms(3) split_conv, unfolded append_Nil line] by (simp_all add: Let_def del: take_append append_assoc)
  with run show ?thesis by (simp add: readLine_def)
qed

lemma c_str_line: "c_str (decimal_int i @ nl @ [NULb]) = decimal_int i @ nl"
proof -
  have "c_str (ds @ nl @ [NULb]) = ds @ nl" if "\<And>c. c \<in> set ds \<Longrightarrow> c \<noteq> NULb" for ds
    using that by (induction ds) (auto simp: c_str_def nl_def)
  then show ?thesis using line_chars by blast
qed

lemma atoi_line: "0 \<le> i \<Longrightarrow> i \<le> INT_MAX \<Longrightarrow> atoi (decimal_int i @ nl) = i"
proof -
  assume i: "0 \<le> i" "i \<le> INT_MAX"
  have "\<not> is_digit 10 (hd nl)" by (simp add: nl_def is_digit_def digit_val_def)
  then have "strtol (decimal (nat i) @ nl) 10 = (clamp_long i, nl, clamp_long i \<noteq> i)"
    using strtol_decimal_prefix [of nl "nat i"] i(1) by simp
  then show ?thesis using i by (simp add: atoi_def decimal_int_def clamp_long_def LONG_MAX_def LONG_MIN_def INT_MAX_def int_of_long_def)
qed

text \<open>C10: a client and the server understand each other whatever happens to the bytes on the way. A client that asks for
  len numbers sends a line which the server, however it arrives, reads as a request for len numbers; and the
  server's reply, however it arrives, makes the client print the number the server has sent and exit successfully.\<close>
theorem seqnum_end_to_end:
  assumes "0 < len" "len \<le> INT_MAX"
    and "restarted (cl_in c) = (decimal_int len @ nl @ rest, f)"
    and "restarted inp = (reply_text q @ rest', f')"
  shows "read_request c = Some len \<and>
    (\<exists>t. seqnum_request tb [prog, host, decimal_int len] [] inp s = Halt (Exit EXIT_SUCCESS) t \<and>
       concat (replies t) = concat (replies s) @ decimal_int len @ nl \<and>
       stdout_text (nt_proc t) =
         stdout_text (nt_proc s) @ stdout_buf (nt_proc s) @ ''Sequence number: '' @ decimal_int (sint q) @ nl)"
proof -
  have "INT_MIN \<le> len" using assms(1) by (simp add: INT_MIN_def)
  from readLine_number [OF this assms(2,3)] obtain r
    where r: "readLine INT_LEN False (cl_in c) = (Inr (length (decimal_int len @ nl)), decimal_int len @ nl @ [NULb], r)" by blast
  have 1: "read_request c = Some len"
    using assms(1,2) by (simp add: read_request_def r c_str_line atoi_line Let_def) (simp add: nl_def)
  have q: "INT_MIN \<le> sint q" "sint q \<le> INT_MAX"
    using sint_ge [of q] sint_less [of q] by (simp_all add: INT_MIN_def INT_MAX_def)
  have rt: "reply_text q = decimal_int (sint q) @ nl"
    using decimal_int_length [OF q] by (simp add: reply_text_def snprintf_str_def nl_def)
  have "restarted inp = (decimal_int (sint q) @ nl @ rest', f')" using assms(4) rt by simp
  from readLine_number [OF q this] obtain r'
    where r': "readLine INT_LEN False inp = (Inr (length (decimal_int (sint q) @ nl)), decimal_int (sint q) @ nl @ [NULb], r')"
    by blast
  have 2: "\<exists>t. seqnum_request tb [prog, host, decimal_int len] [] inp s = Halt (Exit EXIT_SUCCESS) t \<and>
       concat (replies t) = concat (replies s) @ decimal_int len @ nl \<and>
       stdout_text (nt_proc t) =
         stdout_text (nt_proc s) @ stdout_buf (nt_proc s) @ ''Sequence number: '' @ decimal_int (sint q) @ nl"
    by (simp add: seqnum_request_def Let_def r' c_str_line on_proc_def do_exit_def put_out_def fflush_stdout_def) (simp add: nl_def)
  from 1 2 show ?thesis by blast
qed

theorem seqnum_end_to_end_witness:
  "read_request (demo_client (''12'' @ nl)) = Some 12 \<and>
   (\<exists>t. seqnum_request demo_tables [''cl'', ''host'', ''12''] [] [Bytes ''9'', Fail EINTR, Bytes nl] (demo_net 0) =
      Halt (Exit EXIT_SUCCESS) t \<and> stdout_text (nt_proc t) = ''Sequence number: 9'' @ nl)"
proof -
  have d: "decimal_int 12 = ''12''" "decimal_int 9 = ''9''" "decimal_int (sint (9 :: 32 word)) = ''9''" "reply_text 9 = ''9'' @ nl" by code_simp+
  have "restarted (cl_in (demo_client (''12'' @ nl))) = (decimal_int 12 @ nl @ [], None)" by (simp add: demo_client_def d)
  from seqnum_end_to_end [OF _ _ this, of "[Bytes ''9'', Fail EINTR, Bytes nl]" 9 "[]" None demo_tables "''cl''" "''host''" "demo_net 0"]
  show ?thesis by (auto simp: d INT_MAX_def demo_net_def fresh_proc_def)
qed

end
