(* ===== verification/Environ.thy ===== *)
theory Environ
  imports Tlpi_Prelude
begin

text \<open>
  The environment list and the search path: \<^verbatim>\<open>proc/setenv.c\<close> (\<^verbatim>\<open>setenv()\<close> and \<^verbatim>\<open>unsetenv()\<close> on top
  of \<^verbatim>\<open>getenv()\<close> and \<^verbatim>\<open>putenv()\<close>) and \<^verbatim>\<open>procexec/execlp.c\<close>.  The array \<^verbatim>\<open>environ\<close> is the list of its
  strings.  The lemmas show that the functions maintain a finite map from names to
  values, and that \<^verbatim>\<open>execlp()\<close> tries the prefixes of \<^verbatim>\<open>PATH\<close> in order; they also pin down the cases
  in which the two files go wrong.
\<close>

section \<open>The environment list\<close>

abbreviation (input) EINVAL :: int where "EINVAL \<equiv> 22"
abbreviation (input) ENOMEM :: int where "ENOMEM \<equiv> 12"

text \<open>The test \<^verbatim>\<open>strncmp(*ep, name, len) == 0 && (*ep)[len] == '='\<close>, which is also that of the C library.\<close>

definition entry_of :: "string \<Rightarrow> string \<Rightarrow> bool" where
  "entry_of name e \<longleftrightarrow> strncmp_eq e name (length name) \<and> char_at e (length name) = CHR ''=''"

definition getenv :: "string \<Rightarrow> string list \<Rightarrow> string option" where
  "getenv name env = map_option (\<lambda>i. drop (Suc (length name)) (env ! i)) (find_index (entry_of name) env)"

text \<open>\<^verbatim>\<open>putenv()\<close> of a string with a name: replace the first entry with this name, or add one.\<close>

definition putenv :: "string \<Rightarrow> string list \<Rightarrow> string list" where
  "putenv es env =
     (let name = takeWhile (\<lambda>c. c \<noteq> CHR ''='') es
      in case find_index (entry_of name) env of Some i \<Rightarrow> env[i := es] | None \<Rightarrow> env @ [es])"

definition bad_name :: "string option \<Rightarrow> bool" where
  "bad_name name \<longleftrightarrow> (case name of None \<Rightarrow> True | Some n \<Rightarrow> n = [] \<or> strchr n CHR ''='' \<noteq> None)"

text \<open>The loop of \<^verbatim>\<open>unsetenv()\<close>: a matching entry is removed by shifting the rest back, and the position stays.\<close>

fun unset_loop :: "string \<Rightarrow> string list \<Rightarrow> string list" where
  "unset_loop name [] = []"
| "unset_loop name (e # es) = (if entry_of name e then unset_loop name es else e # unset_loop name es)"

text \<open>The results are the value returned with \<^verbatim>\<open>errno\<close> (\<open>Inl\<close>), and the new environment.\<close>

definition unsetenv :: "string option \<Rightarrow> string list \<Rightarrow> (int + unit) \<times> string list" where
  "unsetenv name env =
     (if bad_name name then (Inl EINVAL, env) else (Inr (), unset_loop (the name) env))"

text \<open>\<open>mem\<close> and \<open>put_err\<close>: does \<^verbatim>\<open>malloc()\<close> succeed, and does \<^verbatim>\<open>putenv()\<close> fail.\<close>

definition setenv ::
  "string option \<Rightarrow> string option \<Rightarrow> bool \<Rightarrow> bool \<Rightarrow> int option \<Rightarrow> string list \<Rightarrow> (int + unit) \<times> string list" where
  "setenv name val overwrite mem put_err env =
     (if bad_name name \<or> val = None then (Inl EINVAL, env)
      else if getenv (the name) env \<noteq> None \<and> \<not> overwrite then (Inr (), env)
      else
        let env = snd (unsetenv name env)
        in if \<not> mem then (Inl ENOMEM, env)
           else case put_err of
             Some e \<Rightarrow> (Inl e, env)
           | None \<Rightarrow> (Inr (), putenv (the name @ ''='' @ the val) env))"

lemma entry_of_self: "entry_of name (name @ ''='' @ v)"
  by (simp add: entry_of_def strncmp_eq_def char_at_def)

lemma take_eq_append: "take (length n) e = n \<Longrightarrow> \<exists>r. e = n @ r"
  by (metis append_take_drop_id)

lemma name_part: "CHR ''='' \<notin> set n \<Longrightarrow> takeWhile (\<lambda>c. c \<noteq> CHR ''='') (n @ CHR ''='' # r) = n"
  by (induction n) auto

text \<open>An entry belongs to at most one name without an equals sign.\<close>

lemma entry_of_unique:
  assumes "entry_of n e" "entry_of n' e" "CHR ''='' \<notin> set n" "CHR ''='' \<notin> set n'"
  shows "n = n'"
proof -
  have split: "\<exists>r. e = m @ CHR ''='' # r" if m: "entry_of m e" for m
  proof -
    obtain r where r: "e = m @ r" using m take_eq_append [of m e] by (auto simp: entry_of_def strncmp_eq_def)
    with m show ?thesis by (cases r) (auto simp: entry_of_def char_at_def)
  qed
  obtain r r' where "e = n @ CHR ''='' # r" "e = n' @ CHR ''='' # r'" using split assms(1,2) by blast
  then have "takeWhile (\<lambda>c. c \<noteq> CHR ''='') e = n" "takeWhile (\<lambda>c. c \<noteq> CHR ''='') e = n'"
    by (metis name_part assms(3), metis name_part assms(4))
  then show ?thesis by simp
qed

lemma unset_loop_filter: "unset_loop name env = filter (\<lambda>e. \<not> entry_of name e) env"
  by (induction env) auto

lemma getenv_simps: "getenv n [] = None"
  "getenv n (e # es) = (if entry_of n e then Some (drop (Suc (length n)) e) else getenv n es)"
  by (auto simp: getenv_def option.map_comp comp_def)

lemma getenv_append: "getenv n (xs @ ys) = (case getenv n xs of None \<Rightarrow> getenv n ys | Some v \<Rightarrow> Some v)"
  by (induction xs) (auto simp: getenv_simps)

lemma getenv_unset:
  assumes "CHR ''='' \<notin> set name" "CHR ''='' \<notin> set n"
  shows "getenv n (unset_loop name env) = (if n = name then None else getenv n env)"
proof (induction env)
  case (Cons e env)
  then show ?case
    using entry_of_unique [OF _ _ assms(2,1), of e] by (cases "n = name") (auto simp: getenv_simps)
qed (simp add: getenv_simps)

lemma strchr_eq_None: "strchr n c = None \<longleftrightarrow> c \<notin> set n"
  by (induction n) auto

lemma putenv_fresh:
  assumes "CHR ''='' \<notin> set name"
  shows "putenv (name @ ''='' @ v) (unset_loop name env) = unset_loop name env @ [name @ ''='' @ v]"
proof -
  have "takeWhile (\<lambda>c. c \<noteq> CHR ''='') (name @ ''='' @ v) = name" using name_part [OF assms] by simp
  moreover have "find_index (entry_of name) (unset_loop name env) = None"
    by (simp add: find_index_None unset_loop_filter)
  ultimately show ?thesis by (simp add: putenv_def Let_def)
qed

text \<open>C16: setenv() and unsetenv() maintain a map from names to values. A successful setenv() gives its name the valueueue,
  unless the name had one and overwriting was not asked for; a successful unsetenv() removes the name; no other name is
  affected; invalid arguments change nothing. When memory runs out or putenv() fails, however, setenv() has already
  removed the old definition.\<close>
theorem setenv_map:
  assumes "CHR ''='' \<notin> set n"
  shows "getenv n (snd (unsetenv name env)) = (if bad_name name \<or> Some n \<noteq> name then getenv n env else None) \<and>
    fst (unsetenv name env) = (if bad_name name then Inl EINVAL else Inr ()) \<and>
    getenv n (snd (setenv name val overwrite mem put_err env)) =
      (if bad_name name \<or> val = None \<or> Some n \<noteq> name then getenv n env
       else if getenv n env \<noteq> None \<and> \<not> overwrite then getenv n env
       else if mem \<and> put_err = None then val
       else None) \<and>
    (fst (setenv name val overwrite mem put_err env) = Inr () \<longleftrightarrow>
       \<not> bad_name name \<and> val \<noteq> None \<and>
       ((getenv (the name) env \<noteq> None \<and> \<not> overwrite) \<or> (mem \<and> put_err = None)))"
proof (cases "bad_name name")
  case True
  then show ?thesis by (auto simp: unsetenv_def setenv_def)
next
  case False
  then obtain m where m: "name = Some m" "m \<noteq> []" "CHR ''='' \<notin> set m"
    by (auto simp: bad_name_def strchr_eq_None split: option.splits)
  have un: "snd (unsetenv name env) = unset_loop m env" using False by (simp add: unsetenv_def m)
  have get: "getenv n (unset_loop m env @ [m @ ''='' @ v]) = (if n = m then Some v else getenv n env)" for v
  proof (cases "n = m")
    case True
    then show ?thesis using getenv_unset [OF m(3) assms] entry_of_self [of m v] by (simp add: getenv_append getenv_simps)
  next
    case ne: False
    then have "\<not> entry_of n (m @ ''='' @ v)" using entry_of_unique [OF _ entry_of_self assms m(3)] by blast
    then show ?thesis using getenv_unset [OF m(3) assms] ne by (simp add: getenv_append getenv_simps split: option.split)
  qed
  show ?thesis
    using False un get getenv_unset [OF m(3) assms, of env] putenv_fresh [OF m(3)]
    by (cases val; cases put_err) (auto simp: setenv_def unsetenv_def m Let_def)
qed

theorem setenv_map_witness:
  "getenv ''A'' (snd (setenv (Some ''A'') (Some ''2'') True True None [''AB=0'', ''A=1'', ''A=3''])) = Some ''2'' \<and>
   getenv ''AB'' (snd (setenv (Some ''A'') (Some ''2'') True True None [''AB=0'', ''A=1'', ''A=3''])) = Some ''0'' \<and>
   getenv ''A'' (snd (setenv (Some ''A'') (Some ''2'') True False None [''AB=0'', ''A=1'', ''A=3''])) = None"
proof -
  have b: "\<not> bad_name (Some ''A'')" "getenv ''AB'' [''AB=0'', ''A=1'', ''A=3''] = Some ''0''" by code_simp+
  show ?thesis
    using setenv_map [of "''A''" "Some ''A''" "[''AB=0'', ''A=1'', ''A=3'']" "Some ''2''" True True None]
      setenv_map [of "''AB''" "Some ''A''" "[''AB=0'', ''A=1'', ''A=3'']" "Some ''2''" True True None]
      setenv_map [of "''A''" "Some ''A''" "[''AB=0'', ''A=1'', ''A=3'']" "Some ''2''" True False None] b
    by simp
qed

section \<open>execlp()\<close>

abbreviation (input) EACCES :: int where "EACCES \<equiv> 13"
abbreviation (input) ENOEXEC :: int where "ENOEXEC \<equiv> 8"

text \<open>
  How a call ends: the process image is replaced (by which file, with which arguments), the
  call returns -1 with an error number, or memory outside an array is written.
\<close>

datatype exec_end = Replaced string "string option list" | Returned int | Overrun

text \<open>\<^verbatim>\<open>execve()\<close> is a parameter over an abstract system state: \<open>None\<close> if it succeeds, else the error number.\<close>

type_synonym 'k execve = "string \<Rightarrow> 'k \<Rightarrow> int option \<times> 'k"

text \<open>
  Building the argument vector: \<open>acc\<close> are the arguments stored so far.  When the array is nearly
  full, \<^verbatim>\<open>realloc()\<close> leaves one element of it, so that the next store is outside.
\<close>

fun collect_args :: "nat \<Rightarrow> string list \<Rightarrow> string list \<Rightarrow> string list option" where
  "collect_args argvSize acc va =
     (if length acc + 1 \<ge> argvSize then None
      else case va of [] \<Rightarrow> Some acc | a # va' \<Rightarrow> collect_args argvSize (acc @ [a]) va')"

text \<open>The allocated vector, with its null pointers, and \<^verbatim>\<open>argc\<close>; the terminator is counted.\<close>

definition build_argv :: "string list \<Rightarrow> (string option list \<times> nat) option" where
  "build_argv args =
     (case args of
        [] \<Rightarrow> Some (replicate 100 None, 1)
      | a # va \<Rightarrow>
          map_option (\<lambda>acc. (map Some acc @ replicate (100 - length acc) None, length acc + 1)) (collect_args 100 [a] va))"

text \<open>The loop of \<^verbatim>\<open>execShScript()\<close> that fills \<^verbatim>\<open>shArgv\<close>, an array of \<open>n\<close> elements; \<open>None\<close> on an overrun.\<close>

fun fill_sh :: "nat \<Rightarrow> nat \<Rightarrow> nat \<Rightarrow> string option list \<Rightarrow> string option list \<Rightarrow> string option list option" where
  "fill_sh n 0 j argv sh = Some sh"
| "fill_sh n (Suc todo) j argv sh =
     (if n \<le> j + 1 then None else fill_sh n todo (Suc j) argv (sh[j + 1 := argv ! j]))"

definition execShScript :: "'k execve \<Rightarrow> nat \<Rightarrow> string option list \<Rightarrow> 'k \<Rightarrow> exec_end option \<times> 'k" where
  "execShScript execve argc argv k =
     (case fill_sh (argc + 1) (argc + 1) 0 argv (Some ''/bin/sh'' # replicate argc None) of
        None \<Rightarrow> (Some Overrun, k)
      | Some sh \<Rightarrow>
          (case execve ''/bin/sh'' k of (None, k) \<Rightarrow> (Some (Replaced ''/bin/sh'' sh), k) | (Some _, k) \<Rightarrow> (None, k)))"

text \<open>One attempt; \<open>None\<close> if execution goes on, with the new values of \<^verbatim>\<open>savedErrno\<close> and \<^verbatim>\<open>fndEACCES\<close>.\<close>

definition try_exec ::
  "'k execve \<Rightarrow> bool \<Rightarrow> nat \<Rightarrow> string option list \<Rightarrow> string \<Rightarrow> bool \<Rightarrow> 'k \<Rightarrow> exec_end option \<times> int \<times> bool \<times> 'k" where
  "try_exec execve note_acces argc argv pathname fndEACCES k =
     (case execve pathname k of
        (None, k) \<Rightarrow> (Some (Replaced pathname argv), 0, fndEACCES, k)
      | (Some err, k) \<Rightarrow>
          if note_acces \<and> err = EACCES then (None, err, True, k)
          else if err = ENOEXEC then
            (case execShScript execve argc argv k of (r, k) \<Rightarrow> (r, err, fndEACCES, k))
          else (None, err, fndEACCES, k))"

text \<open>The loop over the prefixes of \<^verbatim>\<open>PATH\<close>, from \<^verbatim>\<open>prStart\<close> on.\<close>

function path_walk ::
  "'k execve \<Rightarrow> nat \<Rightarrow> string option list \<Rightarrow> string \<Rightarrow> string \<Rightarrow> bool \<Rightarrow> 'k \<Rightarrow> exec_end \<times> 'k" where
  "path_walk execve argc argv filename prStart fndEACCES k =
     (let prEnd = (case strchr prStart CHR '':'' of None \<Rightarrow> length prStart | Some n \<Rightarrow> n);
          pathname = (if prEnd = 0 then ''.'' else take prEnd prStart) @ ''/'' @ filename
      in case try_exec execve True argc argv pathname fndEACCES k of
           (Some r, _, _, k) \<Rightarrow> (r, k)
         | (None, savedErrno, fnd, k) \<Rightarrow>
             if char_at prStart prEnd = NUL then (Returned (if fnd then EACCES else savedErrno), k)
             else path_walk execve argc argv filename (drop (Suc prEnd) prStart) fnd k)"
  by pat_completeness auto
termination
proof (relation "measure (\<lambda>(_, _, _, _, p, _, _). length p)", goal_cases)
  case (2 execve argc argv filename prStart fnd k prEnd)
  then have "prEnd < length prStart" by (auto simp: char_at_def split: if_splits)
  then show ?case by simp
qed simp

declare path_walk.simps [simp del]

text \<open>
  The function, on its arguments up to the null pointer; \<open>mem1\<close> and \<open>mem2\<close> tell whether the two
  \<^verbatim>\<open>calloc()\<close> calls succeed.
\<close>

definition execlp ::
  "'k execve \<Rightarrow> bool \<Rightarrow> bool \<Rightarrow> string list \<Rightarrow> string \<Rightarrow> string list \<Rightarrow> 'k \<Rightarrow> exec_end \<times> 'k" where
  "execlp execve mem1 mem2 env filename args k =
     (if \<not> mem1 then (Returned ENOMEM, k)
      else case build_argv args of
        None \<Rightarrow> (Overrun, k)
      | Some (argv, argc) \<Rightarrow>
          if \<not> mem2 then (Returned ENOMEM, k)
          else if strchr filename CHR ''/'' \<noteq> None then
            (case try_exec execve False argc argv filename False k of
               (Some r, _, _, k) \<Rightarrow> (r, k)
             | (None, savedErrno, _, k) \<Rightarrow> (Returned savedErrno, k))
          else
            let p = getenv ''PATH'' env;
                PATH = (if p = None \<or> p = Some [] then ''.'' else the p)
            in path_walk execve argc argv filename PATH False k)"

section \<open>The search order\<close>

text \<open>The prefixes of a search path, and the attempts on a list of pathnames.\<close>

fun path_prefixes :: "string \<Rightarrow> string list" where
  "path_prefixes [] = [[]]"
| "path_prefixes (c # cs) =
     (if c = CHR '':'' then [] # path_prefixes cs
      else (case path_prefixes cs of p # ps \<Rightarrow> (c # p) # ps | [] \<Rightarrow> [[c]]))"

definition candidate :: "string \<Rightarrow> string \<Rightarrow> string" where
  "candidate filename p = (if p = [] then ''.'' else p) @ ''/'' @ filename"

fun try_all :: "'k execve \<Rightarrow> string option list \<Rightarrow> string list \<Rightarrow> int \<Rightarrow> bool \<Rightarrow> 'k \<Rightarrow> exec_end \<times> 'k" where
  "try_all execve argv [] err acc k = (Returned (if acc then EACCES else err), k)"
| "try_all execve argv (p # ps) err acc k =
     (case execve p k of
        (None, k) \<Rightarrow> (Replaced p argv, k)
      | (Some e, k) \<Rightarrow> try_all execve argv ps e (acc \<or> e = EACCES) k)"

lemma path_prefixes_split:
  "path_prefixes s = (case strchr s CHR '':'' of None \<Rightarrow> [s] | Some n \<Rightarrow> take n s # path_prefixes (drop (Suc n) s))"
  by (induction s) (auto split: option.splits)

lemma strchr_bound: "strchr s c = Some n \<Longrightarrow> n < length s \<and> s ! n = c"
  by (induction s arbitrary: n) (auto split: if_splits)

lemma path_walk_try_all:
  assumes "\<And>p k. fst (execve p k) \<noteq> Some ENOEXEC"
  shows "path_walk execve argc argv filename s acc k =
    try_all execve argv (map (candidate filename) (path_prefixes s)) err acc k"
proof (induction "length s" arbitrary: s acc k err rule: less_induct)
  case less
  define prEnd where "prEnd = (case strchr s CHR '':'' of None \<Rightarrow> length s | Some n \<Rightarrow> n)"
  define pathname where "pathname = candidate filename (take prEnd s)"
  have bound: "prEnd \<le> length s" using strchr_bound [of s] by (auto simp: prEnd_def split: option.split dest: less_imp_le)
  then have empty: "take prEnd s = [] \<longleftrightarrow> prEnd = 0" by auto
  obtain r k' where ex: "execve pathname k = (r, k')" by fastforce
  have step: "path_walk execve argc argv filename s acc k =
      (case r of
         None \<Rightarrow> (Replaced pathname argv, k')
       | Some e \<Rightarrow> if char_at s prEnd = NUL then (Returned (if acc \<or> e = EACCES then EACCES else e), k')
                  else path_walk execve argc argv filename (drop (Suc prEnd) s) (acc \<or> e = EACCES) k')"
    using ex assms [of pathname k] empty
    by (subst path_walk.simps)
      (auto simp: prEnd_def [symmetric] pathname_def candidate_def try_exec_def Let_def split: option.splits)
  show ?case
  proof (cases "strchr s CHR '':''")
    case None
    then have "prEnd = length s" "path_prefixes s = [s]" by (simp_all add: prEnd_def path_prefixes_split)
    then show ?thesis using step ex by (cases r) (auto simp: pathname_def char_at_def)
  next
    case (Some n)
    then have n: "prEnd = n" "path_prefixes s = take n s # path_prefixes (drop (Suc n) s)" "n < length s" "s ! n = CHR '':''"
      using strchr_bound [OF Some] path_prefixes_split [of s] by (simp_all add: prEnd_def)
    then have "char_at s prEnd \<noteq> NUL" by (simp add: char_at_def)
    then show ?thesis
      using step ex n less [of "drop (Suc n) s"] by (cases r) (auto simp: pathname_def)
  qed
qed

lemma collect_args_ok:
  "length acc + length va + 1 < n \<Longrightarrow> collect_args n acc va = Some (acc @ va)"
  "length acc + 1 < n \<Longrightarrow> n \<le> length acc + length va + 1 \<Longrightarrow> collect_args n acc va = None"
  by (induction va arbitrary: acc) auto

lemma build_argv_eq:
  "build_argv args = (if length args < 99 then Some (map Some args @ replicate (100 - length args) None, length args + 1) else None)"
  using collect_args_ok(1) [of "[hd args]" "tl args" 100] collect_args_ok(2) [of "[hd args]" 100 "tl args"]
  by (cases args) (auto simp: build_argv_def)

lemma fill_sh_overruns: "todo + j = Suc argc \<Longrightarrow> 0 < todo \<Longrightarrow> fill_sh (argc + 1) todo j argv sh = None"
proof (induction todo arbitrary: j sh)
  case (Suc todo)
  then show ?case by (cases todo) auto
qed simp

text \<open>C17: execlp() searches the prefixes of PATH in order, the empty prefix standing for the current directory and an
  unset or empty PATH for it too. If no file is in an unknown executable format and there are fewer than 99 arguments, it
  replaces the process image by the first candidate that can be executed, with exactly the given arguments, or returns
  the error EACCES if any candidate gave it and the last error otherwise.\<close>
theorem execlp_search:
  assumes "\<And>p k. fst (execve p k) \<noteq> Some ENOEXEC" "length args < 99" "CHR ''/'' \<notin> set filename"
  shows "execlp execve True True env filename args k =
    try_all execve (map Some args @ replicate (100 - length args) None)
      (map (candidate filename)
        (path_prefixes (case getenv ''PATH'' env of None \<Rightarrow> ''.'' | Some p \<Rightarrow> if p = [] then ''.'' else p))) 0 False k"
proof -
  have "strchr filename CHR ''/'' = None" using assms(3) by (simp add: strchr_eq_None)
  moreover have "(if p = None \<or> p = Some [] then ''.'' else the p) =
      (case p of None \<Rightarrow> ''.'' | Some p \<Rightarrow> if p = [] then ''.'' else p)" for p :: "string option"
    by (cases p) auto
  ultimately have "execlp execve True True env filename args k =
      path_walk execve (length args + 1) (map Some args @ replicate (100 - length args) None) filename
        (case getenv ''PATH'' env of None \<Rightarrow> ''.'' | Some p \<Rightarrow> if p = [] then ''.'' else p) False k"
    using assms(2) by (simp add: execlp_def build_argv_eq Let_def)
  also have "\<dots> = try_all execve (map Some args @ replicate (100 - length args) None)
      (map (candidate filename)
        (path_prefixes (case getenv ''PATH'' env of None \<Rightarrow> ''.'' | Some p \<Rightarrow> if p = [] then ''.'' else p))) 0 False k"
    by (rule path_walk_try_all) (rule assms(1))
  finally show ?thesis .
qed

theorem execlp_search_witness:
  "fst (execlp (\<lambda>p k. if p = ''/bin/ls'' then (None, k) else (Some 2, k)) True True [''PATH=:/bin''] ''ls'' [''ls''] ()) =
     Replaced ''/bin/ls'' (Some ''ls'' # replicate 99 None)"
proof -
  have "getenv ''PATH'' [''PATH=:/bin''] = Some '':/bin''" by code_simp
  then show ?thesis
    using execlp_search [of "\<lambda>p k. if p = ''/bin/ls'' then (None, k) else (Some 2, k)" "[''ls'']" "''ls''" "[''PATH=:/bin'']" "()"]
    by (simp add: candidate_def)
qed


end
