(* ===== verification/Raw_Udp.thy ===== *)
theory Raw_Udp
  imports Get_Num
begin

text \<open>
  Hand-built UDP datagrams: \<^verbatim>\<open>sockets/raw_send_udp.c\<close>.  Memory is a list of bytes, the host is
  little-endian, and what is in freshly allocated memory or in an uninitialised array is a
  parameter.  The lemmas show that the Internet checksum makes every message verify, and
  for which datagram lengths the program computes it over the right bytes.
\<close>

type_synonym bytes = "8 word list"

section \<open>The Internet checksum\<close>

definition le16 :: "8 word \<Rightarrow> 8 word \<Rightarrow> 32 word" where
  "le16 lo hi = ucast lo + 256 * ucast hi"

text \<open>The loop over 2-byte values with the left-over byte, and the folding loop.\<close>

fun sum_words :: "bytes \<Rightarrow> 32 word \<Rightarrow> 32 word" where
  "sum_words (lo # hi # bs) s = sum_words bs (s + le16 lo hi)"
| "sum_words [b] s = s + ucast b"
| "sum_words [] s = s"

lemma unat_halves:
  "unat (s AND 0xffff) = unat (s :: 32 word) mod 65536" "unat (drop_bit 16 s) = unat s div 65536"
proof -
  have "s AND 0xffff = s mod 65536"
    using take_bit_eq_mod [of 16 s] by (simp add: take_bit_eq_mask mask_eq_exp_minus_1)
  then show "unat (s AND 0xffff) = unat s mod 65536" by (simp add: unat_mod)
  show "unat (drop_bit 16 s) = unat s div 65536" by (simp add: drop_bit_eq_div unat_div)
qed

lemma fold_step: "unat ((s AND 0xffff) + drop_bit 16 s) = unat (s :: 32 word) mod 65536 + unat s div 65536"
proof -
  have "unat s < 2 ^ 32" using unsigned_less [where 'a = nat, of s] by simp
  then have "unat s div 65536 < 65536" by (simp add: div_less_iff_less_mult)
  moreover have "unat s mod 65536 < 65536" by simp
  ultimately have "unat s mod 65536 + unat s div 65536 < 2 ^ 32" by simp
  then show ?thesis by (subst unat_word_ariths) (simp add: unat_halves)
qed

lemma high_half: "drop_bit 16 s = (0 :: 32 word) \<longleftrightarrow> unat s div 65536 = 0"
  by (metis unat_halves(2) unsigned_eq_0_iff)

lemma fold_decreases: "drop_bit 16 s \<noteq> (0 :: 32 word) \<Longrightarrow> unat ((s AND 0xffff) + drop_bit 16 s) < unat s"
  unfolding fold_step high_half using div_mult_mod_eq [of "unat s" 65536] by linarith

function fold_sum :: "32 word \<Rightarrow> 32 word" where
  "fold_sum s = (if drop_bit 16 s \<noteq> 0 then fold_sum ((s AND 0xffff) + drop_bit 16 s) else s)"
  by pat_completeness auto
termination
  by (relation "measure unat") (auto intro: fold_decreases)

declare fold_sum.simps [simp del]

definition checksum :: "bytes \<Rightarrow> 16 word" where
  "checksum bs = ucast (NOT (fold_sum (sum_words bs 0)))"

section \<open>One's complement arithmetic\<close>

text \<open>The sum as a natural number.\<close>

fun total :: "bytes \<Rightarrow> nat" where
  "total (lo # hi # bs) = unat lo + 256 * unat hi + total bs"
| "total [b] = unat b"
| "total [] = 0"

lemma byte_less: "unat (b :: 8 word) < 256"
  using unsigned_less [where 'a = nat, of b] by simp

lemma total_bound: "total bs \<le> 65535 * ((length bs + 1) div 2)"
proof (induction bs rule: total.induct)
  case (1 lo hi bs)
  then show ?case using byte_less [of lo] byte_less [of hi] by simp
next
  case (2 b)
  then show ?case using byte_less [of b] by simp
qed simp

lemma unat_wide: "unat (ucast (b :: 8 word) :: 32 word) = unat b"
  using byte_less [of b] by (simp add: unsigned_ucast_eq take_bit_eq_mod)

lemma unat_le16: "unat (le16 lo hi) = unat lo + 256 * unat hi"
  using byte_less [of lo] byte_less [of hi] by (simp add: le16_def unat_word_ariths unat_wide)

lemma sum_words_total:
  "unat s + total bs < 2 ^ 32 \<Longrightarrow> unat (sum_words bs s) = unat s + total bs"
proof (induction bs s rule: sum_words.induct)
  case (1 lo hi bs s)
  then have "unat (s + le16 lo hi) = unat s + (unat lo + 256 * unat hi)"
    by (subst unat_word_ariths) (simp add: unat_le16)
  with 1 show ?case by simp
next
  case (2 b s)
  then show ?case by (simp add: unat_word_ariths unat_wide)
qed simp

lemma fold_sum_spec:
  "unat (fold_sum s) < 2 ^ 16 \<and> unat (fold_sum s) mod 65535 = unat s mod 65535 \<and> (fold_sum s = 0 \<longleftrightarrow> s = 0)"
proof (induction s rule: fold_sum.induct)
  case (1 s)
  show ?case
  proof (cases "drop_bit 16 s = 0")
    case True
    then have "unat s < 2 ^ 16" by (simp add: high_half div_eq_0_iff)
    with True show ?thesis by (simp add: fold_sum.simps)
  next
    case False
    let ?t = "(s AND 0xffff) + drop_bit 16 s"
    have "unat s = 65535 * (unat s div 65536) + unat ?t"
      unfolding fold_step using div_mult_mod_eq [of "unat s" 65536] by linarith
    then have "unat ?t mod 65535 = unat s mod 65535" by (metis mod_mult_self4)
    moreover have "?t \<noteq> 0" "s \<noteq> 0" using False fold_step [of s] by (auto simp: high_half)
    moreover have "fold_sum s = fold_sum ?t" using False by (subst fold_sum.simps) simp
    ultimately show ?thesis using 1 [OF False] by simp
  qed
qed

text \<open>A message verifies if its checksum is zero, that is, its folded sum has all bits set.\<close>

definition lo_byte :: "16 word \<Rightarrow> 8 word" where "lo_byte w = ucast w"
definition hi_byte :: "16 word \<Rightarrow> 8 word" where "hi_byte w = ucast (drop_bit 8 w)"

lemma total_append: "even (length xs) \<Longrightarrow> total (xs @ ys) = total xs + total ys"
  by (induction xs rule: total.induct) auto

lemma unat_bytes: "unat (lo_byte w) + 256 * unat (hi_byte w) = unat w"
proof -
  have lt: "unat w < 65536" using unsigned_less [where 'a = nat, of w] by simp
  have hi: "unat (drop_bit 8 w) = unat w div 256" by (simp add: drop_bit_eq_div unat_div)
  have "unat w div 256 < 256" using lt by (simp add: div_less_iff_less_mult)
  then have "unat (hi_byte w) = unat w div 256" by (simp add: hi_byte_def unsigned_ucast_eq take_bit_eq_mod hi)
  moreover have "unat (lo_byte w) = unat w mod 256" by (simp add: lo_byte_def unsigned_ucast_eq take_bit_eq_mod)
  ultimately show ?thesis by simp
qed

lemma unat_checksum:
  assumes "length bs \<le> 65536"
  shows "unat (checksum bs) = 65535 - unat (fold_sum (sum_words bs 0))" "unat (sum_words bs 0) = total bs"
proof -
  have "(length bs + 1) div 2 \<le> 32768" using assms by simp
  then have "total bs \<le> 65535 * 32768" using total_bound [of bs] by linarith
  then show "unat (sum_words bs 0) = total bs" using sum_words_total [of 0 bs] by simp
  have lt: "unat (fold_sum (sum_words bs 0)) < 65536" using fold_sum_spec by simp
  have "unat (ucast (NOT w) :: 16 word) = 65535 - unat w" if "unat w < 65536" for w :: "32 word"
  proof -
    have w: "unat (ucast w :: 16 word) = unat w" using that by (simp add: unsigned_ucast_eq take_bit_eq_mod)
    have "ucast (NOT w) = (NOT (ucast w) :: 16 word)" by (rule bit_word_eqI) (simp add: bit_simps)
    then have "ucast (NOT w) = (- 1 - ucast w :: 16 word)" by (simp add: not_eq_complement)
    then have "unat (ucast (NOT w) :: 16 word) = unat (- 1 :: 16 word) - unat (ucast w :: 16 word)"
      by (simp only:) (rule unat_sub, simp)
    then show ?thesis by (simp add: w unsigned_minus_1_eq_mask mask_eq_exp_minus_1)
  qed
  with lt show "unat (checksum bs) = 65535 - unat (fold_sum (sum_words bs 0))" by (simp add: checksum_def)
qed

lemma checksum_fold:
  assumes "length bs \<le> 65536"
  shows "checksum bs = 0 \<longleftrightarrow> 0 < total bs \<and> total bs mod 65535 = 0"
proof -
  let ?f = "unat (fold_sum (sum_words bs 0))"
  have f: "?f < 65536" "?f mod 65535 = total bs mod 65535" "?f = 0 \<longleftrightarrow> total bs = 0"
    using fold_sum_spec [of "sum_words bs 0"] unat_checksum(2) [OF assms] by (auto simp: unsigned_eq_0_iff)
  have "checksum bs = 0 \<longleftrightarrow> ?f = 65535"
    using unat_checksum(1) [OF assms] f(1) by (auto simp: word_unat_eq_iff)
  also have "\<dots> \<longleftrightarrow> 0 < total bs \<and> total bs mod 65535 = 0"
  proof
    assume "?f = 65535"
    with f show "0 < total bs \<and> total bs mod 65535 = 0" by (metis gr0I mod_self zero_neq_numeral)
  next
    assume t: "0 < total bs \<and> total bs mod 65535 = 0"
    then obtain k where k: "?f = 65535 * k" using f(2) by (metis mod_0_imp_dvd dvdE)
    have "k = 0 \<or> k = 1" using k f(1) by linarith
    with k t f(3) show "?f = 65535" by auto
  qed
  finally show ?thesis .
qed

text \<open>Storing the checksum of a message with a zero checksum field into this field makes it verify.\<close>

lemma checksum_verifies:
  assumes "even (length xs)" "length xs + 2 + length ys \<le> 65536" "c = checksum (xs @ [0, 0] @ ys)"
  shows "checksum (xs @ [lo_byte c, hi_byte c] @ ys) = 0"
proof -
  let ?z = "xs @ [0, 0] @ ys" and ?m = "xs @ [lo_byte c, hi_byte c] @ ys"
  let ?f = "unat (fold_sum (sum_words ?z 0))"
  have len: "length ?z \<le> 65536" "length ?m \<le> 65536" using assms(2) by auto
  have f: "?f < 65536" "?f mod 65535 = total ?z mod 65535" "?f = 0 \<longleftrightarrow> total ?z = 0"
    using fold_sum_spec [of "sum_words ?z 0"] unat_checksum(2) [OF len(1)] by (auto simp: unsigned_eq_0_iff)
  have "total ?m = total ?z + unat c" using total_append [OF assms(1)] unat_bytes [of c] by simp
  also have "\<dots> = total ?z + (65535 - ?f)" using unat_checksum(1) [OF len(1)] assms(3) by simp
  finally have m: "total ?m = total ?z + (65535 - ?f)" .
  have "(total ?z + (65535 - ?f)) mod 65535 = (?f + (65535 - ?f)) mod 65535"
    by (rule mod_add_cong [OF f(2) [symmetric] refl])
  then have "total ?m mod 65535 = 0" using m f(1) by simp
  moreover have "0 < total ?m" using m f by (cases "?f = 65535") auto
  ultimately show ?thesis using checksum_fold [OF len(2)] by simp
qed

section \<open>Building the datagram\<close>

abbreviation (input) IP_MAXPACKET :: nat where "IP_MAXPACKET \<equiv> 65535"
abbreviation (input) IPv4_HEADER_LEN :: nat where "IPv4_HEADER_LEN \<equiv> 20"
abbreviation (input) UDP_HEADER_LEN :: nat where "UDP_HEADER_LEN \<equiv> 8"
abbreviation (input) UDP_PSEUDOHEADER_SIZE :: nat where "UDP_PSEUDOHEADER_SIZE \<equiv> 12"

definition store :: "nat \<Rightarrow> bytes \<Rightarrow> bytes \<Rightarrow> bytes" where
  "store at bs mem = take at mem @ bs @ drop (at + length bs) mem"

text \<open>The bytes of a 16-bit field in network order, and its value when the host reads it unconverted.\<close>

definition be16 :: "nat \<Rightarrow> bytes" where
  "be16 n = [word_of_nat (n div 256), word_of_nat n]"

definition swap16 :: "nat \<Rightarrow> nat" where
  "swap16 n = 256 * (n mod 256) + n div 256"

definition pseudoheader :: "bytes \<Rightarrow> bytes \<Rightarrow> nat \<Rightarrow> bytes" where
  "pseudoheader src dst n = src @ dst @ [0, 17] @ be16 n"

text \<open>
  \<^verbatim>\<open>udpChecksum()\<close>, on the addresses in the IP header, the memory from the UDP header on, the
  datagram length \<open>n\<close>, and the contents of its uninitialised array; \<open>None\<close> if \<^verbatim>\<open>memcpy()\<close> overruns
  the memory.  The length is not converted before it is used for the copy.
\<close>

definition udpChecksum :: "bytes \<Rightarrow> bytes \<Rightarrow> nat \<Rightarrow> bytes \<Rightarrow> bytes \<Rightarrow> 16 word option" where
  "udpChecksum src dst n mem junk =
     (if length mem < swap16 n then None
      else
        let buf = store 0 (pseudoheader src dst n) junk;
            buf = store UDP_PSEUDOHEADER_SIZE (take (swap16 n) mem) buf;
            buf = store (UDP_PSEUDOHEADER_SIZE + 6) [0, 0] buf;
            checksumLen = UDP_PSEUDOHEADER_SIZE + n;
            (buf, checksumLen) =
              (if odd checksumLen then (store checksumLen [0] buf, checksumLen + 1) else (buf, checksumLen))
        in Some (checksum (take checksumLen buf)))"

text \<open>\<^verbatim>\<open>buildIpHeader()\<close>: the total length and the checksum are left to the kernel.\<close>

definition buildIpHeader :: "bytes \<Rightarrow> bytes \<Rightarrow> bytes \<Rightarrow> bytes" where
  "buildIpHeader src dst mem =
     store 16 dst (store 12 src (store 8 [255, 17] (store 6 (be16 0) (store 4 (be16 0) (store 0 [0x45, 0] mem)))))"

definition to_bytes :: "string \<Rightarrow> bytes" where
  "to_bytes s = map of_char s"

definition port :: "string \<Rightarrow> nat" where
  "port s = nat (atoi s mod 65536)"

text \<open>
  \<^verbatim>\<open>buildUdpDatagram()\<close>, on the memory from the UDP header on; the data length is kept in 16 bits.
  \<open>None\<close> on an overrun.
\<close>

definition buildUdpDatagram :: "bytes \<Rightarrow> bytes \<Rightarrow> string \<Rightarrow> string \<Rightarrow> string \<Rightarrow> bytes \<Rightarrow> bytes \<Rightarrow> bytes option" where
  "buildUdpDatagram src dst srcPort dstPort data junk mem =
     (let udpDataLen = length data mod 65536;
          n = (UDP_HEADER_LEN + udpDataLen) mod 65536
      in if length mem < UDP_HEADER_LEN + udpDataLen then None
         else
           let mem = store UDP_HEADER_LEN (take udpDataLen (to_bytes data)) mem;
               mem = store 0 (be16 (port srcPort)) mem;
               mem = store 2 (be16 (port dstPort)) mem;
               mem = store 4 (be16 n) mem
           in map_option (\<lambda>c. store 6 [lo_byte c, hi_byte c] mem) (udpChecksum src dst n mem junk))"

section \<open>The program\<close>

record 'k raw =
  rw_proc :: proc
  rw_sent :: "bytes list"
  rw_kern :: 'k

record 'k raw_sys =
  getIPv4 :: "string \<Rightarrow> 'k \<Rightarrow> (string + bytes) \<times> 'k"     \<comment> \<open>the resolver: \<open>gai_strerror()\<close> or an address\<close>
  inet_ntop :: "bytes \<Rightarrow> string option"
  raw_socket :: "'k \<Rightarrow> int option \<times> 'k"
  raw_sendto :: "bytes \<Rightarrow> nat \<Rightarrow> 'k \<Rightarrow> int option \<times> 'k"    \<comment> \<open>the memory and the number of bytes to send\<close>

definition raw_out :: "string \<Rightarrow> 'k raw \<Rightarrow> 'k raw" where
  "raw_out msg s = s\<lparr>rw_proc := (rw_proc s)\<lparr>stdout_buf := stdout_buf (rw_proc s) @ msg\<rparr>\<rparr>"

definition raw_end :: "(proc \<Rightarrow> (proc, 'a) run) \<Rightarrow> 'k raw \<Rightarrow> ('k raw, 'a) run" where
  "raw_end f s = (case f (rw_proc s) of Done a p \<Rightarrow> Done a (s\<lparr>rw_proc := p\<rparr>) | Halt h p \<Rightarrow> Halt h (s\<lparr>rw_proc := p\<rparr>))"

definition getIPv4Addr :: "env_tables \<Rightarrow> 'k raw_sys \<Rightarrow> string \<Rightarrow> 'k raw \<Rightarrow> ('k raw, bytes) run" where
  "getIPv4Addr tb N host s =
     (case getIPv4 N host (rw_kern s) of
        (Inl e, k) \<Rightarrow> raw_end (fatal tb (''getaddrinfo() failed: '' @ e)) (s\<lparr>rw_kern := k\<rparr>)
      | (Inr a, k) \<Rightarrow> Done a (s\<lparr>rw_kern := k\<rparr>))"

definition raw_call :: "env_tables \<Rightarrow> string \<Rightarrow> ('k \<Rightarrow> int option \<times> 'k) \<Rightarrow> 'k raw \<Rightarrow> ('k raw, unit) run" where
  "raw_call tb msg f s =
     (case f (rw_kern s) of
        (Some e, k) \<Rightarrow> raw_end (errExit tb msg) (s\<lparr>rw_kern := k, rw_proc := (rw_proc s)\<lparr>errno := e\<rparr>\<rparr>)
      | (None, k) \<Rightarrow> Done () (s\<lparr>rw_kern := k\<rparr>))"

text \<open>The part of \<^verbatim>\<open>main()\<close> after the IP header: the datagram is completed and sent.\<close>

definition send_datagram ::
  "env_tables \<Rightarrow> 'k raw_sys \<Rightarrow> bytes \<Rightarrow> bytes \<Rightarrow> bytes \<Rightarrow> bytes \<Rightarrow> string list \<Rightarrow> 'k raw \<Rightarrow> ('k raw, unit) run" where
  "send_datagram tb N src dst mem junk argv s =
     (let data = argv ! 5; datagramLen = IPv4_HEADER_LEN + UDP_HEADER_LEN + length data in
      case buildUdpDatagram src dst (argv ! 3) (argv ! 4) data junk (drop IPv4_HEADER_LEN mem) of
        None \<Rightarrow> Halt Fault s
      | Some dgram \<Rightarrow>
          let n = (UDP_HEADER_LEN + length data mod 65536) mod 65536;
              sumLen = UDP_PSEUDOHEADER_SIZE + n;
              s = raw_out (''UDP header length = '' @ decimal n @ nl) s;
              s = raw_out (''Buffer length for UDP checksum = '' @ decimal (sumLen + sumLen mod 2) @ nl) s;
              mem = take IPv4_HEADER_LEN mem @ dgram in
          andThen (raw_call tb ''socket'' (raw_socket N) s) (\<lambda>_ s.
            let s = raw_out (''Sending datagram ('' @ decimal datagramLen @ '' bytes)'' @ nl) s in
            andThen (raw_call tb ''sendto'' (raw_sendto N mem datagramLen) s) (\<lambda>_ s.
              raw_end (do_exit EXIT_SUCCESS) (s\<lparr>rw_sent := rw_sent s @ [take datagramLen mem]\<rparr>))))"

text \<open>
  \<^verbatim>\<open>main()\<close>: \<open>fresh\<close> is the memory that \<^verbatim>\<open>malloc()\<close> returns (\<open>None\<close> if it fails), \<open>junk\<close> the uninitialised array.
\<close>

definition raw_send_udp_main ::
  "env_tables \<Rightarrow> 'k raw_sys \<Rightarrow> bytes option \<Rightarrow> bytes \<Rightarrow> string list \<Rightarrow> 'k raw \<Rightarrow> ('k raw, unit) run" where
  "raw_send_udp_main tb N fresh junk argv s =
     (if length argv < 6 then raw_end (usageErr (hd argv @ '' src-IP dest-host src-port dest-port data'' @ nl)) s
      else case fresh of
        None \<Rightarrow> raw_end (errExit tb ''malloc-ipDatagram'') s
      | Some mem \<Rightarrow>
          andThen (getIPv4Addr tb N (argv ! 2) s) (\<lambda>dst s.
            case inet_ntop N dst of
              None \<Rightarrow> raw_end (errExit tb ''inet_ntop'') s
            | Some dstIpStr \<Rightarrow>
                andThen
                  (getIPv4Addr tb N (argv ! 1)
                     (raw_out (''Destination IP: '' @ replicate (16 - length dstIpStr) CHR '' '' @ dstIpStr @ nl) s))
                  (\<lambda>src. send_datagram tb N src dst (buildIpHeader src dst mem) junk argv)))"

section \<open>Which datagrams verify\<close>

lemma length_store [simp]: "at + length bs \<le> length mem \<Longrightarrow> length (store at bs mem) = length mem"
  by (simp add: store_def)

text \<open>What the receiver sums up: the pseudoheader and the datagram, padded to an even length.\<close>

definition udp_message :: "bytes \<Rightarrow> bytes \<Rightarrow> nat \<Rightarrow> bytes \<Rightarrow> bytes" where
  "udp_message src dst n dgram = pseudoheader src dst n @ dgram @ (if odd n then [0] else [])"

lemma udpChecksum_covers:
  assumes "length src = 4" "length dst = 4" "n \<le> swap16 n" "swap16 n \<le> length mem" "length mem \<le> 65515"
    and "length junk = IP_MAXPACKET" "8 \<le> n"
  shows "udpChecksum src dst n mem junk = Some (checksum (udp_message src dst n (take 6 mem @ [0, 0] @ drop 8 (take n mem))))"
proof -
  let ?ps = "pseudoheader src dst n"
  have ps: "length ?ps = 12" using assms(1,2) by (simp add: pseudoheader_def be16_def)
  define b1 where "b1 = store 0 ?ps junk"
  define b2 where "b2 = store 12 (take (swap16 n) mem) b1"
  define b3 where "b3 = store 18 [0, 0] b2"
  have b1: "b1 = ?ps @ drop 12 junk" by (simp add: b1_def store_def ps)
  have b2: "b2 = ?ps @ take (swap16 n) mem @ drop (12 + swap16 n) junk"
    using assms(4) by (simp add: b2_def b1 store_def ps add.commute)
  have b3: "b3 = ?ps @ take 6 mem @ [0, 0] @ drop 8 (take (swap16 n) mem) @ drop (12 + swap16 n) junk"
    using assms(3,4,7) by (simp add: b3_def b2 store_def ps min_def)
  have len: "length b3 = 65535" using assms ps by (simp add: b3)
  have t: "take (12 + n) b3 = ?ps @ take 6 mem @ [0, 0] @ drop 8 (take n mem)"
    using assms(3,4,7) ps by (simp add: b3 min_def drop_take take_Cons')
  show ?thesis
  proof (cases "odd n")
    case True
    have "take (Suc (12 + n)) (store (12 + n) [0] b3) = take (12 + n) b3 @ [0]"
      using assms len by (simp add: store_def)
    then show ?thesis
      using assms(4) True t by (simp add: udpChecksum_def Let_def b1_def [symmetric] b2_def [symmetric] b3_def [symmetric] udp_message_def)
  next
    case False
    then show ?thesis
      using assms(4) t by (simp add: udpChecksum_def Let_def b1_def [symmetric] b2_def [symmetric] b3_def [symmetric] udp_message_def)
  qed
qed

lemma even_pseudoheader:
  "length src = 4 \<Longrightarrow> length dst = 4 \<Longrightarrow> 6 \<le> length mem \<Longrightarrow> even (length (pseudoheader src dst n @ take 6 mem))"
  by (simp add: pseudoheader_def be16_def)

text \<open>The memory before the checksum is stored, for data that fits.\<close>

definition udp_fields :: "string \<Rightarrow> string \<Rightarrow> string \<Rightarrow> bytes \<Rightarrow> bytes" where
  "udp_fields srcPort dstPort data mem =
     be16 (port srcPort) @ be16 (port dstPort) @ be16 (UDP_HEADER_LEN + length data) @ drop 6 (take 8 mem) @
       to_bytes data @ drop (UDP_HEADER_LEN + length data) mem"

lemma buildUdpDatagram_eq:
  assumes "length mem = 65515" "length data \<le> 65507"
  shows "buildUdpDatagram src dst sp dp data junk mem =
    map_option (\<lambda>c. store 6 [lo_byte c, hi_byte c] (udp_fields sp dp data mem))
      (udpChecksum src dst (8 + length data) (udp_fields sp dp data mem) junk)"
proof -
  have l: "length (to_bytes data) = length data" by (simp add: to_bytes_def)
  have "store 4 (be16 (8 + length data)) (store 2 (be16 (port dp)) (store 0 (be16 (port sp)) (store 8 (to_bytes data) mem))) =
      udp_fields sp dp data mem"
    using assms l by (simp add: store_def udp_fields_def be16_def drop_take) 
  then show ?thesis using assms l by (simp add: buildUdpDatagram_def Let_def)
qed

lemma buildUdpDatagram_verifies:
  assumes "length src = 4" "length dst = 4" "length mem = 65515" "length junk = IP_MAXPACKET"
    and "8 + length data \<le> swap16 (8 + length data)" "swap16 (8 + length data) \<le> 65515"
  shows "\<exists>dgram. buildUdpDatagram src dst srcPort dstPort data junk mem = Some dgram \<and> length dgram = 65515 \<and>
    take 6 dgram = be16 (port srcPort) @ be16 (port dstPort) @ be16 (8 + length data) \<and>
    checksum (udp_message src dst (8 + length data) (take (8 + length data) dgram)) = 0 \<and>
    drop 8 (take (8 + length data) dgram) = to_bytes data"
proof -
  let ?n = "8 + length data" and ?m = "udp_fields srcPort dstPort data mem"
  have n: "?n \<le> 65515" using assms(5,6) by simp
  have l: "length (to_bytes data) = length data" by (simp add: to_bytes_def)
  have m: "length ?m = 65515" using n assms(3) l by (simp add: udp_fields_def be16_def)
  let ?xs = "pseudoheader src dst ?n @ take 6 ?m" and ?ys = "drop 8 (take ?n ?m) @ (if odd ?n then [0] else [])"
  define c where "c = checksum (?xs @ [0, 0] @ ?ys)"
  have "udpChecksum src dst ?n ?m junk = Some c"
    using udpChecksum_covers [OF assms(1,2,5) _ _ assms(4), of ?m] assms(6) m by (simp add: c_def udp_message_def)
  then have b: "buildUdpDatagram src dst srcPort dstPort data junk mem = Some (store 6 [lo_byte c, hi_byte c] ?m)"
    using buildUdpDatagram_eq [OF assms(3)] n by simp
  have "even (length ?xs)" by (rule even_pseudoheader [OF assms(1,2)]) (simp add: m)
  moreover have "length ?xs + 2 + length ?ys \<le> 65536"
    using assms(1,2) n m by (simp add: pseudoheader_def be16_def)
  ultimately have v: "checksum (?xs @ [lo_byte c, hi_byte c] @ ?ys) = 0" by (rule checksum_verifies) (simp add: c_def)
  have t: "take ?n (store 6 [lo_byte c, hi_byte c] ?m) = take 6 ?m @ [lo_byte c, hi_byte c] @ drop 8 (take ?n ?m)"
    using m n by (simp add: store_def drop_take)
  have "drop 8 (take ?n ?m) = to_bytes data"
    using l n assms(3) by (simp add: udp_fields_def be16_def drop_take)
  moreover have "take 6 (store 6 [lo_byte c, hi_byte c] ?m) = be16 (port srcPort) @ be16 (port dstPort) @ be16 ?n"
    using m by (simp add: store_def udp_fields_def be16_def)
  ultimately show ?thesis using b t v m by (intro exI [of _ "store 6 [lo_byte c, hi_byte c] ?m"]) (simp add: udp_message_def)
qed

lemma buildIpHeader_eq:
  assumes "length mem = IP_MAXPACKET" "length src = 4" "length dst = 4"
  shows "buildIpHeader src dst mem =
    [0x45, 0] @ drop 2 (take 4 mem) @ [0, 0, 0, 0, 255, 17] @ drop 10 (take 12 mem) @ src @ dst @ drop 20 mem"
  using assms by (simp add: buildIpHeader_def store_def be16_def drop_take numeral_2_eq_2)

abbreviation failed :: "'k raw \<Rightarrow> halt \<Rightarrow> 'k raw \<Rightarrow> bool" where
  "failed s \<equiv> \<lambda>h t. h \<noteq> Fault \<and> h \<noteq> Exit EXIT_SUCCESS \<and> rw_sent t = rw_sent s"

lemma raw_end_holds:
  "holds Q (failed s) (raw_end (errExit tb m) s)"
  "holds Q (failed s) (raw_end (fatal tb m) s)"
  "holds Q (failed s) (raw_end (usageErr m) s)"
  by (auto simp: raw_end_def errExit_def fatal_def usageErr_def terminate_def do_exit_def split: run.splits if_splits)

lemma getIPv4Addr_holds:
  "holds (\<lambda>a t. (\<exists>k k'. getIPv4 N h k = (Inr a, k')) \<and> rw_sent t = rw_sent s) (failed s) (getIPv4Addr tb N h s)"
proof -
  have "holds Q (failed s) (raw_end (fatal tb m) (s\<lparr>rw_kern := k\<rparr>))" for Q m k
    using raw_end_holds(2) [of Q "s\<lparr>rw_kern := k\<rparr>"] by simp
  then show ?thesis by (auto simp: getIPv4Addr_def split: prod.splits sum.splits)
qed

lemma raw_call_holds: "holds (\<lambda>_ t. rw_sent t = rw_sent s) (failed s) (raw_call tb msg f s)"
proof -
  have "holds Q (failed s) (raw_end (errExit tb msg) (s\<lparr>rw_kern := k, rw_proc := (rw_proc s)\<lparr>errno := e\<rparr>\<rparr>))" for Q k e
    using raw_end_holds(1) [of Q "s\<lparr>rw_kern := k, rw_proc := (rw_proc s)\<lparr>errno := e\<rparr>\<rparr>"] by simp
  then show ?thesis by (auto simp: raw_call_def split: prod.splits option.splits)
qed

text \<open>A correct packet: the fields of both headers, the checksum over the pseudoheader, and the data.\<close>

definition good_packet :: "bytes \<Rightarrow> bytes \<Rightarrow> string \<Rightarrow> string \<Rightarrow> string \<Rightarrow> bytes \<Rightarrow> bool" where
  "good_packet src dst srcPort dstPort data p \<longleftrightarrow>
     length p = 28 + length data \<and> take 2 p = [0x45, 0] \<and> take 2 (drop 8 p) = [255, 17] \<and>
     take 4 (drop 12 p) = src \<and> take 4 (drop 16 p) = dst \<and>
     take 6 (drop 20 p) = be16 (port srcPort) @ be16 (port dstPort) @ be16 (8 + length data) \<and>
     checksum (udp_message src dst (8 + length data) (drop 20 p)) = 0 \<and>
     drop 28 p = to_bytes data"

lemma packet_is_good:
  assumes "length mem = IP_MAXPACKET" "length src = 4" "length dst = 4" "length junk = IP_MAXPACKET"
    and "8 + length data \<le> swap16 (8 + length data)" "swap16 (8 + length data) \<le> 65515"
  shows "\<exists>dgram. buildUdpDatagram src dst sp dp data junk (drop 20 (buildIpHeader src dst mem)) = Some dgram \<and>
    good_packet src dst sp dp data (take (28 + length data) (take 20 (buildIpHeader src dst mem) @ dgram))"
proof -
  let ?m = "buildIpHeader src dst mem"
  have m: "length (take 20 ?m) = 20" "length (drop 20 ?m) = 65515"
    "take 2 (take 20 ?m) = [0x45, 0]" "take 2 (drop 8 (take 20 ?m)) = [255, 17]"
    "take 4 (drop 12 (take 20 ?m)) = src" "drop 16 (take 20 ?m) = dst"
    using assms(1-3) by (simp_all add: buildIpHeader_eq take_Cons' drop_Cons')
  from buildUdpDatagram_verifies [OF assms(2,3) m(2) assms(4-6)]
  obtain d where d: "buildUdpDatagram src dst sp dp data junk (drop 20 ?m) = Some d" "length d = 65515"
    "take 6 d = be16 (port sp) @ be16 (port dp) @ be16 (8 + length data)"
    "checksum (udp_message src dst (8 + length data) (take (8 + length data) d)) = 0"
    "drop 8 (take (8 + length data) d) = to_bytes data" by blast
  have n: "8 + length data \<le> 65515" using assms(5,6) by linarith
  define h where "h = take 20 ?m"
  note m' = m(1,3-6) [folded h_def]
  have p: "take (28 + length data) (h @ d) = h @ take (8 + length data) d" using m' by simp
  have "good_packet src dst sp dp data (h @ take (8 + length data) d)"
    unfolding good_packet_def using m' d n assms(3) by (simp add: min_def)
  then show ?thesis using d(1) p by (auto simp: h_def)
qed

lemma replicate_bytes: "length (replicate 65515 (0 :: 8 word)) = 65515" "length (replicate 65535 (0 :: 8 word)) = 65535"
  by (rule length_replicate)+

text \<open>The outcome of the program: an error with nothing sent, or one good packet sent.\<close>

definition sent_or_failed :: "'k raw_sys \<Rightarrow> string list \<Rightarrow> 'k raw \<Rightarrow> halt \<Rightarrow> 'k raw \<Rightarrow> bool" where
  "sent_or_failed N argv s h t \<longleftrightarrow> h \<noteq> Fault \<and>
     (if h = Exit EXIT_SUCCESS
      then \<exists>src dst p k1 k1' k2 k2'. getIPv4 N (argv ! 1) k1 = (Inr src, k1') \<and> getIPv4 N (argv ! 2) k2 = (Inr dst, k2') \<and>
        rw_sent t = rw_sent s @ [p] \<and> good_packet src dst (argv ! 3) (argv ! 4) (argv ! 5) p
      else rw_sent t = rw_sent s)"

lemma holds_failed:
  "holds Q (failed u) r \<Longrightarrow> rw_sent u = rw_sent s \<Longrightarrow> holds Q (sent_or_failed N argv s) r"
  by (erule holds_weaken) (auto simp: sent_or_failed_def)

lemma rw_sent_out [simp]: "rw_sent (raw_out m s) = rw_sent s"
  by (simp add: raw_out_def)

lemma send_datagram_holds:
  assumes "length mem = IP_MAXPACKET" "length junk = IP_MAXPACKET" "length src = 4" "length dst = 4"
    and "8 + length (argv ! 5) \<le> swap16 (8 + length (argv ! 5))" "swap16 (8 + length (argv ! 5)) \<le> 65515"
    and src: "getIPv4 N (argv ! 1) k1 = (Inr src, k1')" and dst: "getIPv4 N (argv ! 2) k2 = (Inr dst, k2')"
    and u: "rw_sent u = rw_sent s"
  shows "holds (\<lambda>_ _. False) (sent_or_failed N argv s) (send_datagram tb N src dst (buildIpHeader src dst mem) junk argv u)"
proof -
  from packet_is_good [OF assms(1,3,4,2,5,6)] obtain d where
    d: "buildUdpDatagram src dst (argv ! 3) (argv ! 4) (argv ! 5) junk (drop 20 (buildIpHeader src dst mem)) = Some d"
    and p: "good_packet src dst (argv ! 3) (argv ! 4) (argv ! 5)
      (take (28 + length (argv ! 5)) (take 20 (buildIpHeader src dst mem) @ d))" by blast
  have e: "IPv4_HEADER_LEN + UDP_HEADER_LEN + n = 28 + n" for n by simp
  have fin: "holds (\<lambda>_ _. False) (sent_or_failed N argv s) (raw_end (do_exit EXIT_SUCCESS)
      (v\<lparr>rw_sent := rw_sent v @ [take (28 + length (argv ! 5)) (take 20 (buildIpHeader src dst mem) @ d)]\<rparr>))"
    if "rw_sent v = rw_sent s" for v
    using that src dst p unfolding sent_or_failed_def raw_end_def do_exit_def
    by (auto intro!: exI)
  show ?thesis
    unfolding send_datagram_def Let_def d option.case e
    by (intro holds_andThen [OF holds_failed [OF raw_call_holds]] fin) (auto simp: u)
qed

text \<open>C23: raw_send_udp.c sends correct packets. Whatever the arguments, the environment and the contents of fresh memory,
  the program ends without overrunning its buffers, either after an error with nothing sent, or successfully with one
  packet whose header fields are those of the arguments, which carries the data, and whose checksum the receiver finds
  correct. The length of the UDP datagram, read with its two bytes swapped, must be at least the length itself and
  within the buffer, because the program uses it unconverted.\<close>
theorem raw_udp_sends:
  assumes "6 \<le> length argv" "length mem = IP_MAXPACKET" "length junk = IP_MAXPACKET"
    and "\<And>h k a k'. getIPv4 N h k = (Inr a, k') \<Longrightarrow> length a = 4"
    and "8 + length (argv ! 5) \<le> swap16 (8 + length (argv ! 5))" "swap16 (8 + length (argv ! 5)) \<le> 65515"
  shows "holds (\<lambda>_ _. False) (sent_or_failed N argv s) (raw_send_udp_main tb N (Some mem) junk argv s)"
proof -
  have args: "\<not> length argv < 6" using assms(1) by simp
  show ?thesis
    unfolding raw_send_udp_main_def if_not_P [OF args] option.case
    by (rule holds_andThen [OF holds_failed [OF getIPv4Addr_holds refl]])
      (auto split: option.split intro!: holds_failed [OF raw_end_holds(1)] holds_andThen [OF holds_failed [OF getIPv4Addr_holds]]
        send_datagram_holds assms(2-))
qed

text \<open>For other lengths the checksum does not cover the datagram. For 504 bytes of data the datagram length is 512, which
  read with its bytes swapped is 2: only the source port is copied, so that the header, with the checksum, is the same for
  all data; it depends on the contents of an uninitialised array instead.\<close>
theorem raw_udp_uncovered:
  assumes "length mem = 65515" "length data = 504" "length data' = 504"
  shows "\<exists>d d'. buildUdpDatagram src dst srcPort dstPort data junk mem = Some d \<and>
    buildUdpDatagram src dst srcPort dstPort data' junk mem = Some d' \<and> take 8 d = take 8 d' \<and>
    take 504 (drop 8 d) = to_bytes data \<and> take 504 (drop 8 d') = to_bytes data'"
proof -
  have sw: "swap16 512 = 2" by (simp add: swap16_def)
  have two: "take 2 (udp_fields srcPort dstPort d mem) = be16 (port srcPort)" for d by (simp add: udp_fields_def be16_def)
  have len: "length (udp_fields srcPort dstPort d mem) = 65515" if "length d = 504" for d
    using that assms(1) by (simp add: udp_fields_def be16_def to_bytes_def)
  define c where "c = udpChecksum src dst 512 (be16 (port srcPort)) junk"
  have c: "udpChecksum src dst 512 (udp_fields srcPort dstPort d mem) junk = c" if "length d = 504" for d
    unfolding c_def udpChecksum_def sw two by (simp add: len [OF that] be16_def)
  obtain w where w: "c = Some w" unfolding c_def udpChecksum_def sw by (simp add: be16_def Let_def)
  have b: "buildUdpDatagram src dst srcPort dstPort d junk mem = Some (store 6 [lo_byte w, hi_byte w] (udp_fields srcPort dstPort d mem))"
    if "length d = 504" for d
    using buildUdpDatagram_eq [OF assms(1), of d] c [OF that] w that by simp
  have t: "take 8 (store 6 [x, y] (udp_fields srcPort dstPort d mem)) = be16 (port srcPort) @ be16 (port dstPort) @ be16 512 @ [x, y]"
    "take 504 (drop 8 (store 6 [x, y] (udp_fields srcPort dstPort d mem))) = to_bytes d" if "length d = 504" for d x y
    using that assms(1) by (simp_all add: store_def udp_fields_def be16_def to_bytes_def)
  show ?thesis using b t assms(2,3) by simp
qed

definition raw_demo_sys :: "unit raw_sys" where
  "raw_demo_sys = \<lparr>getIPv4 = \<lambda>_ k. (Inr [127, 0, 0, 1], k), inet_ntop = \<lambda>_. Some ''127.0.0.1'',
     raw_socket = \<lambda>k. (None, k), raw_sendto = \<lambda>_ _ k. (None, k)\<rparr>"

definition raw_demo_argv :: "string list" where
  "raw_demo_argv = [''raw_send_udp'', ''localhost'', ''localhost'', ''1000'', ''2000'', ''hello'']"

theorem raw_udp_sends_witness:
  "\<exists>t p. raw_send_udp_main \<lparr>ename = \<lambda>_. [], MAX_ENAME = 0, strerror = \<lambda>_. []\<rparr> raw_demo_sys (Some (replicate 65535 0))
      (replicate 65535 0) raw_demo_argv \<lparr>rw_proc = fresh_proc, rw_sent = [], rw_kern = ()\<rparr> = Halt (Exit EXIT_SUCCESS) t \<and>
    rw_sent t = [p] \<and> good_packet [127, 0, 0, 1] [127, 0, 0, 1] ''1000'' ''2000'' ''hello'' p"
proof -
  define z :: bytes where "z = replicate 65535 0"
  define tb where "tb = \<lparr>ename = \<lambda>_. [], MAX_ENAME = 0, strerror = \<lambda>_. []\<rparr>"
  define s where "s = \<lparr>rw_proc = fresh_proc, rw_sent = [], rw_kern = ()\<rparr>"
  have z: "length z = 65535" unfolding z_def by (rule length_replicate)
  have sw: "swap16 13 = 3328" by (simp add: swap16_def)
  have args: "length raw_demo_argv = 6" "raw_demo_argv ! 1 = ''localhost''" "raw_demo_argv ! 2 = ''localhost''"
    "raw_demo_argv ! 3 = ''1000''" "raw_demo_argv ! 4 = ''2000''" "raw_demo_argv ! 5 = ''hello''"
    by (simp_all add: raw_demo_argv_def)
  have h: "holds (\<lambda>_ _. False) (sent_or_failed raw_demo_sys raw_demo_argv s)
      (raw_send_udp_main tb raw_demo_sys (Some z) z raw_demo_argv s)"
    by (rule raw_udp_sends [OF _ z z]) (auto simp: args sw raw_demo_sys_def)
  obtain d where d: "buildUdpDatagram [127, 0, 0, 1] [127, 0, 0, 1] ''1000'' ''2000'' ''hello'' z
      (drop 20 (buildIpHeader [127, 0, 0, 1] [127, 0, 0, 1] z)) = Some d"
    using packet_is_good [OF z _ _ z, of "[127, 0, 0, 1]" "[127, 0, 0, 1]" "''hello''" "''1000''" "''2000''"] sw by auto
  have "how (raw_send_udp_main tb raw_demo_sys (Some z) z raw_demo_argv s) = Exit EXIT_SUCCESS"
    using d by (simp add: raw_send_udp_main_def args getIPv4Addr_def raw_demo_sys_def send_datagram_def Let_def raw_call_def
      raw_end_def do_exit_def raw_out_def)
  with h show ?thesis
    unfolding z_def [symmetric] tb_def [symmetric] s_def [symmetric]
    by (cases "raw_send_udp_main tb raw_demo_sys (Some z) z raw_demo_argv s")
      (auto simp: sent_or_failed_def args raw_demo_sys_def s_def)
qed

theorem raw_udp_uncovered_witness:
  "\<exists>d d'. buildUdpDatagram [127, 0, 0, 1] [127, 0, 0, 1] ''1000'' ''2000'' (replicate 504 CHR ''a'') (replicate 65535 0)
      (replicate 65515 0) = Some d \<and>
    buildUdpDatagram [127, 0, 0, 1] [127, 0, 0, 1] ''1000'' ''2000'' (replicate 504 CHR ''b'') (replicate 65535 0)
      (replicate 65515 0) = Some d' \<and> take 8 d = take 8 d'"
  using raw_udp_uncovered [OF replicate_bytes(1) length_replicate length_replicate] by blast

end
