(* ===== verification/Shm_Xfr.thy ===== *)
theory Shm_Xfr
  imports Bounded_System Stream_Io
begin

text \<open>
  A stream of data through System V shared memory: \<^verbatim>\<open>svshm/svshm_xfr_writer.c\<close> and
  \<^verbatim>\<open>svshm/svshm_xfr_reader.c\<close>, with the binary semaphores of \<^verbatim>\<open>svsem/binary_sems.c\<close>.  The two processes
  run concurrently; each is the point of its program it has reached.  No IPC object with their
  keys exists before the writer starts.  A reader that starts too early fails, as does a
  writer that cannot read and a reader that cannot write.
  The lemmas show that the two semaphores enforce strict alternation, that the output is
  the input, and that both processes end.
\<close>

abbreviation (input) BUF_SIZE :: nat where "BUF_SIZE \<equiv> 1024"

datatype wloc = W_semget | W_initw | W_initr | W_shmget | W_reserve | W_read | W_release | W_test | W_last | W_rm | W_exit | W_fail

datatype rloc = R_semget | R_shmget | R_reserve | R_test | R_write | R_release | R_last | R_exit | R_fail

record xfr =
  write_sem :: nat
  read_sem :: nat
  sems :: bool             \<comment> \<open>does the semaphore set exist\<close>
  shm :: bool              \<comment> \<open>does the shared memory segment exist\<close>
  cnt :: int               \<comment> \<open>in the segment: the number of bytes\<close>
  sbuf :: string           \<comment> \<open>in the segment: the bytes used\<close>
  inp :: input             \<comment> \<open>standard input of the writer\<close>
  out :: string            \<comment> \<open>standard output of the reader\<close>
  out_ws :: "wevent list"  \<comment> \<open>the fate of the writes of the reader\<close>
  w_bytes :: int
  w_xfrs :: int
  r_bytes :: int
  r_xfrs :: int
  wpc :: wloc
  rpc :: rloc

section \<open>Binary semaphores\<close>

datatype sem = WRITE_SEM | READ_SEM

definition initSemAvailable :: "sem \<Rightarrow> xfr \<Rightarrow> xfr" where
  "initSemAvailable m s = (case m of WRITE_SEM \<Rightarrow> s\<lparr>write_sem := 1\<rparr> | READ_SEM \<Rightarrow> s\<lparr>read_sem := 1\<rparr>)"

definition initSemInUse :: "sem \<Rightarrow> xfr \<Rightarrow> xfr" where
  "initSemInUse m s = (case m of WRITE_SEM \<Rightarrow> s\<lparr>write_sem := 0\<rparr> | READ_SEM \<Rightarrow> s\<lparr>read_sem := 0\<rparr>)"

text \<open>\<open>None\<close> while the call blocks; an interruption by a signal is retried.\<close>

definition reserveSem :: "sem \<Rightarrow> xfr \<Rightarrow> xfr option" where
  "reserveSem m s =
     (case m of
        WRITE_SEM \<Rightarrow> if write_sem s = 0 then None else Some (s\<lparr>write_sem := write_sem s - 1\<rparr>)
      | READ_SEM \<Rightarrow> if read_sem s = 0 then None else Some (s\<lparr>read_sem := read_sem s - 1\<rparr>))"

definition releaseSem :: "sem \<Rightarrow> xfr \<Rightarrow> xfr" where
  "releaseSem m s =
     (case m of WRITE_SEM \<Rightarrow> s\<lparr>write_sem := write_sem s + 1\<rparr> | READ_SEM \<Rightarrow> s\<lparr>read_sem := read_sem s + 1\<rparr>)"

lemmas sem_defs = initSemAvailable_def initSemInUse_def reserveSem_def releaseSem_def

section \<open>The processes\<close>

fun writer :: "wloc \<Rightarrow> xfr \<Rightarrow> xfr option" where
  "writer W_semget s = Some (s\<lparr>sems := True, write_sem := 0, read_sem := 0, wpc := W_initw\<rparr>)"
| "writer W_initw s = Some ((initSemAvailable WRITE_SEM s)\<lparr>wpc := W_initr\<rparr>)"
| "writer W_initr s = Some ((initSemInUse READ_SEM s)\<lparr>wpc := W_shmget\<rparr>)"
| "writer W_shmget s = Some (s\<lparr>shm := True, cnt := 0, sbuf := [], wpc := W_reserve\<rparr>)"
| "writer W_reserve s = map_option (\<lambda>s. s\<lparr>wpc := W_read\<rparr>) (reserveSem WRITE_SEM s)"
| "writer W_read s =
     Some (case sys_read BUF_SIZE (inp s) of
             (Rerr e, r) \<Rightarrow> s\<lparr>inp := r, cnt := -1, wpc := W_fail\<rparr>
           | (Got cs, r) \<Rightarrow> s\<lparr>inp := r, cnt := int (length cs), sbuf := cs, wpc := W_release\<rparr>)"
| "writer W_release s = Some ((releaseSem READ_SEM s)\<lparr>wpc := W_test\<rparr>)"
| "writer W_test s =
     Some (if cnt s = 0 then s\<lparr>wpc := W_last\<rparr>
           else s\<lparr>w_xfrs := w_xfrs s + 1, w_bytes := w_bytes s + cnt s, wpc := W_reserve\<rparr>)"
| "writer W_last s = map_option (\<lambda>s. s\<lparr>wpc := W_rm\<rparr>) (reserveSem WRITE_SEM s)"
| "writer W_rm s = Some (s\<lparr>sems := False, shm := False, wpc := W_exit\<rparr>)"
| "writer _ s = None"

fun reader :: "rloc \<Rightarrow> xfr \<Rightarrow> xfr option" where
  "reader R_semget s = Some (s\<lparr>rpc := (if sems s then R_shmget else R_fail)\<rparr>)"
| "reader R_shmget s = Some (s\<lparr>rpc := (if shm s then R_reserve else R_fail)\<rparr>)"
| "reader R_reserve s = map_option (\<lambda>s. s\<lparr>rpc := R_test\<rparr>) (reserveSem READ_SEM s)"
| "reader R_test s =
     Some (if cnt s = 0 then s\<lparr>rpc := R_last\<rparr> else s\<lparr>r_bytes := r_bytes s + cnt s, rpc := R_write\<rparr>)"
| "reader R_write s =
     Some (case sys_write (take (nat (cnt s)) (sbuf s)) (out_ws s) of
             (Inl _, ws) \<Rightarrow> s\<lparr>out_ws := ws, rpc := R_fail\<rparr>
           | (Inr k, ws) \<Rightarrow>
               s\<lparr>out_ws := ws, out := out s @ take k (take (nat (cnt s)) (sbuf s)),
                 rpc := (if int k \<noteq> cnt s then R_fail else R_release)\<rparr>)"
| "reader R_release s = Some ((releaseSem WRITE_SEM s)\<lparr>r_xfrs := r_xfrs s + 1, rpc := R_reserve\<rparr>)"
| "reader R_last s = Some ((releaseSem WRITE_SEM s)\<lparr>rpc := R_exit\<rparr>)"
| "reader _ s = None"

inductive xfr_step :: "xfr \<Rightarrow> xfr \<Rightarrow> bool" where
  writes: "writer (wpc s) s = Some t \<Longrightarrow> xfr_step s t"
| reads: "reader (rpc s) s = Some t \<Longrightarrow> xfr_step s t"

text \<open>A signal interrupts a blocked \<^verbatim>\<open>semop()\<close>, which is called again.\<close>

inductive xfr_env :: "xfr \<Rightarrow> xfr \<Rightarrow> bool" where
  interrupted: "writer (wpc s) s = None \<or> reader (rpc s) s = None \<Longrightarrow> xfr_env s s"

inductive_cases xfr_stepE: "xfr_step s t"
inductive_cases xfr_envE: "xfr_env s t"

definition xfr_start :: "input \<Rightarrow> wevent list \<Rightarrow> xfr" where
  "xfr_start i ws = \<lparr>write_sem = 0, read_sem = 0, sems = False, shm = False, cnt = 0, sbuf = [], inp = i, out = [],
     out_ws = ws, w_bytes = 0, w_xfrs = 0, r_bytes = 0, r_xfrs = 0, wpc = W_semget, rpc = R_semget\<rparr>"

section \<open>The invariant\<close>

abbreviation waiting :: "rloc \<Rightarrow> bool" where
  "waiting r \<equiv> r \<in> {R_semget, R_shmget, R_reserve}"

text \<open>Who may use the shared memory: at most one of the processes and semaphores has the turn.\<close>

definition turns :: "xfr \<Rightarrow> bool" where
  "turns s \<longleftrightarrow>
     (case wpc s of
        W_semget \<Rightarrow> \<not> sems s \<and> \<not> shm s \<and> rpc s = R_semget \<and> read_sem s = 0
      | W_initw \<Rightarrow> \<not> shm s \<and> rpc s \<in> {R_semget, R_shmget} \<and> read_sem s = 0
      | W_initr \<Rightarrow> \<not> shm s \<and> rpc s \<in> {R_semget, R_shmget} \<and> write_sem s = 1 \<and> read_sem s = 0
      | W_shmget \<Rightarrow> \<not> shm s \<and> rpc s \<in> {R_semget, R_shmget} \<and> write_sem s = 1 \<and> read_sem s = 0
      | W_reserve \<Rightarrow>
          (write_sem s = 1 \<and> read_sem s = 0 \<and> waiting (rpc s)) \<or>
          (write_sem s = 0 \<and> read_sem s = 1 \<and> waiting (rpc s) \<and> cnt s \<noteq> 0) \<or>
          (write_sem s = 0 \<and> read_sem s = 0 \<and> rpc s \<in> {R_test, R_write, R_release} \<and> cnt s \<noteq> 0)
      | W_read \<Rightarrow> write_sem s = 0 \<and> read_sem s = 0 \<and> waiting (rpc s)
      | W_release \<Rightarrow> write_sem s = 0 \<and> read_sem s = 0 \<and> waiting (rpc s)
      | W_test \<Rightarrow>
          (write_sem s = 0 \<and> read_sem s = 1 \<and> waiting (rpc s)) \<or>
          (write_sem s = 0 \<and> read_sem s = 0 \<and> rpc s = R_test) \<or>
          (write_sem s = 0 \<and> read_sem s = 0 \<and> rpc s \<in> {R_write, R_release} \<and> cnt s \<noteq> 0) \<or>
          (write_sem s = 0 \<and> read_sem s = 0 \<and> rpc s = R_last \<and> cnt s = 0) \<or>
          (write_sem s = 1 \<and> read_sem s = 0 \<and> waiting (rpc s) \<and> cnt s \<noteq> 0) \<or>
          (write_sem s = 1 \<and> read_sem s = 0 \<and> rpc s = R_exit \<and> cnt s = 0)
      | W_last \<Rightarrow> cnt s = 0 \<and>
          ((write_sem s = 0 \<and> read_sem s = 1 \<and> waiting (rpc s)) \<or>
           (write_sem s = 0 \<and> read_sem s = 0 \<and> rpc s \<in> {R_test, R_last}) \<or>
           (write_sem s = 1 \<and> read_sem s = 0 \<and> rpc s = R_exit))
      | W_rm \<Rightarrow> cnt s = 0 \<and> write_sem s = 0 \<and> read_sem s = 0 \<and> rpc s = R_exit
      | W_exit \<Rightarrow> cnt s = 0 \<and> rpc s = R_exit \<and> read_sem s = 0 \<and> \<not> sems s \<and> \<not> shm s
      | W_fail \<Rightarrow> read_sem s = 0 \<and> waiting (rpc s))"

text \<open>A block is in the shared memory, on its way to the output.\<close>

definition in_flight :: "xfr \<Rightarrow> bool" where
  "in_flight s \<longleftrightarrow> wpc s = W_release \<or> read_sem s = 1 \<or> rpc s \<in> {R_test, R_write}"

definition conserved :: "string \<Rightarrow> int option \<Rightarrow> xfr \<Rightarrow> bool" where
  "conserved T f s \<longleftrightarrow>
     (wpc s = W_fail \<or> out s @ (if in_flight s then sbuf s else []) @ fst (raw (inp s)) = T) \<and>
     (wpc s = W_fail \<or> cnt s = int (length (sbuf s)) \<and> snd (raw (inp s)) = f) \<and>
     (cnt s = 0 \<and> wpc s \<in> {W_release, W_test, W_last, W_rm, W_exit} \<longrightarrow> raw (inp s) = ([], None)) \<and>
     r_bytes s = int (length (out s)) + (if rpc s = R_write then cnt s else 0) \<and>
     (wpc s = W_fail \<or> w_bytes s + (if wpc s \<in> {W_release, W_test} then cnt s else 0) + int (length (fst (raw (inp s)))) = int (length T))"

definition xfr_inv :: "string \<Rightarrow> int option \<Rightarrow> xfr \<Rightarrow> bool" where
  "xfr_inv T f s \<longleftrightarrow> prefix (out s) T \<and> (rpc s = R_fail \<or> turns s \<and> conserved T f s)"

lemma xfr_start_inv: "raw i = (T, f) \<Longrightarrow> xfr_inv T f (xfr_start i ws)"
  by (simp add: xfr_inv_def xfr_start_def turns_def conserved_def in_flight_def)

lemma writer_turns:
  assumes "turns s" "writer (wpc s) s = Some t" "rpc s \<noteq> R_fail" "wpc s \<noteq> W_read"
  shows "turns t"
  using assms by (cases "wpc s") (auto simp: turns_def sem_defs split: if_splits)

lemma writer_conserved:
  assumes inv: "turns s" "conserved T f s" and step: "writer (wpc s) s = Some t"
    and ok: "rpc s \<noteq> R_fail" "wpc s \<noteq> W_read"
  shows "conserved T f t \<and> out t = out s"
proof (cases "wpc s")
  case W_shmget
  with inv(1) have w: "read_sem s = 0" "rpc s \<notin> {R_test, R_write}" by (auto simp: turns_def)
  show ?thesis using inv(2) step w W_shmget by (clarsimp simp: conserved_def in_flight_def)
next
  case W_semget
  with inv(1) have w: "read_sem s = 0" by (simp add: turns_def)
  show ?thesis using inv(2) step w W_semget by (clarsimp simp: conserved_def in_flight_def)
next
  case W_initr
  with inv(1) have w: "read_sem s = 0" by (simp add: turns_def)
  show ?thesis using inv(2) step w W_initr by (clarsimp simp: conserved_def in_flight_def sem_defs)
next
  case W_release
  with inv(1) have w: "read_sem s = 0" by (simp add: turns_def)
  show ?thesis using inv(2) step w W_release by (clarsimp simp: conserved_def in_flight_def sem_defs)
qed (use inv(2) step ok in \<open>clarsimp simp: conserved_def in_flight_def sem_defs split: if_splits\<close>)+

lemma writer_inv:
  assumes inv: "turns s" "conserved T f s" and step: "writer (wpc s) s = Some t" and ok: "rpc s \<noteq> R_fail"
  shows "turns t \<and> conserved T f t \<and> out t = out s"
proof (cases "wpc s")
  case W_read
  obtain x r where rd: "sys_read BUF_SIZE (inp s) = (x, r)" by fastforce
  note st = sys_read_stream [OF rd, where skip = "\<lambda>_. False"]
  show ?thesis
  proof (cases x)
    case (Rerr e)
    with W_read rd step have t: "t = s\<lparr>inp := r, cnt := -1, wpc := W_fail\<rparr>" by simp
    show ?thesis using inv st Rerr W_read unfolding t by (auto simp: turns_def conserved_def in_flight_def)
  next
    case (Got cs)
    with W_read rd step have t: "t = s\<lparr>inp := r, cnt := int (length cs), sbuf := cs, wpc := W_release\<rparr>" by simp
    have r: "cs = [] \<Longrightarrow> r = []" using sys_read_weight [OF rd] Got by auto
    show ?thesis using inv st Got W_read r unfolding t by (auto simp: turns_def conserved_def in_flight_def)
  qed
qed (use writer_turns [OF inv(1) step ok] writer_conserved [OF inv step ok] in auto)

lemma reader_turns:
  assumes "turns s" "reader (rpc s) s = Some t" "rpc s \<noteq> R_write" "rpc t \<noteq> R_fail"
  shows "turns t"
  using assms by (cases "rpc s"; cases "wpc s") (auto simp: turns_def sem_defs split: if_splits)

lemma reader_out: "reader (rpc s) s = Some t \<Longrightarrow> rpc s \<noteq> R_write \<Longrightarrow> out t = out s"
  by (cases "rpc s") (auto simp: sem_defs split: if_splits)

lemma reader_conserved:
  assumes "turns s" "conserved T f s" "reader (rpc s) s = Some t" "rpc s \<noteq> R_write" "rpc t \<noteq> R_fail"
  shows "conserved T f t"
proof (cases "rpc s")
  case R_test
  with assms(1) have w: "wpc s \<noteq> W_fail" "wpc s \<noteq> W_release" "read_sem s = 0"
    by (auto simp: turns_def split: wloc.splits)
  show ?thesis
  proof (cases "cnt s = 0")
    case True
    with assms(3) R_test have t: "t = s\<lparr>rpc := R_last\<rparr>" by simp
    show ?thesis using assms(2) w R_test True unfolding t by (cases "wpc s = W_test") (auto simp: conserved_def in_flight_def)
  next
    case False
    with assms(3) R_test have t: "t = s\<lparr>r_bytes := r_bytes s + cnt s, rpc := R_write\<rparr>" by simp
    show ?thesis using assms(2) w R_test unfolding t by (cases "wpc s = W_test") (auto simp: conserved_def in_flight_def)
  qed
next
  case R_reserve
  with assms(1,3) have w: "wpc s \<noteq> W_fail" "read_sem s = 1"
    by (auto simp: turns_def sem_defs split: wloc.splits if_splits)
  from R_reserve assms(3) w have t: "t = s\<lparr>read_sem := 0, rpc := R_test\<rparr>" by (simp add: sem_defs)
  show ?thesis using assms(2) w R_reserve unfolding t
    by (cases "wpc s \<in> {W_release, W_test}") (auto simp: conserved_def in_flight_def)
next
  case R_semget
  with assms(3,5) have t: "t = s\<lparr>rpc := R_shmget\<rparr>" by (auto split: if_splits)
  show ?thesis using assms(2) R_semget by (simp add: t conserved_def in_flight_def cong: if_cong split del: if_split)
next
  case R_shmget
  with assms(3,5) have t: "t = s\<lparr>rpc := R_reserve\<rparr>" by (auto split: if_splits)
  show ?thesis using assms(2) R_shmget by (simp add: t conserved_def in_flight_def cong: if_cong split del: if_split)
next
  case R_release
  with assms(3) have t: "t = s\<lparr>write_sem := write_sem s + 1, r_xfrs := r_xfrs s + 1, rpc := R_reserve\<rparr>"
    by (simp add: sem_defs)
  show ?thesis using assms(2) R_release by (simp add: t conserved_def in_flight_def cong: if_cong split del: if_split)
next
  case R_last
  with assms(3) have t: "t = s\<lparr>write_sem := write_sem s + 1, rpc := R_exit\<rparr>" by (simp add: sem_defs)
  show ?thesis using assms(2) R_last by (simp add: t conserved_def in_flight_def cong: if_cong split del: if_split)
qed (use assms(3,4) in simp_all)

lemma reader_inv:
  assumes inv: "turns s" "conserved T f s" "prefix (out s) T" and step: "reader (rpc s) s = Some t"
  shows "prefix (out t) T \<and> (rpc t = R_fail \<or> turns t \<and> conserved T f t)"
proof (cases "rpc s")
  case R_write
  from inv(1) R_write have w: "wpc s \<in> {W_reserve, W_test}" "read_sem s = 0" "write_sem s = 0" "cnt s \<noteq> 0"
    by (auto simp: turns_def split: wloc.splits)
  have len: "cnt s = int (length (sbuf s))" using inv(2) w by (auto simp: conserved_def)
  have T: "out s @ sbuf s @ fst (raw (inp s)) = T" using inv(2) w R_write by (auto simp: conserved_def in_flight_def)
  obtain x ws where wr: "sys_write (sbuf s) (out_ws s) = (x, ws)" by fastforce
  show ?thesis
  proof (cases x)
    case (Inl e)
    with step R_write wr len have "t = s\<lparr>out_ws := ws, rpc := R_fail\<rparr>" by simp
    with inv(3) show ?thesis by simp
  next
    case (Inr k)
    with step R_write wr len
    have t: "t = s\<lparr>out_ws := ws, out := out s @ take k (sbuf s), rpc := (if k \<noteq> length (sbuf s) then R_fail else R_release)\<rparr>"
      by simp
    have "prefix (out s @ take k (sbuf s)) T"
      unfolding T [symmetric] by (simp add: take_is_prefix prefix_prefix)
    moreover have "k = length (sbuf s) \<Longrightarrow> turns t \<and> conserved T f t"
      using inv(1,2) w R_write len T unfolding t by (auto simp: turns_def conserved_def in_flight_def)
    ultimately show ?thesis unfolding t by auto
  qed
qed (use reader_turns [OF inv(1) step] reader_conserved [OF inv(1,2) step] reader_out [OF step] inv(3) in auto)

lemma writer_rpc: "writer (wpc s) s = Some t \<Longrightarrow> rpc t = rpc s \<and> out t = out s"
  by (cases "wpc s") (auto simp: sem_defs split: if_splits prod.splits sum.splits rd.splits)

lemma xfr_inv_step:
  assumes "xfr_inv T f s" "xfr_step s t"
  shows "xfr_inv T f t"
  using assms(2)
proof (cases rule: xfr_step.cases)
  case writes
  then show ?thesis using assms(1) writer_inv [of s T f t] writer_rpc [of s t] by (auto simp: xfr_inv_def)
next
  case reads
  then have "rpc s \<noteq> R_fail" by auto
  with reads show ?thesis using assms(1) reader_inv [of s T f t] by (auto simp: xfr_inv_def)
qed

section \<open>Termination\<close>

definition w_left :: "xfr \<Rightarrow> nat" where
  "w_left s =
     (case wpc s of W_semget \<Rightarrow> 29 | W_initw \<Rightarrow> 28 | W_initr \<Rightarrow> 27 | W_shmget \<Rightarrow> 26 | W_reserve \<Rightarrow> 25 | W_read \<Rightarrow> 24
      | W_release \<Rightarrow> (if cnt s = 0 then 12 else 34) | W_test \<Rightarrow> (if cnt s = 0 then 6 else 28)
      | W_last \<Rightarrow> 5 | W_rm \<Rightarrow> 4 | W_exit \<Rightarrow> 0 | W_fail \<Rightarrow> 0)"

definition r_left :: "rloc \<Rightarrow> nat" where
  "r_left r =
     (case r of R_semget \<Rightarrow> 3 | R_shmget \<Rightarrow> 2 | R_reserve \<Rightarrow> 1 | R_test \<Rightarrow> 5 | R_write \<Rightarrow> 4 | R_release \<Rightarrow> 3 | R_last \<Rightarrow> 2
      | R_exit \<Rightarrow> 0 | R_fail \<Rightarrow> 0)"

definition xfr_left :: "xfr \<Rightarrow> nat" where
  "xfr_left s = 12 * weight_in (inp s) + w_left s + 5 * read_sem s + r_left (rpc s)"

lemma writer_left:
  assumes "writer (wpc s) s = Some t"
  shows "xfr_left t < xfr_left s"
proof (cases "wpc s")
  case W_read
  obtain x r where rd: "sys_read BUF_SIZE (inp s) = (x, r)" by fastforce
  show ?thesis using assms W_read rd sys_read_weight [OF rd]
    by (cases x) (auto simp: xfr_left_def w_left_def)
qed (use assms in \<open>auto simp: xfr_left_def w_left_def sem_defs split: if_splits\<close>)

lemma reader_left: "reader (rpc s) s = Some t \<Longrightarrow> xfr_left t < xfr_left s"
  by (cases "rpc s") (auto simp: xfr_left_def w_left_def r_left_def sem_defs split: if_splits prod.splits sum.splits)

lemma xfr_step_left: "xfr_step s t \<Longrightarrow> xfr_left t < xfr_left s"
  by (auto elim!: xfr_stepE dest: writer_left reader_left)

definition xfr_finished :: "xfr \<Rightarrow> bool" where
  "xfr_finished s \<longleftrightarrow> wpc s = W_fail \<or> rpc s = R_fail \<or> wpc s = W_exit \<and> rpc s = R_exit"

lemma xfr_progress:
  assumes "turns s" "\<not> xfr_finished s"
  shows "\<exists>t. xfr_step s t"
proof -
  have "(\<exists>t. writer (wpc s) s = Some t) \<or> (\<exists>t. reader (rpc s) s = Some t)"
    using assms by (cases "wpc s") (auto simp: turns_def xfr_finished_def sem_defs)
  then show ?thesis by (auto intro: xfr_step.intros)
qed

interpretation xf: bounded_system xfr_step xfr_env "xfr_inv T f" "\<lambda>s. int (xfr_left s)" 0 xfr_finished for T f
proof unfold_locales
  show "\<exists>t. xfr_step s t" if "xfr_inv T f s" "\<not> xfr_finished s" for s
    using that xfr_progress by (auto simp: xfr_inv_def xfr_finished_def)
qed (auto dest: xfr_inv_step xfr_step_left elim!: xfr_envE)

text \<open>Running a schedule: does the writer move next.\<close>

fun xfr_schedule :: "bool list \<Rightarrow> xfr \<Rightarrow> xfr option" where
  "xfr_schedule [] s = Some s"
| "xfr_schedule (b # bs) s = Option.bind (xfr_schedule bs s) (\<lambda>t. if b then writer (wpc t) t else reader (rpc t) t)"

lemma xfr_schedule_run: "xfr_schedule bs s = Some t \<Longrightarrow> run_of xfr_step xfr_env (length bs) 0 s t"
  by (induction bs arbitrary: t)
    (auto simp: Option.bind_eq_Some_conv intro: run_of.intros xfr_step.intros split: if_splits)


definition xfr_demo :: "bool list" where
  "xfr_demo = rev ([True, True, True, True, False, False, True, True, True, True, False, False, False, False, True, True, True,
     True, False, False, False, True, True])"

lemma xfr_demo_run:
  "xfr_schedule xfr_demo (xfr_start [Bytes ''hi''] []) =
     Some \<lparr>write_sem = 0, read_sem = 0, sems = False, shm = False, cnt = 0, sbuf = [], inp = [], out = ''hi'', out_ws = [],
       w_bytes = 2, w_xfrs = 1, r_bytes = 2, r_xfrs = 1, wpc = W_exit, rpc = R_exit\<rparr>"
  by (simp add: xfr_demo_def xfr_start_def sem_defs)


end
