(* ===== verification/Ns_Capable.thy ===== *)
theory Ns_Capable
  imports C_Stdio Get_Num
begin

text \<open>
  Capabilities of a process in a namespace: \<^verbatim>\<open>namespaces/ns_capable.c\<close>.  User namespaces form a tree
  whose nodes know their owner and their parent; a namespace of another type is owned by a
  user namespace.  The program sees them through descriptors.  What the kernel calls answer
  is a parameter.  The lemmas show that the walk over the ancestors ends, keeps the number of open
  descriptors constant, and that the report follows the rule of the kernel.
\<close>

abbreviation (input) EPERM :: int where "EPERM \<equiv> 1"
abbreviation (input) EBADF :: int where "EBADF \<equiv> 9"
abbreviation (input) CLONE_NEWUSER :: int where "CLONE_NEWUSER \<equiv> 0x10000000"

section \<open>Namespaces and descriptors\<close>

datatype userns = UserNs (ns_id: "nat \<times> nat") (ns_owner: "32 word") (ns_parent: "userns option")

datatype nsfile = User userns | Owned int "nat \<times> nat" userns

fun nsfile_id :: "nsfile \<Rightarrow> nat \<times> nat" where
  "nsfile_id (User u) = ns_id u"
| "nsfile_id (Owned t i u) = i"

datatype ns_request = NS_GET_USERNS | NS_GET_PARENT | NS_GET_NSTYPE | NS_GET_OWNER_UID

record ns_kernel =
  k_open :: "string \<Rightarrow> int + nsfile"
  k_ioctl :: "ns_request \<Rightarrow> nsfile \<Rightarrow> int option"   \<comment> \<open>the error of a request that fails\<close>
  k_fstat :: "nsfile \<Rightarrow> int option"
  k_fopen :: "string \<Rightarrow> int + string"              \<comment> \<open>the contents of a text file\<close>
  k_cap_get_pid :: "int \<Rightarrow> int option"
  k_cap_to_text :: "int \<Rightarrow> int + string"
  k_strerror :: "int \<Rightarrow> string"
  k_junk :: "32 word"                             \<comment> \<open>an uninitialised variable\<close>

record nsc =
  fd_table :: "nsfile option list"
  nsc_out :: string
  nsc_err :: string

definition ns_of :: "nat \<Rightarrow> nsc \<Rightarrow> nsfile option" where
  "ns_of fd s = (if fd < length (fd_table s) then fd_table s ! fd else None)"

definition new_fd :: "nsfile \<Rightarrow> nsc \<Rightarrow> nat \<times> nsc" where
  "new_fd f s =
     (case find_index (\<lambda>x. x = None) (fd_table s) of
        Some j \<Rightarrow> (j, s\<lparr>fd_table := (fd_table s)[j := Some f]\<rparr>)
      | None \<Rightarrow> (length (fd_table s), s\<lparr>fd_table := fd_table s @ [Some f]\<rparr>))"

definition close_fd :: "nat \<Rightarrow> nsc \<Rightarrow> nsc" where
  "close_fd fd s = s\<lparr>fd_table := (fd_table s)[fd := None]\<rparr>"

definition ns_print :: "string \<Rightarrow> nsc \<Rightarrow> nsc" where
  "ns_print msg s = s\<lparr>nsc_out := nsc_out s @ msg\<rparr>"

definition ns_eprint :: "string \<Rightarrow> nsc \<Rightarrow> nsc" where
  "ns_eprint msg s = s\<lparr>nsc_err := nsc_err s @ msg\<rparr>"

definition ns_errExit :: "ns_kernel \<Rightarrow> string \<Rightarrow> int \<Rightarrow> nsc \<Rightarrow> (nsc, 'a) run" where
  "ns_errExit K msg e s = Halt (Exit EXIT_FAILURE) (ns_eprint (msg @ '': '' @ k_strerror K e @ nl) s)"

text \<open>The requests, on the namespace behind a descriptor.\<close>

definition ns_ioctl :: "ns_kernel \<Rightarrow> ns_request \<Rightarrow> (nsfile \<Rightarrow> int + 'a) \<Rightarrow> nat \<Rightarrow> nsc \<Rightarrow> int + 'a" where
  "ns_ioctl K req answer fd s =
     (case ns_of fd s of
        None \<Rightarrow> Inl EBADF
      | Some f \<Rightarrow> (case k_ioctl K req f of Some e \<Rightarrow> Inl e | None \<Rightarrow> answer f))"

fun get_nstype :: "nsfile \<Rightarrow> int + int" where
  "get_nstype (User u) = Inr CLONE_NEWUSER"
| "get_nstype (Owned t i u) = Inr t"

fun get_parent :: "nsfile \<Rightarrow> int + nsfile" where
  "get_parent (User u) = (case ns_parent u of None \<Rightarrow> Inl EPERM | Some p \<Rightarrow> Inr (User p))"
| "get_parent (Owned t i u) = Inl EINVAL"

fun get_userns :: "nsfile \<Rightarrow> int + nsfile" where
  "get_userns (User u) = get_parent (User u)"
| "get_userns (Owned t i u) = Inr (User u)"

fun get_owner_uid :: "nsfile \<Rightarrow> int + 32 word" where
  "get_owner_uid (User u) = Inr (ns_owner u)"
| "get_owner_uid (Owned t i u) = Inl EINVAL"

section \<open>The functions of the program\<close>

definition display_process_capabilities :: "ns_kernel \<Rightarrow> int \<Rightarrow> nsc \<Rightarrow> (nsc, unit) run" where
  "display_process_capabilities K pid s =
     (case k_cap_get_pid K pid of
        Some e \<Rightarrow> ns_errExit K ''cap_get_proc'' e s
      | None \<Rightarrow>
          (case k_cap_to_text K pid of
             Inl e \<Rightarrow> ns_errExit K ''cap_to_text'' e s
           | Inr t \<Rightarrow> Done () (ns_print (''Capabilities: '' @ t @ nl) s)))"

text \<open>\<^verbatim>\<open>sscanf(line, "Uid: %*d %d %*d %*d", &uid)\<close>\<close>

definition scan_euid :: "string \<Rightarrow> int option" where
  "scan_euid line =
     (case scan_d (drop 4 line) of
        None \<Rightarrow> None
      | Some (_, r) \<Rightarrow> map_option fst (scan_d r))"

function find_uid :: "string \<Rightarrow> int option option" where
  "find_uid text =
     (case fgets 1024 text of
        None \<Rightarrow> None
      | Some (line, rest) \<Rightarrow> if prefix ''Uid:'' line then Some (scan_euid line) else find_uid rest)"
  by pat_completeness auto
termination
  by (relation "measure length") (auto intro: fgets_shorter)

declare find_uid.simps [simp del]

definition euid_of_process :: "ns_kernel \<Rightarrow> int \<Rightarrow> nsc \<Rightarrow> (nsc, 32 word) run" where
  "euid_of_process K pid s =
     (let path = ''/proc/'' @ decimal_int pid @ ''/status''
      in case k_fopen K path of
           Inl e \<Rightarrow> ns_errExit K ''fopen-/proc/PID/status'' e s
         | Inr text \<Rightarrow>
             (case find_uid text of
                None \<Rightarrow> Halt (Exit EXIT_FAILURE) (ns_eprint (''Failure scanning '' @ path @ nl) s)
              | Some uid \<Rightarrow> Done (case uid of None \<Rightarrow> k_junk K | Some u \<Rightarrow> word_of_int u) s))"

definition fstat_id :: "ns_kernel \<Rightarrow> nat \<Rightarrow> nsc \<Rightarrow> int + (nat \<times> nat)" where
  "fstat_id K fd s =
     (case ns_of fd s of
        None \<Rightarrow> Inl EBADF
      | Some f \<Rightarrow> (case k_fstat K f of Some e \<Rightarrow> Inl e | None \<Rightarrow> Inr (nsfile_id f)))"

definition ns_equal :: "ns_kernel \<Rightarrow> nat \<Rightarrow> nat \<Rightarrow> nsc \<Rightarrow> (nsc, bool) run" where
  "ns_equal K nsfd1 nsfd2 s =
     (case fstat_id K nsfd1 s of
        Inl e \<Rightarrow> ns_errExit K ''fstat-nsfd1'' e s
      | Inr sb1 \<Rightarrow>
          (case fstat_id K nsfd2 s of
             Inl e \<Rightarrow> ns_errExit K ''fstat-nsfd2'' e s
           | Inr sb2 \<Rightarrow> Done (sb1 = sb2) s))"

definition ns_type :: "ns_kernel \<Rightarrow> nat \<Rightarrow> nsc \<Rightarrow> (nsc, int) run" where
  "ns_type K ns_fd s =
     (case ns_ioctl K NS_GET_NSTYPE get_nstype ns_fd s of
        Inl e \<Rightarrow> ns_errExit K ''ioctl-NS_GET_NSTYPE'' e s
      | Inr t \<Rightarrow> Done t s)"

definition owning_userns_of :: "ns_kernel \<Rightarrow> nat \<Rightarrow> nsc \<Rightarrow> (nsc, nat) run" where
  "owning_userns_of K ns_fd s =
     (case ns_ioctl K NS_GET_USERNS get_userns ns_fd s of
        Inl e \<Rightarrow> ns_errExit K ''ioctl-NS_GET_USERNS'' e s
      | Inr f \<Rightarrow> (case new_fd f s of (fd, s) \<Rightarrow> Done fd s))"

definition uid_of_userns_owner :: "ns_kernel \<Rightarrow> nat \<Rightarrow> nsc \<Rightarrow> (nsc, 32 word) run" where
  "uid_of_userns_owner K userns_fd s =
     (case ns_ioctl K NS_GET_OWNER_UID get_owner_uid userns_fd s of
        Inl e \<Rightarrow> ns_errExit K ''ioctl-NS_GET_OWNER_UID'' e s
      | Inr u \<Rightarrow> Done u s)"

fun depth :: "userns \<Rightarrow> nat" where
  "depth (UserNs i ow None) = 0"
| "depth (UserNs i ow (Some p)) = Suc (depth p)"

fun fd_depth :: "nsfile option \<Rightarrow> nat" where
  "fd_depth (Some (User u)) = depth u"
| "fd_depth _ = 0"

lemma new_fd_spec:
  assumes "new_fd f s = (fd, t)"
  shows "ns_of fd t = Some f" "ns_of fd s = None" "fd' \<noteq> fd \<Longrightarrow> ns_of fd' t = ns_of fd' s"
    "nsc_out t = nsc_out s" "nsc_err t = nsc_err s"
  using assms
  by (auto simp: new_fd_def ns_of_def nth_append nth_list_update split: option.splits dest: find_index_Some)

lemma close_fd_spec:
  "ns_of fd' (close_fd fd s) = (if fd' = fd then None else ns_of fd' s)"
  "nsc_out (close_fd fd s) = nsc_out s" "nsc_err (close_fd fd s) = nsc_err s"
  by (auto simp: close_fd_def ns_of_def nth_list_update)

lemma ns_equal_state: "ns_equal K a b s = Done e t \<Longrightarrow> t = s"
  by (auto simp: ns_equal_def ns_errExit_def split: sum.splits)

lemma get_parent_depth: "get_parent f = Inr p \<Longrightarrow> fd_depth (Some p) < fd_depth (Some f)"
proof (cases f)
  case (User u)
  then show "get_parent f = Inr p \<Longrightarrow> ?thesis" by (cases u) (auto split: option.splits)
qed simp

lemma ns_ioctl_Inr: "ns_ioctl K req g fd s = Inr a \<Longrightarrow> \<exists>f. ns_of fd s = Some f \<and> g f = Inr a"
  by (auto simp: ns_ioctl_def split: option.splits)

lemma search_step:
  assumes "ns_ioctl K NS_GET_PARENT get_parent d s = Inr p" "new_fd p s = (fd, t)" "ns_equal K fd pf t = Done e u"
  shows "fd_depth (ns_of fd (close_fd d u)) < fd_depth (ns_of d s)"
proof -
  from ns_ioctl_Inr [OF assms(1)] obtain f where f: "ns_of d s = Some f" "get_parent f = Inr p" by blast
  have "fd \<noteq> d" using new_fd_spec(2) [OF assms(2)] f(1) by auto
  then have "ns_of fd (close_fd d u) = Some p"
    using ns_equal_state [OF assms(3)] new_fd_spec(1) [OF assms(2)] by (simp add: close_fd_spec)
  with f get_parent_depth show ?thesis by simp
qed

text \<open>\<open>None\<close> stands for the result -1.\<close>

function search_ancestors :: "ns_kernel \<Rightarrow> nat \<Rightarrow> nat \<Rightarrow> nsc \<Rightarrow> (nsc, nat option) run" where
  "search_ancestors K desc_userns_fd pid_userns_fd s =
     (case ns_ioctl K NS_GET_PARENT get_parent desc_userns_fd s of
        Inl e \<Rightarrow> if e \<noteq> EPERM then ns_errExit K ''ioctl-NS_GET_PARENT'' e s else Done None s
      | Inr p \<Rightarrow>
          (case new_fd p s of (parent_userns_fd, s) \<Rightarrow>
           (case ns_equal K parent_userns_fd pid_userns_fd s of
              Halt h s \<Rightarrow> Halt h s
            | Done eq s \<Rightarrow>
                if eq then Done (Some desc_userns_fd) (close_fd parent_userns_fd s)
                else search_ancestors K parent_userns_fd pid_userns_fd (close_fd desc_userns_fd s))))"
  by pat_completeness auto
termination
  by (relation "measure (\<lambda>(K, d, p, s). fd_depth (ns_of d s))") (auto dest: search_step [OF _ sym])

declare search_ancestors.simps [simp del]

text \<open>The answer for a process in an ancestor of the target namespace.\<close>

definition report_ancestor :: "ns_kernel \<Rightarrow> string \<Rightarrow> int \<Rightarrow> nat \<Rightarrow> nsc \<Rightarrow> (nsc, unit) run" where
  "report_ancestor K pid_str pid desc_userns_fd s =
     (let s = ns_print (''PID '' @ pid_str @ '' is in an ancestor namespace'' @ nl) s in
      andThen (uid_of_userns_owner K desc_userns_fd s) (\<lambda>owner s.
      andThen (euid_of_process K pid s) (\<lambda>euid s.
      andThen
        (if owner = euid then
           Done () (ns_print (''Subject to LSM checks, it has all capabilities in that namespace!'' @ nl)
             (ns_print (''And its effective UID matches the owner of the immediate child user namespace'' @ nl @
                ''of that namespace'' @ nl) s))
         else
           display_process_capabilities K pid
             (ns_print (''Subject to LSM checks, it has the following capabilities'' @ nl)
               (ns_print (''But its effective UID does not match the owner of the immediate child user namespace'' @ nl @
                  ''of that namespace'' @ nl) s)))
        (\<lambda>_ s. Halt (Exit EXIT_SUCCESS) (close_fd desc_userns_fd s)))))"

definition target_userns :: "ns_kernel \<Rightarrow> nat \<Rightarrow> nsc \<Rightarrow> (nsc, nat) run" where
  "target_userns K ns_fd s =
     andThen (ns_type K ns_fd s) (\<lambda>t s.
       if t = CLONE_NEWUSER then Done ns_fd s
       else andThen (owning_userns_of K ns_fd s) (\<lambda>fd s. Done fd (close_fd ns_fd s)))"

definition ns_capable_main :: "ns_kernel \<Rightarrow> string list \<Rightarrow> nsc \<Rightarrow> (nsc, unit) run" where
  "ns_capable_main K argv s =
     (if length argv \<noteq> 3 then
        Halt (Exit EXIT_FAILURE) (ns_eprint ([CHR 0x09, CHR 0x27] @ ''ns-file'' @ [CHR 0x27] @ '' is a /proc/PID/ns/xxxx file'' @ nl)
          (ns_eprint (''Usage: '' @ hd argv @ '' PID ns-file'' @ nl) s))
      else
        let pid_str = argv ! 1; pid = atoi pid_str in
        case k_open K (argv ! 2) of
          Inl e \<Rightarrow> ns_errExit K ''open-ns-file'' e s
        | Inr f \<Rightarrow>
            (case new_fd f s of (ns_fd, s) \<Rightarrow>
             andThen (target_userns K ns_fd s) (\<lambda>target_userns_fd s.
               case k_open K (snprintf_str PATH_MAX (''/proc/'' @ pid_str @ ''/ns/user'')) of
                 Inl e \<Rightarrow> ns_errExit K ''open-PID'' e s
               | Inr f \<Rightarrow>
                   (case new_fd f s of (pid_userns_fd, s) \<Rightarrow>
                    andThen (ns_equal K pid_userns_fd target_userns_fd s) (\<lambda>eq s.
                      if eq then
                        andThen (display_process_capabilities K pid
                            (ns_print (''Subject to LSM checks, it has the following capabilities'' @ nl)
                              (ns_print (''PID '' @ pid_str @ '' is in the target namespace'' @ nl) s)))
                          (\<lambda>_ s. Halt (Exit EXIT_SUCCESS) s)
                      else
                        andThen (search_ancestors K target_userns_fd pid_userns_fd s) (\<lambda>d s.
                          case d of
                            None \<Rightarrow>
                              Halt (Exit EXIT_SUCCESS) (ns_print (''It has no capabilities in the target namespace'' @ nl)
                                (ns_print (''PID '' @ pid_str @ '' is not in an ancestor namespace'' @ nl) s))
                          | Some desc_userns_fd \<Rightarrow> report_ancestor K pid_str pid desc_userns_fd s))))))"

section \<open>Descriptors\<close>

definition open_fds :: "nsc \<Rightarrow> nat" where
  "open_fds s = length (filter (\<lambda>x. x \<noteq> None) (fd_table s))"

lemma count_update:
  "i < length xs \<Longrightarrow> length (filter P (xs[i := y])) + of_bool (P (xs ! i)) = length (filter P xs) + of_bool (P y)"
proof (induction xs arbitrary: i)
  case (Cons x xs)
  then show ?case using Cons.IH [of "i - 1"] by (cases i) auto
qed simp

lemma open_fds_new:
  assumes "new_fd f s = (fd, t)"
  shows "open_fds t = Suc (open_fds s)"
proof (cases "find_index (\<lambda>x. x = None) (fd_table s)")
  case (Some j)
  with find_index_Some [OF Some] count_update [of j "fd_table s" "\<lambda>x. x \<noteq> None" "Some f"] assms
  show ?thesis by (auto simp: new_fd_def open_fds_def)
qed (use assms in \<open>auto simp: new_fd_def open_fds_def\<close>)

lemma open_fds_close: "ns_of fd s \<noteq> None \<Longrightarrow> open_fds s = Suc (open_fds (close_fd fd s))"
  using count_update [of fd "fd_table s" "\<lambda>x. x \<noteq> None" None]
  by (auto simp: ns_of_def close_fd_def open_fds_def split: if_splits)

lemma ns_print_simps [simp]:
  "ns_of fd (ns_print m s) = ns_of fd s" "open_fds (ns_print m s) = open_fds s" "nsc_out (ns_print m s) = nsc_out s @ m"
  "nsc_err (ns_print m s) = nsc_err s"
  by (simp_all add: ns_print_def ns_of_def open_fds_def)

section \<open>The walk over the ancestors\<close>

fun chain :: "userns \<Rightarrow> userns list" where
  "chain (UserNs i ow None) = [UserNs i ow None]"
| "chain (UserNs i ow (Some p)) = UserNs i ow (Some p) # chain p"

text \<open>The child of \<open>p\<close> on the way from \<open>t\<close> to its ancestor \<open>p\<close>.\<close>

fun child_towards :: "userns \<Rightarrow> userns \<Rightarrow> userns option" where
  "child_towards p (UserNs i ow None) = None"
| "child_towards p (UserNs i ow (Some q)) = (if q = p then Some (UserNs i ow (Some q)) else child_towards p q)"

definition kernel_works :: "ns_kernel \<Rightarrow> bool" where
  "kernel_works K \<longleftrightarrow> (\<forall>req f. k_ioctl K req f = None) \<and> (\<forall>f. k_fstat K f = None)"

lemma ns_equal_works:
  "kernel_works K \<Longrightarrow> ns_of a s = Some f \<Longrightarrow> ns_of b s = Some g \<Longrightarrow> ns_equal K a b s = Done (nsfile_id f = nsfile_id g) s"
  by (simp add: ns_equal_def fstat_id_def kernel_works_def)

lemma search_ancestors_correct:
  assumes "kernel_works K" "ns_of d s = Some (User t)" "ns_of pf s = Some (User p)" "d \<noteq> pf"
    and "\<And>q. q \<in> set (chain t) \<Longrightarrow> ns_id q = ns_id p \<Longrightarrow> q = p"
  shows "\<exists>r u. search_ancestors K d pf s = Done r u \<and> nsc_out u = nsc_out s \<and> nsc_err u = nsc_err s \<and>
    open_fds u = open_fds s \<and>
    (case child_towards p t of None \<Rightarrow> r = None | Some c \<Rightarrow> \<exists>d'. r = Some d' \<and> ns_of d' u = Some (User c))"
  using assms(2-)
proof (induction p t arbitrary: d s rule: child_towards.induct)
  case (1 p i ow)
  then show ?case
    using assms(1) by (subst search_ancestors.simps) (simp add: ns_ioctl_def kernel_works_def)
next
  case (2 p i ow q)
  let ?t = "UserNs i ow (Some q)"
  obtain fd s1 where n: "new_fd (User q) s = (fd, s1)" by fastforce
  note ns = new_fd_spec [OF n]
  have fd: "fd \<noteq> d" "fd \<noteq> pf" using ns(2) "2.prems" by auto
  have pf: "ns_of pf s1 = Some (User p)" using fd ns(3) "2.prems" by auto
  have "q \<in> set (chain q)" by (cases q rule: chain.cases) auto
  then have "q \<in> set (chain ?t)" by simp
  then have eq: "ns_id q = ns_id p \<longleftrightarrow> q = p" using "2.prems"(4) by blast
  have run: "search_ancestors K d pf s =
      (if q = p then Done (Some d) (close_fd fd s1) else search_ancestors K fd pf (close_fd d s1))"
    by (subst search_ancestors.simps)
      (use "2.prems" assms(1) in \<open>simp add: ns_ioctl_def kernel_works_def n ns_equal_works [OF assms(1) ns(1) pf] eq\<close>)
  show ?case
  proof (cases "q = p")
    case True
    have "open_fds s1 = Suc (open_fds (close_fd fd s1))" by (rule open_fds_close) (simp add: ns(1))
    with True run ns fd "2.prems" show ?thesis
      by (simp add: close_fd_spec open_fds_new [OF n])
  next
    case False
    have "open_fds s1 = Suc (open_fds (close_fd d s1))"
      by (rule open_fds_close) (use fd ns(3) "2.prems"(1) in auto)
    then have o: "open_fds (close_fd d s1) = open_fds s" by (simp add: open_fds_new [OF n])
    have "\<exists>r u. search_ancestors K fd pf (close_fd d s1) = Done r u \<and> nsc_out u = nsc_out (close_fd d s1) \<and>
      nsc_err u = nsc_err (close_fd d s1) \<and> open_fds u = open_fds (close_fd d s1) \<and>
      (case child_towards p q of None \<Rightarrow> r = None | Some c \<Rightarrow> \<exists>d'. r = Some d' \<and> ns_of d' u = Some (User c))"
      by (rule "2.IH" [OF False]) (use fd ns pf "2.prems" in \<open>auto simp: close_fd_spec\<close>)
    with False run o ns show ?thesis by (simp add: close_fd_spec)
  qed
qed

section \<open>The effective user ID\<close>

abbreviation (input) tab :: char where "tab \<equiv> CHR 0x09"

text \<open>The user IDs in the status file of a process, after other lines.\<close>

definition status_text :: "string list \<Rightarrow> 32 word \<Rightarrow> 32 word \<Rightarrow> string \<Rightarrow> string" where
  "status_text before ruid euid after =
     concat (map (\<lambda>l. l @ [newline]) before) @ ''Uid:'' @ tab # decimal (unat ruid) @ tab # decimal (unat euid) @ tab # after"

definition status_ok :: "string list \<Rightarrow> bool" where
  "status_ok before \<longleftrightarrow> list_all (\<lambda>l. newline \<notin> set l \<and> length l \<le> 1022 \<and> \<not> prefix ''Uid:'' l) before"

lemma word_mod: "(word_of_int (x mod 2 ^ 32) :: 32 word) = word_of_int x"
proof -
  have "word_of_int (take_bit 32 x) = (word_of_int x :: 32 word)" by (rule bit_word_eqI) (simp add: bit_simps)
  then show ?thesis by (simp only: take_bit_eq_mod)
qed

lemma word_of_int_of_long: "(word_of_int (int_of_long v) :: 32 word) = word_of_int v"
proof -
  have "(word_of_int (int_of_long v) :: 32 word) = word_of_int ((v + 2 ^ 31) mod 2 ^ 32) - word_of_int (2 ^ 31)"
    unfolding int_of_long_def by (rule wi_hom_sub [symmetric])
  also have "\<dots> = word_of_int (v + 2 ^ 31) - word_of_int (2 ^ 31)" by (simp only: word_mod)
  finally show ?thesis by (simp add: wi_hom_sub)
qed

lemma unat_32: "int (unat (u :: 32 word)) \<le> LONG_MAX" "unat u < 10 ^ Suc 9"
proof -
  have l: "unat u < 4294967296" using unsigned_less [where 'a = nat, of u] by simp
  then have "int (unat u) < int 4294967296" by (simp only: of_nat_less_iff)
  then show "int (unat u) \<le> LONG_MAX" by (simp add: LONG_MAX_def del: of_nat_unat)
  show "unat u < 10 ^ Suc 9" using l by simp
qed

lemma scan_uid:
  fixes u :: "32 word"
  shows "scan_d (tab # decimal (unat u) @ tab # rest) = Some (int_of_long (int (unat u)), tab # rest)"
proof -
  have "list_all isspace [tab]" "\<not> is_digit 10 tab" by (simp_all add: isspace_def is_digit_def digit_val_def)
  with scan_lld_decimal [of "[tab]" "tab # rest" "unat u"] unat_32(1) show ?thesis by (simp add: scan_d_def)
qed

lemma decimal_no_newline: "newline \<notin> set (decimal n)"
proof -
  have "\<not> is_digit 10 newline" by (simp add: is_digit_def digit_val_def)
  with decimal_digits [of n] show ?thesis by (auto simp: list_all_iff)
qed

lemma first_line_append: "newline \<notin> set a \<Longrightarrow> first_line (a @ b) = a @ first_line b"
  by (induction a) auto

lemma find_uid_status:
  assumes "status_ok before"
  shows "\<exists>v. find_uid (status_text before ruid euid after) = Some (Some v) \<and> (word_of_int v :: 32 word) = euid"
  using assms
proof (induction before)
  case Nil
  define pre where "pre = ''Uid:'' @ tab # decimal (unat ruid) @ tab # decimal (unat euid) @ [tab]"
  have len: "length pre \<le> 1023"
    using decimal_length [OF unat_32(2) [of ruid]] decimal_length [OF unat_32(2) [of euid]] by (simp add: pre_def)
  have fl: "first_line (pre @ after) = pre @ first_line after"
    by (rule first_line_append) (simp add: pre_def decimal_no_newline)
  have ne: "pre \<noteq> []" by (simp add: pre_def)
  define x where "x = take (1023 - length pre) (first_line after)"
  have f: "fgets 1024 (pre @ after) = Some (pre @ x, drop (length x) after)"
    using len ne by (simp add: fgets_def fl Let_def x_def min_def)
  have sc: "scan_euid (pre @ x) = Some (int_of_long (int (unat euid)))" "prefix ''Uid:'' (pre @ x)"
    unfolding pre_def by (simp_all add: scan_euid_def scan_uid del: of_nat_unat)
  have "find_uid (pre @ after) = Some (Some (int_of_long (int (unat euid))))"
    unfolding find_uid.simps [of "pre @ after"] f option.case prod.case using sc by simp
  then show ?case by (simp add: status_text_def word_of_int_of_long pre_def)
next
  case (Cons l before)
  then have l: "newline \<notin> set l" "length l + 2 \<le> 1024" "\<not> prefix ''Uid:'' l" and ok: "status_ok before"
    by (simp_all add: status_ok_def)
  have "\<not> prefix ''Uid:'' (l @ [newline])" using l(3) by (auto simp: prefix_snoc)
  then have "find_uid (status_text (l # before) ruid euid after) = find_uid (status_text before ruid euid after)"
    using fgets_line [OF l(1,2), of "status_text before ruid euid after"]
    by (subst find_uid.simps) (simp add: status_text_def)
  with Cons.IH [OF ok] show ?case by simp
qed

section \<open>The rule\<close>

text \<open>
  The relation of a process to a user namespace that decides about its capabilities there: it is
  in the namespace, in no ancestor of it, or in an ancestor, as the owner of the child of
  that ancestor or not.
\<close>

datatype standing = Member | Outsider | Owner | Ancestor

definition standing_of :: "32 word \<Rightarrow> userns \<Rightarrow> userns \<Rightarrow> standing" where
  "standing_of euid p t =
     (if p = t then Member
      else case child_towards p t of
             None \<Rightarrow> Outsider
           | Some c \<Rightarrow> if ns_owner c = euid then Owner else Ancestor)"

fun standing_text :: "string \<Rightarrow> string \<Rightarrow> standing \<Rightarrow> string" where
  "standing_text pid caps Member =
     ''PID '' @ pid @ '' is in the target namespace'' @ nl @ ''Subject to LSM checks, it has the following capabilities'' @ nl @
     ''Capabilities: '' @ caps @ nl"
| "standing_text pid caps Outsider =
     ''PID '' @ pid @ '' is not in an ancestor namespace'' @ nl @ ''It has no capabilities in the target namespace'' @ nl"
| "standing_text pid caps Owner =
     ''PID '' @ pid @ '' is in an ancestor namespace'' @ nl @
     ''And its effective UID matches the owner of the immediate child user namespace'' @ nl @ ''of that namespace'' @ nl @
     ''Subject to LSM checks, it has all capabilities in that namespace!'' @ nl"
| "standing_text pid caps Ancestor =
     ''PID '' @ pid @ '' is in an ancestor namespace'' @ nl @
     ''But its effective UID does not match the owner of the immediate child user namespace'' @ nl @ ''of that namespace'' @ nl @
     ''Subject to LSM checks, it has the following capabilities'' @ nl @ ''Capabilities: '' @ caps @ nl"

text \<open>The user namespace that governs a namespace.\<close>

fun governing :: "nsfile \<Rightarrow> userns" where
  "governing (User u) = u"
| "governing (Owned t i u) = u"

fun proper_type :: "nsfile \<Rightarrow> bool" where
  "proper_type (User u) = True"
| "proper_type (Owned t i u) = (t \<noteq> CLONE_NEWUSER)"

lemma target_userns_works:
  assumes "kernel_works K" "ns_of fd s = Some f" "proper_type f"
  shows "\<exists>fd' t. target_userns K fd s = Done fd' t \<and> ns_of fd' t = Some (User (governing f)) \<and> open_fds t = open_fds s \<and>
    nsc_out t = nsc_out s \<and> nsc_err t = nsc_err s"
proof (cases f)
  case (User u)
  then show ?thesis using assms
    by (simp add: target_userns_def ns_type_def ns_ioctl_def kernel_works_def)
next
  case (Owned ty i u)
  obtain fd' t where n: "new_fd (User u) s = (fd', t)" by fastforce
  note ns = new_fd_spec [OF n]
  have fd: "fd' \<noteq> fd" using ns(2) assms(2) by auto
  have "open_fds t = Suc (open_fds (close_fd fd t))"
    by (rule open_fds_close) (use fd ns(3) assms(2) in auto)
  then show ?thesis using assms Owned n ns fd open_fds_new [OF n]
    by (simp add: target_userns_def ns_type_def owning_userns_of_def ns_ioctl_def kernel_works_def close_fd_spec)
qed

lemma report_ancestor_works:
  assumes "kernel_works K" "ns_of d s = Some (User c)"
    and "k_fopen K (''/proc/'' @ decimal_int pid @ ''/status'') = Inr (status_text before ruid euid after)" "status_ok before"
    and "k_cap_get_pid K pid = None" "k_cap_to_text K pid = Inr caps"
  shows "\<exists>u. report_ancestor K pid_str pid d s = Halt (Exit EXIT_SUCCESS) u \<and>
    nsc_out u = nsc_out s @ standing_text pid_str caps (if ns_owner c = euid then Owner else Ancestor) \<and>
    nsc_err u = nsc_err s \<and> Suc (open_fds u) = open_fds s"
proof -
  obtain v where v: "find_uid (status_text before ruid euid after) = Some (Some v)" "(word_of_int v :: 32 word) = euid"
    using find_uid_status [OF assms(4)] by blast
  have o: "Suc (open_fds (close_fd d u)) = open_fds u" if "ns_of d u = Some (User c)" for u
    using open_fds_close [of d u] that by simp
  have "euid_of_process K pid t = Done euid t" for t
    using assms(3) v by (simp add: euid_of_process_def Let_def)
  moreover have "uid_of_userns_owner K d (ns_print m s) = Done (ns_owner c) (ns_print m s)" for m
    using assms(1,2) by (simp add: uid_of_userns_owner_def ns_ioctl_def kernel_works_def)
  ultimately show ?thesis
    using assms(2,5,6) by (simp add: report_ancestor_def Let_def display_process_capabilities_def close_fd_spec o)
qed

text \<open>C25: ns_capable.c answers by the rule of the kernel. If its calls succeed and device and inode numbers identify
  namespaces, then for every tree of user namespaces, every target namespace of any type and every process the
  report is the one for the standing of the process in the user namespace that governs the target: a member has its own
  capabilities, the owner of the child towards the target in an ancestor has all, another process in an ancestor has its own,
  and every other process none. The walk ends, and at most two descriptors stay open however deep the tree is.\<close>
theorem ns_capable_rule:
  assumes "kernel_works K" "length argv = 3" "k_open K (argv ! 2) = Inr f" "proper_type f"
    and "k_open K (snprintf_str PATH_MAX (''/proc/'' @ argv ! 1 @ ''/ns/user'')) = Inr (User p)"
    and "\<And>q. q \<in> set (chain (governing f)) \<Longrightarrow> ns_id q = ns_id p \<Longrightarrow> q = p"
    and "k_fopen K (''/proc/'' @ decimal_int (atoi (argv ! 1)) @ ''/status'') = Inr (status_text before ruid euid after)"
    and "status_ok before" "k_cap_get_pid K (atoi (argv ! 1)) = None" "k_cap_to_text K (atoi (argv ! 1)) = Inr caps"
  shows "\<exists>u. ns_capable_main K argv s = Halt (Exit EXIT_SUCCESS) u \<and>
    nsc_out u = nsc_out s @ standing_text (argv ! 1) caps (standing_of euid p (governing f)) \<and>
    nsc_err u = nsc_err s \<and> open_fds u \<le> open_fds s + 2"
proof -
  let ?t = "governing f"
  obtain fd s1 where n1: "new_fd f s = (fd, s1)" by fastforce
  obtain tf s2 where t: "target_userns K fd s1 = Done tf s2" "ns_of tf s2 = Some (User ?t)" "open_fds s2 = open_fds s1"
    "nsc_out s2 = nsc_out s1" "nsc_err s2 = nsc_err s1"
    using target_userns_works [OF assms(1) new_fd_spec(1) [OF n1] assms(4)] by blast
  obtain pf s3 where n2: "new_fd (User p) s2 = (pf, s3)" by fastforce
  note ns1 = new_fd_spec [OF n1] and ns2 = new_fd_spec [OF n2]
  have d: "tf \<noteq> pf" using ns2(2) t(2) by auto
  have tf: "ns_of tf s3 = Some (User ?t)" using ns2(3) d t(2) by auto
  have o: "open_fds s3 = open_fds s + 2" using open_fds_new [OF n1] open_fds_new [OF n2] t(3) by simp
  have out: "nsc_out s3 = nsc_out s" "nsc_err s3 = nsc_err s" using ns1 ns2 t by auto
  have "?t \<in> set (chain ?t)" by (cases ?t rule: chain.cases) auto
  then have eq: "ns_id p = ns_id ?t \<longleftrightarrow> p = ?t" using assms(6) by metis
  have e: "ns_equal K pf tf s3 = Done (p = ?t) s3"
    using ns_equal_works [OF assms(1) ns2(1) tf] eq by simp
  obtain r s4 where sa: "search_ancestors K tf pf s3 = Done r s4" "nsc_out s4 = nsc_out s3" "nsc_err s4 = nsc_err s3"
    "open_fds s4 = open_fds s3"
    "case child_towards p ?t of None \<Rightarrow> r = None | Some c \<Rightarrow> \<exists>d'. r = Some d' \<and> ns_of d' s4 = Some (User c)"
    using search_ancestors_correct [OF assms(1) tf ns2(1) d assms(6)] by blast
  have main: "ns_capable_main K argv s =
    (if p = ?t then
       andThen (display_process_capabilities K (atoi (argv ! 1))
           (ns_print (''Subject to LSM checks, it has the following capabilities'' @ nl)
             (ns_print (''PID '' @ argv ! 1 @ '' is in the target namespace'' @ nl) s3)))
         (\<lambda>_ s. Halt (Exit EXIT_SUCCESS) s)
     else case r of
       None \<Rightarrow> Halt (Exit EXIT_SUCCESS) (ns_print (''It has no capabilities in the target namespace'' @ nl)
                 (ns_print (''PID '' @ argv ! 1 @ '' is not in an ancestor namespace'' @ nl) s4))
     | Some d \<Rightarrow> report_ancestor K (argv ! 1) (atoi (argv ! 1)) d s4)"
    using assms(2,3,5) n1 n2 t(1) e sa(1) by (simp add: ns_capable_main_def Let_def split: option.split)
  consider "p = ?t" | "p \<noteq> ?t" "child_towards p ?t = None" | c where "p \<noteq> ?t" "child_towards p ?t = Some c" by fastforce
  then show ?thesis
  proof cases
    case 1
    then show ?thesis unfolding main using assms(9,10) o out
      by (simp add: display_process_capabilities_def standing_of_def)
  next
    case 2
    then show ?thesis unfolding main using sa o out by (simp add: standing_of_def)
  next
    case 3
    then obtain d' where d': "r = Some d'" "ns_of d' s4 = Some (User c)" using sa(5) by auto
    from report_ancestor_works [OF assms(1) d'(2) assms(7-10)] 3 d'(1) sa o out
    show ?thesis unfolding main by (fastforce simp: standing_of_def)
  qed
qed

text \<open>
  A parent that the kernel does not show (it is outside the scope of the caller, also
  reported as \<^verbatim>\<open>EPERM\<close>) is taken for the end of the chain: an ancestor is reported as none.
\<close>

lemma hidden_parent_reported_as_outsider:
  assumes "ns_of d s = Some f" "k_ioctl K NS_GET_PARENT f = Some EPERM"
  shows "search_ancestors K d pf s = Done None s"
  using assms by (subst search_ancestors.simps) (simp add: ns_ioctl_def)

definition ns_demo_child :: userns where
  "ns_demo_child = UserNs (4, 2) 1000 (Some (UserNs (4, 1) 0 None))"

definition ns_demo_kernel :: ns_kernel where
  "ns_demo_kernel =
     \<lparr>k_open = (\<lambda>path. Inr (if path = ''net'' then Owned 0x40000000 (4, 9) ns_demo_child else User (UserNs (4, 1) 0 None))),
      k_ioctl = \<lambda>_ _. None, k_fstat = \<lambda>_. None,
      k_fopen = (\<lambda>_. Inr (status_text [''Name: sh''] 1000 1000 ''1000'')), k_cap_get_pid = \<lambda>_. None,
      k_cap_to_text = \<lambda>_. Inr ''='', k_strerror = \<lambda>_. [], k_junk = 0\<rparr>"

theorem ns_capable_rule_witness:
  "\<exists>u. ns_capable_main ns_demo_kernel [''ns_capable'', ''7'', ''net''] \<lparr>fd_table = [], nsc_out = [], nsc_err = []\<rparr> =
      Halt (Exit EXIT_SUCCESS) u \<and> nsc_out u = standing_text ''7'' ''='' Owner \<and> open_fds u \<le> 2"
proof -
  let ?K = ns_demo_kernel and ?argv = "[''ns_capable'', ''7'', ''net'']" and ?f = "Owned 0x40000000 (4, 9) ns_demo_child"
  let ?p = "UserNs (4, 1) 0 None" and ?s = "\<lparr>fd_table = [], nsc_out = [], nsc_err = []\<rparr>"
  have st: "standing_of 1000 ?p (governing ?f) = Owner" "open_fds ?s = 0" "nsc_out ?s = []" "?argv ! 1 = ''7''"
    by (simp_all add: standing_of_def ns_demo_child_def open_fds_def)
  have "\<exists>u. ns_capable_main ?K ?argv ?s = Halt (Exit EXIT_SUCCESS) u \<and>
      nsc_out u = nsc_out ?s @ standing_text (?argv ! 1) ''='' (standing_of 1000 ?p (governing ?f)) \<and>
      nsc_err u = nsc_err ?s \<and> open_fds u \<le> open_fds ?s + 2"
    by (rule ns_capable_rule [where f = ?f and before = "[''Name: sh'']" and ruid = 1000 and after = "''1000''"])
      (auto simp: ns_demo_kernel_def ns_demo_child_def kernel_works_def status_ok_def snprintf_str_def)
  then show ?thesis unfolding st by (simp only: append_Nil add_0) blast
qed

end
