(* ===== verification/Thread_Incr.thy ===== *)
theory Thread_Incr
  imports Bounded_System Get_Num
begin

text \<open>
  Two threads that increment a global variable: \<^verbatim>\<open>threads/thread_incr.c\<close> without synchronisation, and
  the variants with a mutex, a spin lock, a read/write lock and a POSIX semaphore
  (\<^verbatim>\<open>thread_incr_mutex.c\<close>, \<^verbatim>\<open>thread_incr_spinlock.c\<close>, \<^verbatim>\<open>thread_incr_rwlock.c\<close>, \<^verbatim>\<open>psem/thread_incr_psem.c\<close>).  The
  programs differ in the operations around the increment, which are parameters of the common
  model; the locale \<open>lock\<close> states what the programs need of them.  Loading and storing the
  variable are separate steps.  The lemmas show that with every kind of lock no
  update is lost and the program ends, and without one nearly all updates can be lost.
\<close>

section \<open>The locks\<close>

definition mutex_lock :: "bool \<Rightarrow> bool option" where
  "mutex_lock m = (if m then None else Some True)"

definition mutex_unlock :: "bool \<Rightarrow> bool" where
  "mutex_unlock m = False"

text \<open>A spin lock is a word that holds one when it is taken.\<close>

definition spin_lock :: "nat \<Rightarrow> nat option" where
  "spin_lock w = (if w = 1 then None else Some 1)"

definition spin_unlock :: "nat \<Rightarrow> nat" where
  "spin_unlock w = 0"

datatype rwlock = Unlocked | Readers nat | Writer

definition rwlock_wrlock :: "rwlock \<Rightarrow> rwlock option" where
  "rwlock_wrlock l = (case l of Unlocked \<Rightarrow> Some Writer | _ \<Rightarrow> None)"

definition rwlock_unlock :: "rwlock \<Rightarrow> rwlock" where
  "rwlock_unlock l =
     (case l of Unlocked \<Rightarrow> Unlocked | Readers n \<Rightarrow> if n \<le> 1 then Unlocked else Readers (n - 1) | Writer \<Rightarrow> Unlocked)"

definition sem_wait :: "nat \<Rightarrow> nat option" where
  "sem_wait v = (if v = 0 then None else Some (v - 1))"

definition sem_post :: "nat \<Rightarrow> nat" where
  "sem_post v = v + 1"

section \<open>The programs\<close>

text \<open>
  The point a thread has reached in iteration \<open>j\<close> of its loop.  In \<open>Store j v\<close> the local variable has the
  value \<open>v\<close>.
\<close>

datatype tloc = Unborn | Acquire int | Load int | Store int int | Release int | Ended

datatype mloc = Create1 | Create2 | Join1 | Join2 | Print

record 'l incr =
  glob :: int
  lck :: 'l
  thr1 :: tloc
  thr2 :: tloc
  mainp :: mloc
  printed :: "int list"
  ended :: "halt option"

definition next_iter :: "int \<Rightarrow> int \<Rightarrow> tloc" where
  "next_iter loops j = (if j < loops then Acquire j else Ended)"

text \<open>
  \<^verbatim>\<open>threadFunc()\<close>: the next point with the variable and the lock, or \<open>None\<close> while the thread cannot move;
  an increment beyond the largest \<^verbatim>\<open>int\<close> is undefined.
\<close>

fun threadFunc ::
  "('l \<Rightarrow> 'l option) \<Rightarrow> ('l \<Rightarrow> 'l) \<Rightarrow> int \<Rightarrow> tloc \<Rightarrow> int \<Rightarrow> 'l \<Rightarrow> (halt + tloc \<times> int \<times> 'l) option" where
  "threadFunc acq rel loops (Acquire j) g l = map_option (\<lambda>l'. Inr (Load j, g, l')) (acq l)"
| "threadFunc acq rel loops (Load j) g l = Some (if g = INT_MAX then Inl Fault else Inr (Store j (g + 1), g, l))"
| "threadFunc acq rel loops (Store j v) g l = Some (Inr (Release j, v, l))"
| "threadFunc acq rel loops (Release j) g l = Some (Inr (next_iter loops (j + 1), g, rel l))"
| "threadFunc acq rel loops _ g l = None"

inductive incr_step :: "('l \<Rightarrow> 'l option) \<Rightarrow> ('l \<Rightarrow> 'l) \<Rightarrow> int \<Rightarrow> 'l incr \<Rightarrow> 'l incr \<Rightarrow> bool"
  for acq rel loops where
  step1: "ended s = None \<Longrightarrow> threadFunc acq rel loops (thr1 s) (glob s) (lck s) = Some (Inr (p, g, l)) \<Longrightarrow>
     incr_step acq rel loops s (s\<lparr>thr1 := p, glob := g, lck := l\<rparr>)"
| step2: "ended s = None \<Longrightarrow> threadFunc acq rel loops (thr2 s) (glob s) (lck s) = Some (Inr (p, g, l)) \<Longrightarrow>
     incr_step acq rel loops s (s\<lparr>thr2 := p, glob := g, lck := l\<rparr>)"
| fault1: "ended s = None \<Longrightarrow> threadFunc acq rel loops (thr1 s) (glob s) (lck s) = Some (Inl h) \<Longrightarrow>
     incr_step acq rel loops s (s\<lparr>ended := Some h\<rparr>)"
| fault2: "ended s = None \<Longrightarrow> threadFunc acq rel loops (thr2 s) (glob s) (lck s) = Some (Inl h) \<Longrightarrow>
     incr_step acq rel loops s (s\<lparr>ended := Some h\<rparr>)"
| create1: "ended s = None \<Longrightarrow> mainp s = Create1 \<Longrightarrow>
     incr_step acq rel loops s (s\<lparr>thr1 := next_iter loops 0, mainp := Create2\<rparr>)"
| create2: "ended s = None \<Longrightarrow> mainp s = Create2 \<Longrightarrow>
     incr_step acq rel loops s (s\<lparr>thr2 := next_iter loops 0, mainp := Join1\<rparr>)"
| create_fails: "ended s = None \<Longrightarrow> mainp s \<in> {Create1, Create2} \<Longrightarrow>
     incr_step acq rel loops s (s\<lparr>ended := Some (Exit EXIT_FAILURE)\<rparr>)"
| join1: "ended s = None \<Longrightarrow> mainp s = Join1 \<Longrightarrow> thr1 s = Ended \<Longrightarrow> incr_step acq rel loops s (s\<lparr>mainp := Join2\<rparr>)"
| join2: "ended s = None \<Longrightarrow> mainp s = Join2 \<Longrightarrow> thr2 s = Ended \<Longrightarrow> incr_step acq rel loops s (s\<lparr>mainp := Print\<rparr>)"
| print: "ended s = None \<Longrightarrow> mainp s = Print \<Longrightarrow>
     incr_step acq rel loops s (s\<lparr>printed := [glob s], ended := Some (Exit EXIT_SUCCESS)\<rparr>)"

inductive_cases incr_stepE: "incr_step acq rel loops s t"

text \<open>The number of loops, from the command line.\<close>

definition incr_loops :: "string list \<Rightarrow> proc \<Rightarrow> (proc, int) run" where
  "incr_loops argv s = (if 1 < length argv then getInt (Some (argv ! 1)) GN_GT_0 (Some ''num-loops'') s else Done 10000000 s)"

lemma incr_loops_positive: "incr_loops argv s = Done v t \<Longrightarrow> 0 < v \<and> v \<le> INT_MAX"
  using getInt_iff [of "Some (argv ! 1)" GN_GT_0 "Some ''num-loops''" s v]
  by (auto simp: incr_loops_def getNum_iff flags_allow_def INT_MAX_def split: if_splits)

text \<open>The five programs: what they do around an increment.\<close>

definition thread_incr :: "int \<Rightarrow> unit incr \<Rightarrow> unit incr \<Rightarrow> bool" where
  "thread_incr loops = incr_step Some id loops"

definition thread_incr_mutex :: "int \<Rightarrow> bool incr \<Rightarrow> bool incr \<Rightarrow> bool" where
  "thread_incr_mutex loops = incr_step mutex_lock mutex_unlock loops"

definition thread_incr_spinlock :: "int \<Rightarrow> nat incr \<Rightarrow> nat incr \<Rightarrow> bool" where
  "thread_incr_spinlock loops = incr_step spin_lock spin_unlock loops"

definition thread_incr_rwlock :: "int \<Rightarrow> rwlock incr \<Rightarrow> rwlock incr \<Rightarrow> bool" where
  "thread_incr_rwlock loops = incr_step rwlock_wrlock rwlock_unlock loops"

definition thread_incr_psem :: "int \<Rightarrow> nat incr \<Rightarrow> nat incr \<Rightarrow> bool" where
  "thread_incr_psem loops = incr_step sem_wait sem_post loops"

lemmas incr_programs = thread_incr_def thread_incr_mutex_def thread_incr_spinlock_def thread_incr_rwlock_def thread_incr_psem_def

definition incr_start :: "'l \<Rightarrow> 'l incr" where
  "incr_start l = \<lparr>glob = 0, lck = l, thr1 = Unborn, thr2 = Unborn, mainp = Create1, printed = [], ended = None\<rparr>"

section \<open>What a lock promises\<close>

locale lock =
  fixes acq :: "'l \<Rightarrow> 'l option" and rel :: "'l \<Rightarrow> 'l" and usable :: "'l \<Rightarrow> bool" and held :: "'l \<Rightarrow> bool"
  assumes acq_excl: "usable l \<Longrightarrow> acq l = Some l' \<Longrightarrow> \<not> held l \<and> held l' \<and> usable l'"
    and acq_free: "usable l \<Longrightarrow> \<not> held l \<Longrightarrow> acq l \<noteq> None"
    and rel_free: "usable l \<Longrightarrow> held l \<Longrightarrow> \<not> held (rel l) \<and> usable (rel l)"

fun critical :: "tloc \<Rightarrow> bool" where
  "critical (Load j) = True"
| "critical (Store j v) = True"
| "critical (Release j) = True"
| "critical _ = False"

text \<open>The increments a thread has completed, and that its local variable is up to date.\<close>

fun increments :: "int \<Rightarrow> tloc \<Rightarrow> int" where
  "increments loops Unborn = 0"
| "increments loops (Acquire j) = j"
| "increments loops (Load j) = j"
| "increments loops (Store j v) = j"
| "increments loops (Release j) = j + 1"
| "increments loops Ended = loops"

fun in_loop :: "int \<Rightarrow> int \<Rightarrow> tloc \<Rightarrow> bool" where
  "in_loop loops g (Acquire j) = (0 \<le> j \<and> j < loops)"
| "in_loop loops g (Load j) = (0 \<le> j \<and> j < loops)"
| "in_loop loops g (Store j v) = (0 \<le> j \<and> j < loops \<and> v = g + 1)"
| "in_loop loops g (Release j) = (0 \<le> j \<and> j < loops)"
| "in_loop loops g _ = True"

text \<open>The part of the invariant about the threads.\<close>

definition pair_inv :: "('l \<Rightarrow> bool) \<Rightarrow> ('l \<Rightarrow> bool) \<Rightarrow> int \<Rightarrow> tloc \<Rightarrow> tloc \<Rightarrow> int \<Rightarrow> 'l \<Rightarrow> bool" where
  "pair_inv usable held loops p q g l \<longleftrightarrow>
     usable l \<and> (held l \<longleftrightarrow> critical p \<or> critical q) \<and> \<not> (critical p \<and> critical q) \<and>
     g = increments loops p + increments loops q \<and> in_loop loops g p \<and> in_loop loops g q"

definition born :: "'l incr \<Rightarrow> bool" where
  "born s \<longleftrightarrow> (thr1 s = Unborn \<longleftrightarrow> mainp s = Create1) \<and> (thr2 s = Unborn \<longleftrightarrow> mainp s \<in> {Create1, Create2}) \<and>
     (mainp s \<in> {Join2, Print} \<longrightarrow> thr1 s = Ended) \<and> (mainp s = Print \<longrightarrow> thr2 s = Ended)"

definition incr_inv :: "('l \<Rightarrow> bool) \<Rightarrow> ('l \<Rightarrow> bool) \<Rightarrow> int \<Rightarrow> 'l incr \<Rightarrow> bool" where
  "incr_inv usable held loops s \<longleftrightarrow>
     pair_inv usable held loops (thr1 s) (thr2 s) (glob s) (lck s) \<and> born s \<and>
     ended s \<in> {None, Some (Exit EXIT_SUCCESS), Some (Exit EXIT_FAILURE)} \<and> (ended s = Some (Exit EXIT_SUCCESS) \<longrightarrow> printed s = [2 * loops])"

fun t_left :: "int \<Rightarrow> tloc \<Rightarrow> int" where
  "t_left loops Unborn = 4 * loops + 1"
| "t_left loops (Acquire j) = 4 * (loops - j)"
| "t_left loops (Load j) = 4 * (loops - j) - 1"
| "t_left loops (Store j v) = 4 * (loops - j) - 2"
| "t_left loops (Release j) = 4 * (loops - j) - 3"
| "t_left loops Ended = 0"

definition incr_left :: "int \<Rightarrow> 'l incr \<Rightarrow> int" where
  "incr_left loops s = t_left loops (thr1 s) + t_left loops (thr2 s) +
     (case mainp s of Create1 \<Rightarrow> 5 | Create2 \<Rightarrow> 4 | Join1 \<Rightarrow> 3 | Join2 \<Rightarrow> 2 | Print \<Rightarrow> 1) + (if ended s = None then 1 else 0)"

lemma next_iter_simps:
  "\<not> critical (next_iter loops j)" "next_iter loops j \<noteq> Unborn"
  "j \<le> loops \<Longrightarrow> increments loops (next_iter loops j) = j" "0 \<le> j \<Longrightarrow> in_loop loops g (next_iter loops j)"
  "j \<le> loops \<Longrightarrow> t_left loops (next_iter loops j) = 4 * (loops - j)"
  by (auto simp: next_iter_def)

lemma increments_le: "in_loop loops g p \<Longrightarrow> 0 \<le> loops \<Longrightarrow> increments loops p \<le> loops"
  by (cases p) auto

lemma pair_inv_sym: "pair_inv u h loops p q g l \<longleftrightarrow> pair_inv u h loops q p g l"
  by (auto simp: pair_inv_def)

lemma in_loop_other: "\<not> critical q \<Longrightarrow> in_loop loops g q \<Longrightarrow> in_loop loops g' q"
  by (cases q) auto

context lock
begin

lemma thread_inv:
  assumes "pair_inv usable held loops p q g l" "threadFunc acq rel loops p g l = Some (Inr (p', g', l'))"
  shows "pair_inv usable held loops p' q g' l' \<and> p \<noteq> Unborn \<and> p' \<noteq> Unborn \<and> p \<noteq> Ended"
proof (cases p)
  case (Acquire j)
  with assms obtain l2 where "acq l = Some l2" "p' = Load j" "g' = g" "l' = l2" by auto
  with assms(1) Acquire acq_excl show ?thesis by (auto simp: pair_inv_def)
next
  case (Store j v)
  with assms have p': "p' = Release j" "g' = g + 1" "l' = l" and q: "\<not> critical q" "in_loop loops g q"
    by (auto simp: pair_inv_def)
  with assms(1) Store in_loop_other [OF q, of "g + 1"] show ?thesis by (auto simp: pair_inv_def)
next
  case (Release j)
  with assms have p': "p' = next_iter loops (j + 1)" "g' = g" "l' = rel l" by auto
  with assms(1) Release rel_free show ?thesis by (auto simp: pair_inv_def next_iter_simps)
qed (use assms in \<open>auto simp: pair_inv_def split: if_splits\<close>)

lemma thread_no_fault:
  assumes "pair_inv usable held loops p q g l" "2 * loops \<le> INT_MAX" "0 \<le> loops"
  shows "threadFunc acq rel loops p g l \<noteq> Some (Inl h)"
proof (cases p)
  case (Load j)
  have "increments loops q \<le> loops" using assms increments_le by (auto simp: pair_inv_def)
  then have "g < INT_MAX" using assms Load by (auto simp: pair_inv_def)
  with Load show ?thesis by simp
qed auto

lemma thread_left:
  assumes "pair_inv usable held loops p q g l" "threadFunc acq rel loops p g l = Some (Inr (p', g', l'))"
  shows "t_left loops p' < t_left loops p"
  using assms by (cases p) (auto simp: pair_inv_def next_iter_simps split: if_splits)

lemma thread_moves:
  assumes "pair_inv usable held loops p q g l" "p \<noteq> Unborn" "p \<noteq> Ended" "\<not> critical q"
  shows "threadFunc acq rel loops p g l \<noteq> None"
  using assms acq_free by (cases p) (auto simp: pair_inv_def)

lemma incr_inv_step:
  assumes inv: "incr_inv usable held loops s" and step: "incr_step acq rel loops s t"
    and loops: "0 < loops" "2 * loops \<le> INT_MAX"
  shows "incr_inv usable held loops t"
proof -
  have p: "pair_inv usable held loops (thr1 s) (thr2 s) (glob s) (lck s)" using inv by (simp add: incr_inv_def)
  note q = p [unfolded pair_inv_sym [of usable held loops "thr1 s"]]
  have b: "born s" using inv by (simp add: incr_inv_def)
  note I = incr_inv_def
  from step show ?thesis
  proof (cases rule: incr_step.cases)
    case (step1 p' g l)
    from thread_inv [OF p step1(3)] b inv show ?thesis unfolding step1(1) I by (auto simp: born_def)
  next
    case (step2 p' g l)
    note r = thread_inv [OF q step2(3), unfolded pair_inv_sym [of usable held loops p']]
    with b inv show ?thesis unfolding step2(1) I by (auto simp: born_def)
  next
    case fault1
    with thread_no_fault [OF p loops(2)] loops(1) show ?thesis by auto
  next
    case fault2
    with thread_no_fault [OF q loops(2)] loops(1) show ?thesis by auto
  next
    case create1
    have u: "thr1 s = Unborn" using b create1 by (simp add: born_def)
    with p b inv create1 loops show ?thesis unfolding create1(1) I by (auto simp: born_def pair_inv_def next_iter_simps)
  next
    case create2
    have u: "thr2 s = Unborn" using b create2 by (simp add: born_def)
    with p b inv create2 loops show ?thesis unfolding create2(1) I by (auto simp: born_def pair_inv_def next_iter_simps)
  next
    case print
    have "thr1 s = Ended" "thr2 s = Ended" using b print by (simp_all add: born_def)
    with p b inv print show ?thesis unfolding print(1) I by (auto simp: pair_inv_def born_def)
  qed (use p b inv in \<open>auto simp: I born_def\<close>)
qed

lemma incr_left_step:
  assumes inv: "incr_inv usable held loops s" and step: "incr_step acq rel loops s t" and loops: "0 < loops"
  shows "incr_left loops t < incr_left loops s"
proof -
  have p: "pair_inv usable held loops (thr1 s) (thr2 s) (glob s) (lck s)" using inv by (simp add: incr_inv_def)
  note q = p [unfolded pair_inv_sym [of usable held loops "thr1 s"]]
  have b: "born s" using inv by (simp add: incr_inv_def)
  from step show ?thesis
  proof (cases rule: incr_step.cases)
    case (step1 p' g l)
    from thread_left [OF p step1(3)] show ?thesis unfolding step1(1) by (simp add: incr_left_def)
  next
    case (step2 p' g l)
    from thread_left [OF q step2(3)] show ?thesis unfolding step2(1) by (simp add: incr_left_def)
  qed (use b loops in \<open>auto simp: incr_left_def born_def next_iter_simps\<close>)
qed

lemma incr_left_nonneg:
  assumes "incr_inv usable held loops s" "0 < loops"
  shows "0 \<le> incr_left loops s"
proof -
  have "0 \<le> t_left loops p" if "in_loop loops g p" for g p using that assms(2) by (cases p) auto
  then have "0 \<le> t_left loops (thr1 s)" "0 \<le> t_left loops (thr2 s)" using assms(1) by (auto simp: incr_inv_def pair_inv_def)
  then show ?thesis by (auto simp: incr_left_def split: mloc.splits)
qed

lemma incr_progress:
  assumes inv: "incr_inv usable held loops s" and run: "ended s = None"
  shows "\<exists>t. incr_step acq rel loops s t"
proof -
  have p: "pair_inv usable held loops (thr1 s) (thr2 s) (glob s) (lck s)" using inv by (simp add: incr_inv_def)
  note q = p [unfolded pair_inv_sym [of usable held loops "thr1 s"]]
  have b: "born s" using inv by (simp add: incr_inv_def)
  have one: "\<exists>t. incr_step acq rel loops s t" if "threadFunc acq rel loops (thr1 s) (glob s) (lck s) \<noteq> None"
    using that step1 [OF run] fault1 [OF run] by (metis not_None_eq sum.exhaust prod_cases3)
  have two: "\<exists>t. incr_step acq rel loops s t" if "threadFunc acq rel loops (thr2 s) (glob s) (lck s) \<noteq> None"
    using that step2 [OF run] fault2 [OF run] by (metis not_None_eq sum.exhaust prod_cases3)
  have crit: "critical r \<Longrightarrow> r \<noteq> Unborn \<and> r \<noteq> Ended" for r by (cases r) auto
  show ?thesis
  proof (cases "mainp s")
    case Join1
    have "thr1 s \<noteq> Unborn" "thr2 s \<noteq> Unborn" using b Join1 by (auto simp: born_def)
    then show ?thesis
      using join1 [OF run Join1] one two thread_moves [OF p] thread_moves [OF q] crit p [unfolded pair_inv_def] by blast
  next
    case Join2
    have "thr1 s = Ended" "thr2 s \<noteq> Unborn" using b Join2 by (auto simp: born_def)
    then show ?thesis using join2 [OF run Join2] two thread_moves [OF q] by (cases "thr2 s = Ended") auto
  qed (use run in \<open>auto intro: incr_step.intros\<close>)
qed

end

locale lock_incr = lock +
  fixes loops :: int
  assumes loops: "0 < loops" "2 * loops \<le> INT_MAX"

sublocale lock_incr < inc: bounded_system "incr_step acq rel loops" "\<lambda>_ _. False" "incr_inv usable held loops"
  "incr_left loops" 0 "\<lambda>s. ended s \<noteq> None"
  by unfold_locales
    (use loops in \<open>auto intro: incr_inv_step incr_left_step incr_left_nonneg incr_progress\<close>)

text \<open>
  No update is lost: the program ends within a bounded number of steps, is never stuck
  before that, and prints the number of all increments if it ends successfully.
\<close>

definition sums_up :: "('l incr \<Rightarrow> 'l incr \<Rightarrow> bool) \<Rightarrow> 'l \<Rightarrow> int \<Rightarrow> bool" where
  "sums_up step l loops \<longleftrightarrow>
     (\<forall>n k t. run_of step (\<lambda>_ _. False) n k (incr_start l) t \<longrightarrow>
        int n \<le> 8 * loops + 8 \<and> ((\<exists>u. step t u) \<or> (\<exists>status. ended t = Some (Exit status))) \<and>
        (ended t = Some (Exit EXIT_SUCCESS) \<longrightarrow> printed t = [2 * loops]))"

context lock_incr
begin

lemma incr_start_inv: "usable l \<Longrightarrow> \<not> held l \<Longrightarrow> incr_inv usable held loops (incr_start l)"
  by (simp add: incr_inv_def incr_start_def pair_inv_def born_def)

lemma incr_sums_up:
  assumes "usable l" "\<not> held l"
  shows "sums_up (incr_step acq rel loops) l loops"
  unfolding sums_up_def
proof (intro allI impI)
  fix n k t
  assume run: "run_of (incr_step acq rel loops) (\<lambda>_ _. False) n k (incr_start l) t"
  note s = incr_start_inv [OF assms]
  have t: "incr_inv usable held loops t" by (rule inc.run_inv [OF run s])
  have "int n \<le> 8 * loops + 8" using inc.run_bounded [OF s run] by (simp add: incr_left_def incr_start_def)
  moreover have "(\<exists>u. incr_step acq rel loops t u) \<or> ended t \<noteq> None" using inc.progress [OF t] by blast
  ultimately show "int n \<le> 8 * loops + 8 \<and> ((\<exists>u. incr_step acq rel loops t u) \<or> (\<exists>status. ended t = Some (Exit status))) \<and>
      (ended t = Some (Exit EXIT_SUCCESS) \<longrightarrow> printed t = [2 * loops])"
    using t by (auto simp: incr_inv_def)
qed

end

interpretation mtx: lock mutex_lock mutex_unlock "\<lambda>_. True" "\<lambda>m. m"
  by unfold_locales (auto simp: mutex_lock_def mutex_unlock_def split: if_splits)

interpretation spin: lock spin_lock spin_unlock "\<lambda>w. w \<le> 1" "\<lambda>w. w = 1"
  by unfold_locales (auto simp: spin_lock_def spin_unlock_def split: if_splits)

interpretation rw: lock rwlock_wrlock rwlock_unlock "\<lambda>l. \<forall>n. l \<noteq> Readers n" "\<lambda>l. l = Writer"
  by unfold_locales (auto simp: rwlock_wrlock_def rwlock_unlock_def split: rwlock.splits)

interpretation psem: lock sem_wait sem_post "\<lambda>v. v \<le> 1" "\<lambda>v. v = 0"
  by unfold_locales (auto simp: sem_wait_def sem_post_def split: if_splits)

text \<open>The programs with the number of loops they use by default.\<close>

interpretation mtx_default: lock_incr mutex_lock mutex_unlock "\<lambda>_. True" "\<lambda>m. m" 10000000
  by unfold_locales (simp_all add: INT_MAX_def)

section \<open>Lost updates\<close>

text \<open>Without synchronisation the lock operations do nothing.\<close>

abbreviation (input) unsync :: "int \<Rightarrow> unit incr \<Rightarrow> unit incr \<Rightarrow> bool" where
  "unsync \<equiv> incr_step Some id"

abbreviation reach :: "int \<Rightarrow> unit incr \<Rightarrow> unit incr \<Rightarrow> bool" where
  "reach loops \<equiv> (unsync loops)\<^sup>*\<^sup>*"

lemma unsync_steps:
  "ended s = None \<Longrightarrow> threadFunc Some id loops (thr1 s) (glob s) () = Some (Inr (p, g, ())) \<Longrightarrow>
     unsync loops s (s\<lparr>thr1 := p, glob := g\<rparr>)"
  "ended s = None \<Longrightarrow> threadFunc Some id loops (thr2 s) (glob s) () = Some (Inr (p, g, ())) \<Longrightarrow>
     unsync loops s (s\<lparr>thr2 := p, glob := g\<rparr>)"
proof -
  have u: "s\<lparr>thr1 := p, glob := g, lck := ()\<rparr> = s\<lparr>thr1 := p, glob := g\<rparr>" "s\<lparr>thr2 := p, glob := g, lck := ()\<rparr> = s\<lparr>thr2 := p, glob := g\<rparr>"
    by (cases s; simp)+
  show "ended s = None \<Longrightarrow> threadFunc Some id loops (thr1 s) (glob s) () = Some (Inr (p, g, ())) \<Longrightarrow>
      unsync loops s (s\<lparr>thr1 := p, glob := g\<rparr>)"
    using step1 [of s Some id loops p g "()"] by (simp add: u)
  show "ended s = None \<Longrightarrow> threadFunc Some id loops (thr2 s) (glob s) () = Some (Inr (p, g, ())) \<Longrightarrow>
      unsync loops s (s\<lparr>thr2 := p, glob := g\<rparr>)"
    using step2 [of s Some id loops p g "()"] by (simp add: u)
qed

text \<open>A thread that runs alone for \<open>m\<close> iterations adds \<open>m\<close>.\<close>

lemma iteration:
  assumes "ended s = None" "j < loops" "g \<noteq> INT_MAX"
  shows "reach loops (s\<lparr>thr1 := Acquire j, glob := g\<rparr>) (s\<lparr>thr1 := next_iter loops (j + 1), glob := g + 1\<rparr>)"
    "reach loops (s\<lparr>thr2 := Acquire j, glob := g\<rparr>) (s\<lparr>thr2 := next_iter loops (j + 1), glob := g + 1\<rparr>)"
proof -
  have "reach loops (s\<lparr>thr1 := Acquire j, glob := g\<rparr>) (s\<lparr>thr1 := Load j, glob := g\<rparr>)"
    using unsync_steps(1) [of "s\<lparr>thr1 := Acquire j, glob := g\<rparr>" loops "Load j" g] assms by auto
  also have "reach loops (s\<lparr>thr1 := Load j, glob := g\<rparr>) (s\<lparr>thr1 := Store j (g + 1), glob := g\<rparr>)"
    using unsync_steps(1) [of "s\<lparr>thr1 := Load j, glob := g\<rparr>" loops "Store j (g + 1)" g] assms by auto
  also have "reach loops (s\<lparr>thr1 := Store j (g + 1), glob := g\<rparr>) (s\<lparr>thr1 := Release j, glob := g + 1\<rparr>)"
    using unsync_steps(1) [of "s\<lparr>thr1 := Store j (g + 1), glob := g\<rparr>" loops "Release j" "g + 1"] assms by auto
  also have "reach loops (s\<lparr>thr1 := Release j, glob := g + 1\<rparr>) (s\<lparr>thr1 := next_iter loops (j + 1), glob := g + 1\<rparr>)"
    using unsync_steps(1) [of "s\<lparr>thr1 := Release j, glob := g + 1\<rparr>" loops "next_iter loops (j + 1)" "g + 1"] assms by auto
  finally show "reach loops (s\<lparr>thr1 := Acquire j, glob := g\<rparr>) (s\<lparr>thr1 := next_iter loops (j + 1), glob := g + 1\<rparr>)" .
  have "reach loops (s\<lparr>thr2 := Acquire j, glob := g\<rparr>) (s\<lparr>thr2 := Load j, glob := g\<rparr>)"
    using unsync_steps(2) [of "s\<lparr>thr2 := Acquire j, glob := g\<rparr>" loops "Load j" g] assms by auto
  also have "reach loops (s\<lparr>thr2 := Load j, glob := g\<rparr>) (s\<lparr>thr2 := Store j (g + 1), glob := g\<rparr>)"
    using unsync_steps(2) [of "s\<lparr>thr2 := Load j, glob := g\<rparr>" loops "Store j (g + 1)" g] assms by auto
  also have "reach loops (s\<lparr>thr2 := Store j (g + 1), glob := g\<rparr>) (s\<lparr>thr2 := Release j, glob := g + 1\<rparr>)"
    using unsync_steps(2) [of "s\<lparr>thr2 := Store j (g + 1), glob := g\<rparr>" loops "Release j" "g + 1"] assms by auto
  also have "reach loops (s\<lparr>thr2 := Release j, glob := g + 1\<rparr>) (s\<lparr>thr2 := next_iter loops (j + 1), glob := g + 1\<rparr>)"
    using unsync_steps(2) [of "s\<lparr>thr2 := Release j, glob := g + 1\<rparr>" loops "next_iter loops (j + 1)" "g + 1"] assms by auto
  finally show "reach loops (s\<lparr>thr2 := Acquire j, glob := g\<rparr>) (s\<lparr>thr2 := next_iter loops (j + 1), glob := g + 1\<rparr>)" .
qed

lemma alone:
  assumes "ended s = None" "j + int m \<le> loops" "g + int m \<le> INT_MAX"
  shows "reach loops (s\<lparr>thr1 := next_iter loops j, glob := g\<rparr>) (s\<lparr>thr1 := next_iter loops (j + int m), glob := g + int m\<rparr>)"
    and "reach loops (s\<lparr>thr2 := next_iter loops j, glob := g\<rparr>) (s\<lparr>thr2 := next_iter loops (j + int m), glob := g + int m\<rparr>)"
  using assms(2,3)
proof (induction m arbitrary: j g)
  case (Suc m)
  {
    case 1
    then have "j < loops" "g \<noteq> INT_MAX" by simp_all
    from rtranclp_trans [OF iteration(1) [OF assms(1) this] Suc.IH(1) [of "j + 1" "g + 1"]] 1
    show ?case by (simp add: next_iter_def [of loops j] algebra_simps)
  next
    case 2
    then have "j < loops" "g \<noteq> INT_MAX" by simp_all
    from rtranclp_trans [OF iteration(2) [OF assms(1) this] Suc.IH(2) [of "j + 1" "g + 1"]] 2
    show ?case by (simp add: next_iter_def [of loops j] algebra_simps)
  }
qed auto

definition at_points :: "tloc \<Rightarrow> tloc \<Rightarrow> int \<Rightarrow> unit incr" where
  "at_points p q g = \<lparr>glob = g, lck = (), thr1 = p, thr2 = q, mainp = Join1, printed = [], ended = None\<rparr>"

lemma at_points_steps:
  "threadFunc Some id loops p g () = Some (Inr (p', g', ())) \<Longrightarrow> reach loops (at_points p q g) (at_points p' q g')"
  "threadFunc Some id loops q g () = Some (Inr (q', g', ())) \<Longrightarrow> reach loops (at_points p q g) (at_points p q' g')"
  using unsync_steps(1) [of "at_points p q g" loops p' g'] unsync_steps(2) [of "at_points p q g" loops q' g']
  by (auto simp: at_points_def)

lemma at_points_alone:
  assumes "j + int m \<le> loops" "g + int m \<le> INT_MAX"
  shows "reach loops (at_points (next_iter loops j) q g) (at_points (next_iter loops (j + int m)) q (g + int m))"
    "reach loops (at_points p (next_iter loops j) g) (at_points p (next_iter loops (j + int m)) (g + int m))"
  using alone(1) [OF _ assms, of "at_points p q 0"] alone(2) [OF _ assms, of "at_points p q 0"]
  by (simp_all add: at_points_def)

lemma started: "reach loops (incr_start ()) (at_points (next_iter loops 0) (next_iter loops 0) 0)"
proof -
  have "unsync loops (incr_start ()) ((incr_start ())\<lparr>thr1 := next_iter loops 0, mainp := Create2\<rparr>)"
    by (rule create1) (simp_all add: incr_start_def)
  moreover have "unsync loops ((incr_start ())\<lparr>thr1 := next_iter loops 0, mainp := Create2\<rparr>)
      ((incr_start ())\<lparr>thr1 := next_iter loops 0, mainp := Create2\<rparr>\<lparr>thr2 := next_iter loops 0, mainp := Join1\<rparr>)"
    by (rule create2) (simp_all add: incr_start_def)
  ultimately show ?thesis by (auto simp: incr_start_def at_points_def intro: converse_rtranclp_into_rtranclp)
qed

lemma finishes: "\<exists>t. reach loops (at_points Ended Ended g) t \<and> ended t = Some (Exit EXIT_SUCCESS) \<and> printed t = [g]"
proof -
  let ?a = "at_points Ended Ended g"
  have "unsync loops ?a (?a\<lparr>mainp := Join2\<rparr>)" by (rule join1) (simp_all add: at_points_def)
  moreover have "unsync loops (?a\<lparr>mainp := Join2\<rparr>) (?a\<lparr>mainp := Join2\<rparr>\<lparr>mainp := Print\<rparr>)"
    by (rule join2) (simp_all add: at_points_def)
  moreover have "unsync loops (?a\<lparr>mainp := Join2\<rparr>\<lparr>mainp := Print\<rparr>)
      (?a\<lparr>mainp := Join2\<rparr>\<lparr>mainp := Print\<rparr>\<lparr>printed := [glob (?a\<lparr>mainp := Join2\<rparr>\<lparr>mainp := Print\<rparr>)], ended := Some (Exit EXIT_SUCCESS)\<rparr>)"
    by (rule print) (simp_all add: at_points_def)
  ultimately have "reach loops ?a
      (?a\<lparr>mainp := Join2\<rparr>\<lparr>mainp := Print\<rparr>\<lparr>printed := [glob (?a\<lparr>mainp := Join2\<rparr>\<lparr>mainp := Print\<rparr>)], ended := Some (Exit EXIT_SUCCESS)\<rparr>)"
    by (meson converse_rtranclp_into_rtranclp rtranclp.rtrancl_refl)
  then show ?thesis by (intro exI) (auto simp: at_points_def)
qed

text \<open>The increments of thread_incr.c are not atomic. However many loops the two threads perform (two or more), there is an
  interleaving after which the program ends successfully and prints 2.\<close>
theorem thread_incr_loses_updates:
  assumes "2 \<le> loops" "loops \<le> INT_MAX"
  shows "\<exists>t. (thread_incr loops)\<^sup>*\<^sup>* (incr_start ()) t \<and> ended t = Some (Exit EXIT_SUCCESS) \<and> printed t = [2]"
proof -
  define m where "m = nat (loops - 1)"
  have m: "int m = loops - 1" using assms by (simp add: m_def)
  have n: "next_iter loops 0 = Acquire 0" "next_iter loops 1 = Acquire 1" "next_iter loops (loops - 1) = Acquire (loops - 1)"
    "next_iter loops loops = Ended" and no: "0 \<noteq> INT_MAX" "1 \<noteq> INT_MAX" using assms by (simp_all add: next_iter_def INT_MAX_def)
  note started
  also have "reach loops (at_points (next_iter loops 0) (next_iter loops 0) 0) (at_points (Load 0) (Acquire 0) 0)"
    unfolding n by (rule at_points_steps(1)) simp
  also have "reach loops (at_points (Load 0) (Acquire 0) 0) (at_points (Store 0 1) (Acquire 0) 0)"
    by (rule at_points_steps(1)) (simp add: no)
  also have "reach loops (at_points (Store 0 1) (Acquire 0) 0) (at_points (Store 0 1) (Acquire (loops - 1)) (loops - 1))"
    using at_points_alone(2) [of 0 m loops 0 "Store 0 1"] assms m n by simp
  also have "reach loops (at_points (Store 0 1) (Acquire (loops - 1)) (loops - 1)) (at_points (Release 0) (Acquire (loops - 1)) 1)"
    by (rule at_points_steps(1)) simp
  also have "reach loops (at_points (Release 0) (Acquire (loops - 1)) 1) (at_points (Acquire 1) (Acquire (loops - 1)) 1)"
    by (rule at_points_steps(1)) (simp add: n)
  also have "reach loops (at_points (Acquire 1) (Acquire (loops - 1)) 1) (at_points (Acquire 1) (Load (loops - 1)) 1)"
    by (rule at_points_steps(2)) simp
  also have "reach loops (at_points (Acquire 1) (Load (loops - 1)) 1) (at_points (Acquire 1) (Store (loops - 1) 2) 1)"
    by (rule at_points_steps(2)) (simp add: no)
  also have "reach loops (at_points (Acquire 1) (Store (loops - 1) 2) 1) (at_points Ended (Store (loops - 1) 2) loops)"
    using at_points_alone(1) [of 1 m loops 1 "Store (loops - 1) 2"] assms m n by simp
  also have "reach loops (at_points Ended (Store (loops - 1) 2) loops) (at_points Ended (Release (loops - 1)) 2)"
    by (rule at_points_steps(2)) simp
  also have "reach loops (at_points Ended (Release (loops - 1)) 2) (at_points Ended Ended 2)"
    by (rule at_points_steps(2)) (simp add: n)
  finally have r: "reach loops (incr_start ()) (at_points Ended Ended 2)" .
  from finishes [of loops 2] r show ?thesis unfolding incr_programs by (meson rtranclp_trans)
qed

theorem thread_incr_loses_updates_witness:
  "\<exists>t. (thread_incr 10000000)\<^sup>*\<^sup>* (incr_start ()) t \<and> ended t = Some (Exit EXIT_SUCCESS) \<and> printed t = [2]"
  by (rule thread_incr_loses_updates) (simp_all add: INT_MAX_def)

text \<open>C28: with a mutex, a spin lock, a read/write lock or a semaphore no update is lost. For every number of loops whose
  double is an int, every interleaving of the two threads and the main thread ends within a bounded number of
  steps without deadlock or overflow, and a successful program prints twice the number of loops.\<close>
theorem locked_increments_sum_up:
  assumes "0 < loops" "2 * loops \<le> INT_MAX"
  shows "sums_up (thread_incr_mutex loops) False loops \<and> sums_up (thread_incr_spinlock loops) 0 loops \<and>
    sums_up (thread_incr_rwlock loops) Unlocked loops \<and> sums_up (thread_incr_psem loops) 1 loops"
proof -
  have ax: "lock_incr_axioms loops" using assms by unfold_locales
  note i = lock_incr.incr_sums_up [OF lock_incr.intro [OF _ ax]]
  show ?thesis
    using i [OF mtx.lock_axioms, of False] i [OF spin.lock_axioms, of 0] i [OF rw.lock_axioms, of Unlocked]
      i [OF psem.lock_axioms, of 1] by (simp add: incr_programs)
qed

theorem locked_increments_sum_up_witness: "sums_up (thread_incr_psem 10000000) 1 10000000"
  using locked_increments_sum_up [of 10000000] by (simp add: INT_MAX_def)

end
