(* ===== verification/Prod_Condvar.thy ===== *)
theory Prod_Condvar
  imports Bounded_System C_Numbers
begin

text \<open>
  Producers and one consumer with a condition variable that is signalled after the mutex is
  released: \<^verbatim>\<open>threads/prod_condvar.c\<close>.  The state has the point that every thread has reached; a waiting
  consumer may be woken spuriously.  The lemmas show that no unit and no wakeup is lost, and
  exactly when the program ends.
\<close>

section \<open>The program\<close>

text \<open>A producer in iteration \<open>j\<close> of \<open>n\<close>: before locking, with the mutex, before signalling, returned.\<close>

datatype producer_at = PLock int int | PInc int int | PSignal int int | PEnd int

datatype consumer_at = MCreate nat | MLock | MTest | MWait | MRelock | MUnlock | MDone

record pcv =
  mtx :: bool
  avail :: int
  producers :: "producer_at list"
  totRequired :: int
  numConsumed :: int
  all_done :: bool
  at :: consumer_at
  reports :: "int list"        \<comment> \<open>the values of \<open>numConsumed\<close> printed\<close>
  exited :: "halt option"

definition next_unit :: "int \<Rightarrow> int \<Rightarrow> producer_at" where
  "next_unit n j = (if j < n then PLock n j else PEnd n)"

fun threadFunc :: "producer_at \<Rightarrow> nat \<Rightarrow> pcv \<Rightarrow> pcv option" where
  "threadFunc (PLock n j) i s =
     (if mtx s then None else Some (s\<lparr>mtx := True, producers := (producers s)[i := PInc n j]\<rparr>))"
| "threadFunc (PInc n j) i s =
     Some (s\<lparr>avail := avail s + 1, mtx := False, producers := (producers s)[i := PSignal n j]\<rparr>)"
| "threadFunc (PSignal n j) i s =
     Some (s\<lparr>at := (if at s = MWait then MRelock else at s), producers := (producers s)[i := next_unit n (j + 1)]\<rparr>)"
| "threadFunc (PEnd n) i s = None"

text \<open>The inner loop of the consumer, which runs while it holds the mutex.\<close>

fun consume_all :: "nat \<Rightarrow> pcv \<Rightarrow> pcv" where
  "consume_all 0 s = s"
| "consume_all (Suc n) s =
     consume_all n (s\<lparr>numConsumed := numConsumed s + 1, avail := avail s - 1, reports := reports s @ [numConsumed s + 1],
                      all_done := (numConsumed s + 1 \<ge> totRequired s)\<rparr>)"

fun pcv_main :: "string list \<Rightarrow> consumer_at \<Rightarrow> pcv \<Rightarrow> pcv option" where
  "pcv_main args (MCreate i) s =
     Some (if i < length args
           then let n = atoi (args ! i) in
                if INT_MIN \<le> totRequired s + n \<and> totRequired s + n \<le> INT_MAX
                then s\<lparr>totRequired := totRequired s + n, producers := producers s @ [next_unit n 0], at := MCreate (Suc i)\<rparr>
                else s\<lparr>exited := Some Fault\<rparr>
           else s\<lparr>at := MLock\<rparr>)"
| "pcv_main args MLock s = (if mtx s then None else Some (s\<lparr>mtx := True, at := MTest\<rparr>))"
| "pcv_main args MTest s =
     Some (if avail s = 0 then s\<lparr>mtx := False, at := MWait\<rparr> else (consume_all (nat (avail s)) s)\<lparr>at := MUnlock\<rparr>)"
| "pcv_main args MWait s = None"
| "pcv_main args MDone s = None"
| "pcv_main args MRelock s = (if mtx s then None else Some (s\<lparr>mtx := True, at := MTest\<rparr>))"
| "pcv_main args MUnlock s =
     Some (if all_done s then s\<lparr>mtx := False, at := MDone, exited := Some (Exit EXIT_SUCCESS)\<rparr> else s\<lparr>mtx := False, at := MLock\<rparr>)"

inductive pcv_step :: "string list \<Rightarrow> pcv \<Rightarrow> pcv \<Rightarrow> bool" for args where
  producer: "exited s = None \<Longrightarrow> i < length (producers s) \<Longrightarrow> threadFunc (producers s ! i) i s = Some t \<Longrightarrow> pcv_step args s t"
| consumer: "exited s = None \<Longrightarrow> pcv_main args (at s) s = Some t \<Longrightarrow> pcv_step args s t"
| create_fails: "exited s = None \<Longrightarrow> at s = MCreate i \<Longrightarrow> i < length args \<Longrightarrow> pcv_step args s (s\<lparr>exited := Some (Exit EXIT_FAILURE)\<rparr>)"

inductive pcv_env :: "pcv \<Rightarrow> pcv \<Rightarrow> bool" where
  spurious: "exited s = None \<Longrightarrow> at s = MWait \<Longrightarrow> pcv_env s (s\<lparr>at := MRelock\<rparr>)"

definition pcv_start :: pcv where
  "pcv_start = \<lparr>mtx = False, avail = 0, producers = [], totRequired = 0, numConsumed = 0, all_done = False, at = MCreate 0,
     reports = [], exited = None\<rparr>"

section \<open>Invariant\<close>

fun made :: "producer_at \<Rightarrow> int" where
  "made (PLock n j) = j"
| "made (PInc n j) = j"
| "made (PSignal n j) = j + 1"
| "made (PEnd n) = max 0 n"

fun quota :: "producer_at \<Rightarrow> int" where
  "quota (PLock n j) = max 0 n"
| "quota (PInc n j) = max 0 n"
| "quota (PSignal n j) = max 0 n"
| "quota (PEnd n) = max 0 n"

fun in_range :: "producer_at \<Rightarrow> bool" where
  "in_range (PEnd n) = True"
| "in_range (PLock n j) = (0 \<le> j \<and> j < n)"
| "in_range (PInc n j) = (0 \<le> j \<and> j < n)"
| "in_range (PSignal n j) = (0 \<le> j \<and> j < n)"

fun is_inc :: "producer_at \<Rightarrow> bool" where
  "is_inc (PInc n j) = True" | "is_inc _ = False"

fun is_signal :: "producer_at \<Rightarrow> bool" where
  "is_signal (PSignal n j) = True" | "is_signal _ = False"

abbreviation (input) main_holds :: "consumer_at \<Rightarrow> bool" where
  "main_holds m \<equiv> m = MTest \<or> m = MUnlock"

definition wanted :: "string list \<Rightarrow> int" where
  "wanted args = sum_list (map (\<lambda>a. max 0 (atoi a)) args)"

fun created :: "string list \<Rightarrow> consumer_at \<Rightarrow> nat" where
  "created args (MCreate i) = i"
| "created args _ = length args"

text \<open>Nothing is consumed before all threads are created.\<close>

fun not_before :: "consumer_at \<Rightarrow> int \<Rightarrow> bool" where
  "not_before (MCreate i) c = (c = 0)" | "not_before _ c = True"

definition produced :: "string list \<Rightarrow> pcv \<Rightarrow> bool" where
  "produced args s \<longleftrightarrow>
     list_all in_range (producers s) \<and>
     sumw quota (producers s) = wanted (take (created args (at s)) args) \<and> created args (at s) \<le> length args \<and>
     avail s + numConsumed s = sumw made (producers s) \<and> 0 \<le> avail s \<and> 0 \<le> numConsumed s \<and>
     totRequired s \<le> sumw quota (producers s)"

definition locked :: "pcv \<Rightarrow> bool" where
  "locked s \<longleftrightarrow>
     (mtx s \<longleftrightarrow> main_holds (at s) \<or> 0 < cnt is_inc (producers s)) \<and>
     cnt is_inc (producers s) + (if main_holds (at s) then 1 else 0) \<le> 1"

definition woken :: "pcv \<Rightarrow> bool" where
  "woken s \<longleftrightarrow> (at s = MWait \<and> 0 < avail s \<longrightarrow> 0 < cnt is_signal (producers s))"

definition up_to :: "int \<Rightarrow> int list" where
  "up_to c = map int [1..<nat c + 1]"

definition consumed :: "pcv \<Rightarrow> bool" where
  "consumed s \<longleftrightarrow>
     (all_done s \<longleftrightarrow> 0 < numConsumed s \<and> totRequired s \<le> numConsumed s) \<and> (\<not> all_done s \<or> at s = MUnlock \<or> at s = MDone) \<and>
     not_before (at s) (numConsumed s) \<and>
     reports s = up_to (numConsumed s) \<and>
     (exited s \<noteq> Some (Exit EXIT_SUCCESS) \<or> all_done s) \<and> (at s \<noteq> MDone \<or> exited s \<noteq> None)"

definition pcv_inv :: "string list \<Rightarrow> pcv \<Rightarrow> bool" where
  "pcv_inv args s \<longleftrightarrow> produced args s \<and> locked s \<and> woken s \<and> consumed s"

lemma wanted_simps [simp]: "wanted [] = 0" "wanted (xs @ ys) = wanted xs + wanted ys" "wanted [a] = max 0 (atoi a)"
  by (simp_all add: wanted_def)

lemma pcv_start_inv: "pcv_inv args pcv_start"
  by (simp add: pcv_inv_def pcv_start_def produced_def locked_def woken_def consumed_def up_to_def)

lemma next_unit_simps:
  "made (next_unit n j) = (if j < n then j else max 0 n)" "quota (next_unit n j) = max 0 n"
  "0 \<le> j \<Longrightarrow> in_range (next_unit n j)" "\<not> is_inc (next_unit n j)" "\<not> is_signal (next_unit n j)"
  by (auto simp: next_unit_def)

lemma consume_all_eq:
  "consume_all n s = s\<lparr>numConsumed := numConsumed s + int n, avail := avail s - int n,
     reports := reports s @ map (\<lambda>k. numConsumed s + int k) [1..<n + 1],
     all_done := (if n = 0 then all_done s else numConsumed s + int n \<ge> totRequired s)\<rparr>"
proof (induction n arbitrary: s)
  case (Suc n)
  have "map (\<lambda>k. numConsumed s + int k) [1..<Suc n + 1] =
      (numConsumed s + 1) # map (\<lambda>k. numConsumed s + 1 + int k) [1..<n + 1]"
    by (rule nth_equalityI) (auto simp: nth_Cons nth_append split: nat.splits)
  with Suc show ?case by (auto simp: algebra_simps)
qed simp

lemma reports_append:
  assumes "0 \<le> c"
  shows "up_to c @ map (\<lambda>k. c + int k) [1..<n + 1] = up_to (c + int n)"
  unfolding up_to_def
proof (induction n)
  case (Suc n)
  have "nat (c + int (Suc n)) = Suc (nat (c + int n))" using assms by simp
  with Suc assms show ?case by (simp flip: append_assoc)
qed simp

lemma exit_frame [simp]:
  "produced args (s\<lparr>exited := x\<rparr>) = produced args s" "locked (s\<lparr>exited := x\<rparr>) = locked s" "woken (s\<lparr>exited := x\<rparr>) = woken s"
  by (simp_all add: produced_def locked_def woken_def)

lemma consumed_exit: "consumed s \<Longrightarrow> h \<noteq> Exit EXIT_SUCCESS \<Longrightarrow> consumed (s\<lparr>exited := Some h\<rparr>)"
  unfolding consumed_def by (elim conjE, intro conjI) simp_all

lemma consumed_frame [simp]:
  "consumed (s\<lparr>mtx := b\<rparr>) = consumed s" "consumed (s\<lparr>producers := ps\<rparr>) = consumed s" "consumed (s\<lparr>avail := a\<rparr>) = consumed s"
  "at s = MWait \<Longrightarrow> consumed (s\<lparr>at := MRelock\<rparr>) = consumed s"
  by (simp_all add: consumed_def)

lemma pcv_producer_inv:
  assumes inv: "pcv_inv args s" and i: "i < length (producers s)" and run: "threadFunc (producers s ! i) i s = Some t"
    and ex: "exited s = None"
  shows "pcv_inv args t"
proof -
  note I = inv [unfolded pcv_inv_def]
  have r: "in_range (producers s ! i)" using I i by (simp add: produced_def list_all_length)
  have la: "list_all in_range ((producers s)[i := p])" if "in_range p" for p
    using I that by (auto simp: produced_def list_all_iff dest: set_update_subset_insert [THEN subsetD])
  note u = sumw_update [OF i]
  show ?thesis
  proof (cases "producers s ! i")
    case (PLock n j)
    with run have m: "\<not> mtx s" and t: "t = s\<lparr>mtx := True, producers := (producers s)[i := PInc n j]\<rparr>"
      by (auto split: if_splits)
    have "cnt is_inc (producers s) = 0" using I m cnt_nonneg [of is_inc "producers s"] by (auto simp: locked_def)
    then have "locked t" using I m unfolding t by (auto simp: locked_def u PLock)
    moreover have "produced args t" using I r la unfolding t by (auto simp: produced_def u PLock)
    moreover have "woken t" using I unfolding t by (simp add: woken_def u PLock)
    moreover have "consumed t" using I unfolding t by simp
    ultimately show ?thesis by (simp add: pcv_inv_def)
  next
    case (PInc n j)
    with run have t: "t = s\<lparr>avail := avail s + 1, mtx := False, producers := (producers s)[i := PSignal n j]\<rparr>" by simp
    have "1 \<le> cnt is_inc (producers s)" by (rule cnt_at [OF i]) (simp add: PInc)
    moreover have "cnt is_inc (producers s) + (if main_holds (at s) then 1 else 0) \<le> 1" using I by (simp add: locked_def)
    ultimately have h: "cnt is_inc (producers s) = 1" "at s \<noteq> MTest" "at s \<noteq> MUnlock" by (auto split: if_splits)
    then have "locked t" unfolding t by (auto simp: locked_def u PInc)
    moreover have "produced args t" using I r la unfolding t by (auto simp: produced_def u PInc)
    moreover have "0 \<le> cnt is_signal (producers s)" by simp
    then have "woken t" unfolding t by (auto simp: woken_def u PInc)
    moreover have "consumed t" using I unfolding t by simp
    ultimately show ?thesis by (simp add: pcv_inv_def)
  next
    case (PSignal n j)
    with run have t: "t = s\<lparr>at := (if at s = MWait then MRelock else at s), producers := (producers s)[i := next_unit n (j + 1)]\<rparr>"
      by simp
    have "created args (at t) = created args (at s)" by (simp add: t)
    then have "produced args t" using I r la unfolding t by (auto simp: produced_def u PSignal next_unit_simps)
    moreover have "locked t" using I unfolding t by (auto simp: locked_def u PSignal next_unit_simps)
    moreover have "woken t" unfolding t by (simp add: woken_def)
    moreover have "consumed t" using I unfolding t by (cases "at s = MWait") simp_all
    ultimately show ?thesis by (simp add: pcv_inv_def)
  qed (use run in simp)
qed

lemma pcv_consumer_inv:
  assumes inv: "pcv_inv args s" and run: "pcv_main args (at s) s = Some t" and ex: "exited s = None"
  shows "pcv_inv args t"
proof -
  note I = inv [unfolded pcv_inv_def]
  show ?thesis
  proof (cases "at s")
    case (MCreate i)
    consider (more) "i < length args" "t = s\<lparr>totRequired := totRequired s + atoi (args ! i),
        producers := producers s @ [next_unit (atoi (args ! i)) 0], at := MCreate (Suc i)\<rparr>"
      | (bad) "t = s\<lparr>exited := Some Fault\<rparr>" | (last) "\<not> i < length args" "t = s\<lparr>at := MLock\<rparr>"
      using run MCreate by (auto simp: Let_def split: if_splits)
    then show ?thesis
    proof cases
      case more
      have w: "wanted (take (Suc i) args) = wanted (take i args) + max 0 (atoi (args ! i))"
        using more by (simp add: take_Suc_conv_app_nth)
      have "produced args t" using I MCreate more(1) unfolding more(2) by (simp add: produced_def next_unit_simps w)
      moreover have "locked t" "woken t" "consumed t"
        using I MCreate ex unfolding more(2) by (auto simp: locked_def woken_def consumed_def next_unit_simps)
      ultimately show ?thesis by (simp add: pcv_inv_def)
    next
      case last
      then have "produced args t" using I MCreate by (simp add: produced_def)
      moreover have "locked t" "woken t" "consumed t"
        using I MCreate ex unfolding last(2) by (auto simp: locked_def woken_def consumed_def)
      ultimately show ?thesis by (simp add: pcv_inv_def)
    qed (use I in \<open>simp add: pcv_inv_def consumed_exit\<close>)
  next
    case MTest
    show ?thesis
    proof (cases "avail s = 0")
      case True
      with run MTest have t: "t = s\<lparr>mtx := False, at := MWait\<rparr>" by simp
      have "produced args t" "woken t" "locked t" "consumed t"
        using I MTest True ex cnt_nonneg [of is_inc "producers s"] unfolding t
        by (auto simp: produced_def woken_def locked_def consumed_def)
      then show ?thesis by (simp add: pcv_inv_def)
    next
      case False
      have a: "0 < avail s" "0 \<le> numConsumed s" "reports s = up_to (numConsumed s)"
        using I False by (auto simp: produced_def consumed_def)
      have t: "t = s\<lparr>numConsumed := numConsumed s + avail s, avail := 0, reports := up_to (numConsumed s + avail s),
          all_done := (numConsumed s + avail s \<ge> totRequired s), at := MUnlock\<rparr>"
        using run MTest False a reports_append [OF a(2), of "nat (avail s)"] by (simp add: consume_all_eq)
      have "produced args t" "woken t" "locked t" "consumed t"
        using I MTest a ex unfolding t by (auto simp: produced_def woken_def locked_def consumed_def simp del: upt_Suc)
      then show ?thesis by (simp add: pcv_inv_def)
    qed
  next
    case MUnlock
    have "produced args t" "woken t" "locked t" "consumed t"
      using I run MUnlock ex cnt_nonneg [of is_inc "producers s"]
      by (auto simp: produced_def woken_def locked_def consumed_def split: if_splits)
    then show ?thesis by (simp add: pcv_inv_def)
  next
    case MLock
    then have t: "t = s\<lparr>mtx := True, at := MTest\<rparr>" "\<not> mtx s" using run by (auto split: if_splits)
    have "produced args t" "woken t" "locked t" "consumed t"
      using I t(2) MLock ex unfolding t(1) by (auto simp: produced_def woken_def locked_def consumed_def)
    then show ?thesis by (simp add: pcv_inv_def)
  next
    case MRelock
    then have t: "t = s\<lparr>mtx := True, at := MTest\<rparr>" "\<not> mtx s" using run by (auto split: if_splits)
    have "produced args t" "woken t" "locked t" "consumed t"
      using I t(2) MRelock ex unfolding t(1) by (auto simp: produced_def woken_def locked_def consumed_def)
    then show ?thesis by (simp add: pcv_inv_def)
  qed (use run in simp_all)
qed

lemma pcv_step_inv: "pcv_inv args s \<Longrightarrow> pcv_step args s t \<Longrightarrow> pcv_inv args t"
proof (erule pcv_step.cases, goal_cases)
  case 3
  then show ?case by (simp add: pcv_inv_def consumed_exit)
qed (auto intro: pcv_producer_inv pcv_consumer_inv)

lemma pcv_env_inv: "pcv_inv args s \<Longrightarrow> pcv_env s t \<Longrightarrow> pcv_inv args t"
  by (erule pcv_env.cases) (auto simp: pcv_inv_def produced_def locked_def woken_def consumed_def)

section \<open>Termination\<close>

fun p_left :: "producer_at \<Rightarrow> int" where
  "p_left (PLock n j) = 9 * (n - j)"
| "p_left (PInc n j) = 9 * (n - j) - 1"
| "p_left (PSignal n j) = 9 * (n - j) - 5"
| "p_left (PEnd n) = 0"

fun m_left :: "string list \<Rightarrow> consumer_at \<Rightarrow> int" where
  "m_left args (MCreate i) = 4 + int (length args - i) + 9 * wanted (drop i args)"
| "m_left args MLock = 3"
| "m_left args MTest = 2"
| "m_left args MWait = 0"
| "m_left args MRelock = 3"
| "m_left args MUnlock = 4"
| "m_left args MDone = 0"

definition pcv_left :: "string list \<Rightarrow> pcv \<Rightarrow> int" where
  "pcv_left args s = m_left args (at s) + sumw p_left (producers s) + 3 * avail s + (if exited s = None then 1 else 0)"

lemma next_unit_left: "0 \<le> j \<Longrightarrow> j \<le> n \<Longrightarrow> p_left (next_unit n j) = 9 * (n - j)" "p_left (next_unit n 0) = 9 * max 0 n"
  by (auto simp: next_unit_def)

lemma producer_left:
  assumes "pcv_inv args s" "i < length (producers s)" "threadFunc (producers s ! i) i s = Some t"
  shows "pcv_left args t < pcv_left args s"
proof -
  have r: "in_range (producers s ! i)" using assms by (simp add: pcv_inv_def produced_def list_all_length)
  show ?thesis
    using assms(3) r by (cases "producers s ! i")
      (auto simp: pcv_left_def sumw_update [OF assms(2)] next_unit_left split: if_splits)
qed

lemma consumer_left:
  assumes "pcv_inv args s" "pcv_main args (at s) s = Some t" "exited s = None"
  shows "pcv_left args t < pcv_left args s"
proof (cases "at s")
  case (MCreate i)
  show ?thesis
  proof (cases "i < length args")
    case True
    have "wanted (drop i args) = max 0 (atoi (args ! i)) + wanted (drop (Suc i) args)"
      using True by (simp add: wanted_def Cons_nth_drop_Suc [symmetric])
    with True assms MCreate show ?thesis
      by (auto simp: pcv_left_def Let_def next_unit_left split: if_splits)
  next
    case False
    with assms MCreate show ?thesis by (auto simp: pcv_left_def)
  qed
next
  case MTest
  have "0 \<le> avail s" using assms(1) by (simp add: pcv_inv_def produced_def)
  with MTest assms show ?thesis by (auto simp: pcv_left_def consume_all_eq split: if_splits)
qed (use assms in \<open>auto simp: pcv_left_def split: if_splits\<close>)

lemma pcv_left_nonneg:
  assumes "pcv_inv args s"
  shows "0 \<le> pcv_left args s"
proof -
  have "0 \<le> p_left p" if "in_range p" for p using that by (cases p) auto
  then have "0 \<le> sumw p_left (producers s)"
    using assms by (intro sumw_nonneg) (auto simp: pcv_inv_def produced_def list_all_iff)
  moreover have "0 \<le> wanted xs" for xs by (induction xs) (auto simp: wanted_def)
  then have "0 \<le> m_left args (at s)" by (cases "at s") auto
  moreover have "0 \<le> avail s" using assms by (simp add: pcv_inv_def produced_def)
  ultimately show ?thesis by (simp add: pcv_left_def)
qed

lemma pcv_step_left:
  assumes "pcv_inv args s" "pcv_step args s t"
  shows "pcv_left args t < pcv_left args s"
  using assms(2)
proof (cases rule: pcv_step.cases)
  case (producer i)
  then show ?thesis using producer_left [OF assms(1)] by blast
next
  case consumer
  then show ?thesis using consumer_left [OF assms(1)] by blast
qed (auto simp: pcv_left_def)

lemma pcv_env_left: "pcv_env s t \<Longrightarrow> pcv_left args t \<le> pcv_left args s + 3"
  by (erule pcv_env.cases) (auto simp: pcv_left_def)

text \<open>
  A state without a step: the producers have ended, so the consumer waits for a unit although all units
  have been consumed, which happens only if none was ever to be produced.
\<close>

lemma pcv_progress:
  assumes inv: "pcv_inv args s" and run: "exited s = None" and some: "0 < wanted args"
  shows "\<exists>t. pcv_step args s t"
proof (rule ccontr)
  assume no: "\<not> ?thesis"
  note I = inv [unfolded pcv_inv_def]
  have p: "threadFunc (producers s ! i) i s = None" if "i < length (producers s)" for i
    using no producer [OF run that] by (metis option.exhaust)
  have m: "pcv_main args (at s) s = None" using no consumer [OF run] by (metis option.exhaust)
  have ni: "\<not> is_inc q" if q: "q \<in> set (producers s)" for q
  proof -
    from q obtain i where "i < length (producers s)" "q = producers s ! i" by (metis in_set_conv_nth)
    with p show ?thesis by (cases q) force+
  qed
  then have c0: "cnt is_inc (producers s) = 0" by (simp add: cnt_zero)
  then have mx: "mtx s \<longleftrightarrow> at s = MTest \<or> at s = MUnlock" using I by (simp add: locked_def)
  have w: "at s = MWait" using m mx I run
    by (cases "at s") (auto simp: consumed_def split: if_splits)
  have e: "\<exists>n. q = PEnd n" if q: "q \<in> set (producers s)" for q
  proof -
    from q obtain i where "i < length (producers s)" "q = producers s ! i" by (metis in_set_conv_nth)
    with p w mx show ?thesis by (cases q) force+
  qed
  have "cnt is_signal (producers s) = 0" using e by (fastforce simp: cnt_zero)
  then have a: "avail s = 0" using I w by (auto simp: woken_def produced_def)
  have "sumw made (producers s) = sumw quota (producers s)" by (rule sumw_cong) (use e in fastforce)
  then have "numConsumed s = wanted args" using I a w by (auto simp: produced_def)
  with I some w show False by (auto simp: consumed_def produced_def)
qed

lemma wanted_nonneg: "0 \<le> wanted args"
  by (induction args) (auto simp: wanted_def)

interpretation pcv_run: bounded_system "pcv_step args" pcv_env "pcv_inv args" "pcv_left args" 3
  "\<lambda>s. exited s \<noteq> None \<or> wanted args = 0" for args
proof unfold_locales
  show "\<exists>t. pcv_step args s t" if "pcv_inv args s" "\<not> (exited s \<noteq> None \<or> wanted args = 0)" for s
    using that pcv_progress [of args s] wanted_nonneg [of args] by auto
qed (auto intro: pcv_step_inv pcv_env_inv pcv_left_nonneg pcv_step_left pcv_env_left)

lemma made_le_wanted:
  assumes "pcv_inv args s"
  shows "avail s + numConsumed s \<le> wanted args"
proof -
  have r: "list_all in_range (producers s)" using assms by (simp add: pcv_inv_def produced_def)
  have "made p \<le> quota p" if "in_range p" for p using that by (cases p) auto
  then have "sumw made (producers s) \<le> sumw quota (producers s)" using r by (intro sumw_mono) (auto simp: list_all_iff)
  moreover have "wanted (take k args) \<le> wanted args" for k
    using wanted_simps(2) [of "take k args" "drop k args"] wanted_nonneg [of "drop k args"] by simp
  then have "wanted (take (created args (at s)) args) \<le> wanted args" .
  ultimately show ?thesis using assms by (simp add: pcv_inv_def produced_def)
qed

text \<open>Prod_condvar.c ends exactly if there is something to produce. Under every interleaving and with any number of spurious
  wakeups the number of steps is bounded, units are neither lost nor invented, and the reports count up from one. If some
  argument asks for a unit, a process that has not exited can move, so no wakeup is lost; a successful exit
  means that at least the total asked for was consumed. If no argument asks for a unit, the process never exits
  successfully.\<close>
theorem prod_condvar_correct:
  assumes "run_of (pcv_step args) pcv_env n k pcv_start t"
  shows "int n \<le> pcv_left args pcv_start + 3 * int k \<and>
    avail t + numConsumed t \<le> wanted args \<and> 0 \<le> avail t \<and> reports t = map int [1..<nat (numConsumed t) + 1] \<and>
    (if 0 < wanted args
     then ((\<exists>u. pcv_step args t u) \<or> (\<exists>h. exited t = Some h)) \<and> (\<exists>m u. run_of (pcv_step args) pcv_env m 0 t u \<and> exited u \<noteq> None)
     else exited t \<noteq> Some (Exit EXIT_SUCCESS)) \<and>
    (exited t = Some (Exit EXIT_SUCCESS) \<longrightarrow> 0 < numConsumed t \<and> totRequired t \<le> numConsumed t)"
proof -
  have t: "pcv_inv args t" by (rule pcv_run.run_inv [OF assms pcv_start_inv])
  have b: "int n \<le> pcv_left args pcv_start + 3 * int k"
    using pcv_run.run_bounded [OF pcv_start_inv assms] by (simp add: mult.commute)
  have u: "0 \<le> avail t" "reports t = map int [1..<nat (numConsumed t) + 1]" "0 \<le> numConsumed t"
    and ex: "exited t = Some (Exit EXIT_SUCCESS) \<longrightarrow> 0 < numConsumed t \<and> totRequired t \<le> numConsumed t"
    using t by (auto simp: pcv_inv_def produced_def consumed_def up_to_def)
  note w = made_le_wanted [OF t]
  have live: "((\<exists>u. pcv_step args t u) \<or> (\<exists>h. exited t = Some h)) \<and> (\<exists>m u. run_of (pcv_step args) pcv_env m 0 t u \<and> exited u \<noteq> None)"
    if "0 < wanted args"
    using pcv_run.progress [OF t] pcv_run.reaches_finished [OF t] that by auto
  have "exited t \<noteq> Some (Exit EXIT_SUCCESS)" if "\<not> 0 < wanted args" using ex w u that by linarith
  with b w u ex live show ?thesis by simp
qed

text \<open>Running a schedule: the producer that moves next, or \<open>None\<close> for the main thread.\<close>

fun pcv_schedule :: "string list \<Rightarrow> nat option list \<Rightarrow> pcv option" where
  "pcv_schedule args [] = Some pcv_start"
| "pcv_schedule args (x # xs) =
     Option.bind (pcv_schedule args xs) (\<lambda>s.
       if exited s \<noteq> None then None
       else case x of
              None \<Rightarrow> pcv_main args (at s) s
            | Some i \<Rightarrow> if i < length (producers s) then threadFunc (producers s ! i) i s else None)"

lemma pcv_schedule_run: "pcv_schedule args xs = Some t \<Longrightarrow> run_of (pcv_step args) pcv_env (length xs) 0 pcv_start t"
  by (induction xs arbitrary: t)
    (auto simp: Option.bind_eq_Some_conv intro: run_of.intros pcv_step.intros split: if_splits option.splits)

definition pcv_demo_end :: pcv where
  "pcv_demo_end = \<lparr>mtx = False, avail = 0, producers = [PEnd 1], totRequired = 1, numConsumed = 1, all_done = True, at = MDone,
     reports = [1], exited = Some (Exit EXIT_SUCCESS)\<rparr>"

lemma pcv_demo:
  "pcv_schedule [''1''] (rev [None, None, None, None, Some 0, Some 0, Some 0, None, None, None]) = Some pcv_demo_end"
proof -
  have a: "atoi ''1'' = 1" by (simp add: atoi_def strtol_def isspace_def number_base_def is_digit_def digit_val_def
      digits_value_def int_of_long_def LONG_MAX_def LONG_MIN_def)
  show ?thesis by (simp add: pcv_start_def a INT_MIN_def INT_MAX_def next_unit_def pcv_demo_end_def Let_def)
qed

theorem prod_condvar_correct_witness:
  "run_of (pcv_step [''1'']) pcv_env 10 0 pcv_start pcv_demo_end \<and> 10 \<le> pcv_left [''1''] pcv_start \<and>
   totRequired pcv_demo_end \<le> numConsumed pcv_demo_end"
proof -
  have r: "run_of (pcv_step [''1'']) pcv_env 10 0 pcv_start pcv_demo_end" using pcv_schedule_run [OF pcv_demo] by (simp add: eval_nat_numeral)
  show ?thesis using prod_condvar_correct [OF r] r by (auto simp: pcv_demo_end_def)
qed

end
