(* ===== verification/Multijoin.thy ===== *)
theory Multijoin
  imports Bounded_System Get_Num
begin

text \<open>
  A thread that joins its children in the order in which they end: \<^verbatim>\<open>threads/thread_multijoin.c\<close>.
  Every child records its termination under the mutex and signals the condition variable
  afterwards; the main thread scans the records while it holds the mutex and joins.
  The lemmas show that all children are joined and that the main thread, which may block in
  \<^verbatim>\<open>pthread_join()\<close> with the mutex locked, never deadlocks.
\<close>

section \<open>The program\<close>

datatype tstate = TS_ALIVE | TS_TERMINATED | TS_JOINED

text \<open>A child at work (before locking), with the mutex, before signalling, returned.\<close>

datatype child_at = TWork | TMark | TSig | TRet

record child =
  state :: tstate
  at :: child_at

datatype main_at = JCreate nat | JLoop | JTest | JWait | JRelock | JScan nat

record mj =
  mtx :: bool
  numLive :: int
  numUnjoined :: int
  thread :: "child list"
  mpc :: main_at
  reaped :: "(nat \<times> int) list"    \<comment> \<open>what was printed: the thread and \<open>numLive\<close>\<close>
  exited :: "halt option"

fun threadFunc :: "child_at \<Rightarrow> nat \<Rightarrow> mj \<Rightarrow> mj option" where
  "threadFunc TWork i s =
     (if mtx s then None else Some (s\<lparr>mtx := True, thread := (thread s)[i := (thread s ! i)\<lparr>at := TMark\<rparr>]\<rparr>))"
| "threadFunc TMark i s =
     Some (s\<lparr>numUnjoined := numUnjoined s + 1, mtx := False,
             thread := (thread s)[i := \<lparr>state = TS_TERMINATED, at = TSig\<rparr>]\<rparr>)"
| "threadFunc TSig i s =
     Some (s\<lparr>mpc := (if mpc s = JWait then JRelock else mpc s), thread := (thread s)[i := (thread s ! i)\<lparr>at := TRet\<rparr>]\<rparr>)"
| "threadFunc TRet i s = None"

text \<open>The main thread creates \<open>n\<close> children.\<close>

fun mj_main :: "nat \<Rightarrow> main_at \<Rightarrow> mj \<Rightarrow> mj option" where
  "mj_main n (JCreate idx) s =
     Some (if idx < n then s\<lparr>thread := thread s @ [\<lparr>state = TS_ALIVE, at = TWork\<rparr>], mpc := JCreate (Suc idx)\<rparr>
           else s\<lparr>numLive := int n, mpc := JLoop\<rparr>)"
| "mj_main n JLoop s =
     (if numLive s > 0 then (if mtx s then None else Some (s\<lparr>mtx := True, mpc := JTest\<rparr>))
      else Some (s\<lparr>exited := Some (Exit EXIT_SUCCESS)\<rparr>))"
| "mj_main n JTest s = Some (if numUnjoined s = 0 then s\<lparr>mtx := False, mpc := JWait\<rparr> else s\<lparr>mpc := JScan 0\<rparr>)"
| "mj_main n JWait s = None"
| "mj_main n JRelock s = (if mtx s then None else Some (s\<lparr>mtx := True, mpc := JTest\<rparr>))"
| "mj_main n (JScan idx) s =
     (if idx < n then
        if state (thread s ! idx) = TS_TERMINATED then
          if at (thread s ! idx) = TRet
          then Some (s\<lparr>thread := (thread s)[idx := (thread s ! idx)\<lparr>state := TS_JOINED\<rparr>], numLive := numLive s - 1,
                       numUnjoined := numUnjoined s - 1, reaped := reaped s @ [(idx, numLive s - 1)], mpc := JScan (Suc idx)\<rparr>)
          else None
        else Some (s\<lparr>mpc := JScan (Suc idx)\<rparr>)
      else Some (s\<lparr>mtx := False, mpc := JLoop\<rparr>))"

inductive mj_step :: "nat \<Rightarrow> mj \<Rightarrow> mj \<Rightarrow> bool" for n where
  child: "exited s = None \<Longrightarrow> i < length (thread s) \<Longrightarrow> threadFunc (at (thread s ! i)) i s = Some t \<Longrightarrow> mj_step n s t"
| main: "exited s = None \<Longrightarrow> mj_main n (mpc s) s = Some t \<Longrightarrow> mj_step n s t"
| create_fails: "exited s = None \<Longrightarrow> mpc s = JCreate i \<Longrightarrow> i < n \<Longrightarrow> mj_step n s (s\<lparr>exited := Some (Exit EXIT_FAILURE)\<rparr>)"

inductive mj_env :: "mj \<Rightarrow> mj \<Rightarrow> bool" where
  spurious: "exited s = None \<Longrightarrow> mpc s = JWait \<Longrightarrow> mj_env s (s\<lparr>mpc := JRelock\<rparr>)"

definition mj_start :: mj where
  "mj_start = \<lparr>mtx = False, numLive = 0, numUnjoined = 0, thread = [], mpc = JCreate 0, reaped = [], exited = None\<rparr>"

section \<open>Invariant\<close>

abbreviation is_term :: "child \<Rightarrow> bool" where "is_term c \<equiv> state c = TS_TERMINATED"
abbreviation is_joined :: "child \<Rightarrow> bool" where "is_joined c \<equiv> state c = TS_JOINED"
abbreviation is_mark :: "child \<Rightarrow> bool" where "is_mark c \<equiv> at c = TMark"
abbreviation is_sig :: "child \<Rightarrow> bool" where "is_sig c \<equiv> at c = TSig"

fun proper :: "child \<Rightarrow> bool" where
  "proper \<lparr>state = st, at = a\<rparr> =
     (case st of TS_ALIVE \<Rightarrow> a = TWork \<or> a = TMark | TS_TERMINATED \<Rightarrow> a = TSig \<or> a = TRet | TS_JOINED \<Rightarrow> a = TRet)"

fun scanning :: "main_at \<Rightarrow> bool" where
  "scanning (JScan i) = True" | "scanning _ = False"

abbreviation (input) main_holds :: "main_at \<Rightarrow> bool" where
  "main_holds m \<equiv> m = JTest \<or> scanning m"

fun created :: "nat \<Rightarrow> main_at \<Rightarrow> nat" where
  "created n (JCreate i) = i" | "created n _ = n"

definition counted :: "nat \<Rightarrow> mj \<Rightarrow> bool" where
  "counted n s \<longleftrightarrow>
     list_all proper (thread s) \<and> length (thread s) = created n (mpc s) \<and> created n (mpc s) \<le> n \<and>
     numUnjoined s = cnt is_term (thread s)"

fun live_ok :: "nat \<Rightarrow> main_at \<Rightarrow> int \<Rightarrow> int \<Rightarrow> bool" where
  "live_ok n (JCreate i) live joined = (joined = 0)"
| "live_ok n (JScan i) live joined = (live = int n - joined \<and> i \<le> n)"
| "live_ok n JLoop live joined = (live = int n - joined)"
| "live_ok n _ live joined = (live = int n - joined \<and> 0 < live)"

definition locked :: "mj \<Rightarrow> bool" where
  "locked s \<longleftrightarrow>
     (mtx s \<longleftrightarrow> main_holds (mpc s) \<or> 0 < cnt is_mark (thread s)) \<and>
     cnt is_mark (thread s) + (if main_holds (mpc s) then 1 else 0) \<le> 1"

definition woken :: "mj \<Rightarrow> bool" where
  "woken s \<longleftrightarrow> (mpc s = JWait \<and> 0 < numUnjoined s \<longrightarrow> 0 < cnt is_sig (thread s))"

definition ended :: "nat \<Rightarrow> mj \<Rightarrow> bool" where
  "ended n s \<longleftrightarrow> exited s = None \<or> exited s = Some (Exit EXIT_FAILURE) \<or>
     exited s = Some (Exit EXIT_SUCCESS) \<and> cnt is_joined (thread s) = int n"

definition logged :: "nat \<Rightarrow> mj \<Rightarrow> bool" where
  "logged n s \<longleftrightarrow> distinct (map fst (reaped s)) \<and>
     set (map fst (reaped s)) = {i. i < length (thread s) \<and> is_joined (thread s ! i)}"

definition mj_inv :: "nat \<Rightarrow> mj \<Rightarrow> bool" where
  "mj_inv n s \<longleftrightarrow> counted n s \<and> live_ok n (mpc s) (numLive s) (cnt is_joined (thread s)) \<and> locked s \<and> woken s \<and>
     ended n s \<and> logged n s"

lemma mj_start_inv: "mj_inv n mj_start"
  by (simp add: mj_inv_def mj_start_def counted_def locked_def woken_def ended_def logged_def)

lemma proper_at:
  "proper c \<Longrightarrow> at c = TWork \<or> at c = TMark \<Longrightarrow> state c = TS_ALIVE"
  "proper c \<Longrightarrow> at c = TSig \<Longrightarrow> state c = TS_TERMINATED"
  "proper c \<Longrightarrow> at c = TRet \<Longrightarrow> state c \<noteq> TS_ALIVE"
  by (cases c; auto split: tstate.splits)+

lemma joined_update:
  "i < length xs \<Longrightarrow> is_joined c = is_joined (xs ! i) \<Longrightarrow> {j. j < length (xs[i := c]) \<and> is_joined (xs[i := c] ! j)} = {j. j < length xs \<and> is_joined (xs ! j)}"
  by (auto simp: nth_list_update)

lemma child_inv:
  assumes inv: "mj_inv n s" and i: "i < length (thread s)" and run: "threadFunc (at (thread s ! i)) i s = Some t"
    and ex: "exited s = None"
  shows "mj_inv n t"
proof -
  note I = inv [unfolded mj_inv_def]
  have p: "proper (thread s ! i)" using I i by (simp add: counted_def list_all_length)
  have la: "list_all proper ((thread s)[i := c])" if "proper c" for c
    using I that by (auto simp: counted_def list_all_iff dest: set_update_subset_insert [THEN subsetD])
  note u = sumw_update [OF i]
  show ?thesis
  proof (cases "at (thread s ! i)")
    case TWork
    let ?c = "(thread s ! i)\<lparr>at := TMark\<rparr>"
    from TWork run have m: "\<not> mtx s" and t: "t = s\<lparr>mtx := True, thread := (thread s)[i := ?c]\<rparr>"
      by (auto split: if_splits)
    have st: "state (thread s ! i) = TS_ALIVE" using proper_at(1) [OF p] TWork by simp
    have pc: "proper ?c" using p TWork st by (cases "thread s ! i") auto
    have "cnt is_mark (thread s) = 0" using I m cnt_nonneg [of is_mark "thread s"] by (auto simp: locked_def)
    then have "locked t" using I m TWork unfolding t by (auto simp: locked_def u)
    moreover have "counted n t" using I la [OF pc] st unfolding t by (simp add: counted_def u)
    moreover have "live_ok n (mpc t) (numLive t) (cnt is_joined (thread t))" "woken t" "ended n t"
      using I ex st TWork unfolding t by (simp_all add: woken_def ended_def u)
    moreover have "logged n t" using I joined_update [OF i, of ?c] unfolding t by (simp add: logged_def)
    ultimately show ?thesis by (simp add: mj_inv_def)
  next
    case TMark
    let ?c = "\<lparr>state = TS_TERMINATED, at = TSig\<rparr>"
    from TMark run have t: "t = s\<lparr>numUnjoined := numUnjoined s + 1, mtx := False, thread := (thread s)[i := ?c]\<rparr>" by simp
    have st: "state (thread s ! i) = TS_ALIVE" using proper_at(1) [OF p] TMark by simp
    have "1 \<le> cnt is_mark (thread s)" by (rule cnt_at [OF i]) (simp add: TMark)
    moreover have "cnt is_mark (thread s) + (if main_holds (mpc s) then 1 else 0) \<le> 1" using I by (simp add: locked_def)
    ultimately have h: "cnt is_mark (thread s) = 1" "mpc s \<noteq> JTest" "\<not> scanning (mpc s)" by (auto split: if_splits)
    then have "locked t" using TMark unfolding t by (simp add: locked_def u)
    moreover have "counted n t" using I la [of ?c] st unfolding t by (simp add: counted_def u)
    moreover have "live_ok n (mpc t) (numLive t) (cnt is_joined (thread t))" "ended n t"
      using I ex st unfolding t by (simp_all add: ended_def u)
    moreover have "0 \<le> cnt is_sig (thread s)" by simp
    then have "woken t" using TMark unfolding t by (simp add: woken_def u)
    moreover have "logged n t" using I st joined_update [OF i, of ?c] unfolding t by (simp add: logged_def)
    ultimately show ?thesis by (simp add: mj_inv_def)
  next
    case TSig
    let ?c = "(thread s ! i)\<lparr>at := TRet\<rparr>"
    from TSig run have t: "t = s\<lparr>mpc := (if mpc s = JWait then JRelock else mpc s), thread := (thread s)[i := ?c]\<rparr>" by simp
    have st: "state (thread s ! i) = TS_TERMINATED" using proper_at(2) [OF p TSig] .
    have pc: "proper ?c" using st by (cases "thread s ! i") auto
    have "locked t" using I TSig unfolding t by (auto simp: locked_def u)
    moreover have "counted n t" using I la [OF pc] st unfolding t by (auto simp: counted_def u)
    moreover have "live_ok n (mpc t) (numLive t) (cnt is_joined (thread t))"
      using I st unfolding t by (auto simp: u)
    moreover have "ended n t" "woken t" using ex unfolding t by (simp_all add: ended_def woken_def)
    moreover have "logged n t" using I joined_update [OF i, of ?c] unfolding t by (simp add: logged_def)
    ultimately show ?thesis by (simp add: mj_inv_def)
  qed (use run in simp)
qed

lemma main_inv:
  assumes inv: "mj_inv n s" and run: "mj_main n (mpc s) s = Some t" and ex: "exited s = None"
  shows "mj_inv n t"
proof -
  note I = inv [unfolded mj_inv_def]
  note defs = counted_def locked_def woken_def ended_def logged_def
  show ?thesis
  proof (cases "mpc s")
    case (JCreate i)
    show ?thesis
    proof (cases "i < n")
      case True
      with run JCreate have t: "t = s\<lparr>thread := thread s @ [\<lparr>state = TS_ALIVE, at = TWork\<rparr>], mpc := JCreate (Suc i)\<rparr>" by simp
      have "{j. j < length (thread t) \<and> is_joined (thread t ! j)} = {j. j < length (thread s) \<and> is_joined (thread s ! j)}"
        unfolding t by (auto simp: nth_append)
      then show ?thesis using I JCreate True ex unfolding t mj_inv_def by (simp add: defs)
    next
      case False
      with run JCreate have t: "t = s\<lparr>numLive := int n, mpc := JLoop\<rparr>" by simp
      show ?thesis using I JCreate False ex unfolding t mj_inv_def by (simp add: defs)
    qed
  next
    case (JScan i)
    show ?thesis
    proof (cases "i < n")
      case in_range: True
      have i: "i < length (thread s)" using I JScan in_range by (simp add: counted_def)
      show ?thesis
      proof (cases "is_term (thread s ! i)")
        case True
        let ?c = "(thread s ! i)\<lparr>state := TS_JOINED\<rparr>"
        from True run JScan in_range have ret: "at (thread s ! i) = TRet"
          and t: "t = s\<lparr>thread := (thread s)[i := ?c], numLive := numLive s - 1, numUnjoined := numUnjoined s - 1,
            reaped := reaped s @ [(i, numLive s - 1)], mpc := JScan (Suc i)\<rparr>" by (auto split: if_splits)
        have pc: "proper ?c" using ret by (cases "thread s ! i") auto
        have la: "list_all proper ((thread s)[i := ?c])"
          using I pc by (auto simp: counted_def list_all_iff dest: set_update_subset_insert [THEN subsetD])
        note u = sumw_update [OF i]
        have j: "{j. j < length (thread s) \<and> is_joined ((thread s)[i := ?c] ! j)} =
            insert i {j. j < length (thread s) \<and> is_joined (thread s ! j)}"
          using i by (auto simp: nth_list_update)
        have "i \<notin> set (map fst (reaped s))" using I True by (auto simp: logged_def)
        then have "logged n t" using I j unfolding t by (simp add: logged_def)
        moreover have "counted n t" using I la True JScan unfolding t by (simp add: counted_def u)
        moreover have "live_ok n (mpc t) (numLive t) (cnt is_joined (thread t))" "locked t" "woken t" "ended n t"
          using I JScan True in_range ret ex unfolding t by (simp_all add: u locked_def woken_def ended_def)
        ultimately show ?thesis by (simp add: mj_inv_def)
      next
        case False
        with run JScan in_range have t: "t = s\<lparr>mpc := JScan (Suc i)\<rparr>" by simp
        show ?thesis using I JScan in_range ex unfolding t mj_inv_def by (simp add: defs)
      qed
    next
      case False
      with run JScan have t: "t = s\<lparr>mtx := False, mpc := JLoop\<rparr>" by simp
      show ?thesis using I JScan ex cnt_nonneg [of is_mark "thread s"] unfolding t mj_inv_def by (simp add: defs)
    qed
  next
    case JLoop
    show ?thesis
    proof (cases "numLive s > 0")
      case True
      with run JLoop have m: "\<not> mtx s" and t: "t = s\<lparr>mtx := True, mpc := JTest\<rparr>" by (auto split: if_splits)
      have "cnt is_mark (thread s) = 0" using I m cnt_nonneg [of is_mark "thread s"] by (auto simp: locked_def)
      then show ?thesis using I JLoop True ex unfolding t mj_inv_def by (simp add: defs)
    next
      case False
      with run JLoop have t: "t = s\<lparr>exited := Some (Exit EXIT_SUCCESS)\<rparr>" by simp
      have "cnt is_joined (thread s) = int n"
        using I JLoop False cnt_le_length [of is_joined "thread s"] by (simp add: counted_def)
      then show ?thesis using I JLoop unfolding t mj_inv_def by (simp add: defs)
    qed
  next
    case JTest
    show ?thesis
    proof (cases "numUnjoined s = 0")
      case True
      with run JTest have t: "t = s\<lparr>mtx := False, mpc := JWait\<rparr>" by simp
      show ?thesis using I JTest True ex cnt_nonneg [of is_mark "thread s"] unfolding t mj_inv_def by (simp add: defs)
    next
      case False
      with run JTest have t: "t = s\<lparr>mpc := JScan 0\<rparr>" by simp
      show ?thesis using I JTest ex unfolding t mj_inv_def by (simp add: defs)
    qed
  next
    case JRelock
    with run have m: "\<not> mtx s" and t: "t = s\<lparr>mtx := True, mpc := JTest\<rparr>" by (auto split: if_splits)
    have "cnt is_mark (thread s) = 0" using I m cnt_nonneg [of is_mark "thread s"] by (auto simp: locked_def)
    then show ?thesis using I JRelock ex unfolding t mj_inv_def by (simp add: defs)
  qed (use run in simp)
qed

lemma mj_step_inv:
  assumes "mj_inv n s" "mj_step n s t"
  shows "mj_inv n t"
  using assms(2)
proof (cases rule: mj_step.cases)
  case (child i)
  then show ?thesis using child_inv [OF assms(1)] by blast
next
  case main
  then show ?thesis using main_inv [OF assms(1)] by blast
next
  case (create_fails i)
  with assms(1) show ?thesis by (simp add: mj_inv_def counted_def locked_def woken_def ended_def logged_def)
qed

lemma mj_env_inv: "mj_inv n s \<Longrightarrow> mj_env s t \<Longrightarrow> mj_inv n t"
  by (erule mj_env.cases) (simp add: mj_inv_def counted_def locked_def woken_def ended_def logged_def)

section \<open>Termination\<close>

definition t_left :: "nat \<Rightarrow> child \<Rightarrow> int" where
  "t_left n c = (case at c of TWork \<Rightarrow> int n + 18 | TMark \<Rightarrow> int n + 17 | TSig \<Rightarrow> int n + 16 | TRet \<Rightarrow> 0)"

text \<open>A scan that has not yet met all the terminated threads is sure to join one.\<close>

fun m_left :: "nat \<Rightarrow> child list \<Rightarrow> main_at \<Rightarrow> int" where
  "m_left n ts (JCreate i) = int n + 16 + int (n - i) * (int n + 19)"
| "m_left n ts JLoop = int n + 14"
| "m_left n ts JTest = int n + 12"
| "m_left n ts JWait = 0"
| "m_left n ts JRelock = int n + 13"
| "m_left n ts (JScan i) = int (n - i) + (if 0 < cnt is_term (drop i ts) then 0 else int n + 15)"

definition mj_left :: "nat \<Rightarrow> mj \<Rightarrow> int" where
  "mj_left n s = m_left n (thread s) (mpc s) + sumw (t_left n) (thread s) + (2 * int n + 30) * (int n - cnt is_joined (thread s)) +
     (if exited s = None then 1 else 0)"

lemma cnt_term_drop:
  assumes "i < length ts" "state c = state (ts ! i)"
  shows "cnt is_term (drop k (ts[i := c])) = cnt is_term (drop k ts)"
proof -
  have "map state (ts[i := c]) = map state ts" using assms by (simp add: map_update list_update_same_conv)
  then have "map state (drop k (ts[i := c])) = map state (drop k ts)" by (metis drop_map)
  then show ?thesis by (rule sumw_map_eq [of state _ _ "\<lambda>st. if st = TS_TERMINATED then 1 else 0"])
qed

lemma m_left_update: "i < length ts \<Longrightarrow> state c = state (ts ! i) \<Longrightarrow> m_left n (ts[i := c]) m = m_left n ts m"
  by (cases m) (simp_all add: cnt_term_drop)

lemma m_left_other: "\<not> scanning m \<Longrightarrow> m_left n ts m = m_left n ts' m"
  by (cases m) simp_all

lemma child_left:
  assumes inv: "mj_inv n s" and i: "i < length (thread s)" and run: "threadFunc (at (thread s ! i)) i s = Some t"
  shows "mj_left n t < mj_left n s"
proof -
  note I = inv [unfolded mj_inv_def] and u = sumw_update [OF i]
  have p: "proper (thread s ! i)" using I i by (simp add: counted_def list_all_length)
  show ?thesis
  proof (cases "at (thread s ! i)")
    case TWork
    with run show ?thesis by (auto simp: mj_left_def u t_left_def m_left_update [OF i] split: if_splits)
  next
    case TMark
    have "1 \<le> cnt is_mark (thread s)" by (rule cnt_at [OF i]) (simp add: TMark)
    then have "\<not> scanning (mpc s)" using I by (auto simp: locked_def split: if_splits)
    from m_left_other [OF this, of n "(thread s)[i := \<lparr>state = TS_TERMINATED, at = TSig\<rparr>]" "thread s"]
    show ?thesis using run TMark proper_at(1) [OF p] by (auto simp: mj_left_def u t_left_def)
  next
    case TSig
    with run show ?thesis by (auto simp: mj_left_def u t_left_def m_left_update [OF i] split: if_splits)
  qed (use run in simp)
qed

lemma main_left:
  assumes inv: "mj_inv n s" and run: "mj_main n (mpc s) s = Some t" and ex: "exited s = None"
  shows "mj_left n t < mj_left n s"
proof -
  note I = inv [unfolded mj_inv_def]
  show ?thesis
  proof (cases "mpc s")
    case (JCreate i)
    have "int (n - i) * (int n + 19) = int (n - Suc i) * (int n + 19) + int n + 19" if "i < n"
      using that by (simp add: of_nat_diff algebra_simps)
    with JCreate run ex show ?thesis by (auto simp: mj_left_def t_left_def split: if_splits)
  next
    case JTest
    have "0 < cnt is_term (thread s)" if "numUnjoined s \<noteq> 0"
      using that I by (simp add: counted_def less_le)
    with JTest run show ?thesis by (auto simp: mj_left_def split: if_splits)
  next
    case (JScan i)
    show ?thesis
    proof (cases "i < n")
      case True
      then have i: "i < length (thread s)" using I JScan by (simp add: counted_def)
      have d: "drop i (thread s) = thread s ! i # drop (Suc i) (thread s)" by (rule Cons_nth_drop_Suc [OF i, symmetric])
      show ?thesis
      proof (cases "is_term (thread s ! i)")
        case True
        have "0 \<le> cnt is_term (drop (Suc i) (thread s))" by simp
        with True JScan run \<open>i < n\<close> show ?thesis
          by (auto simp: mj_left_def d sumw_update [OF i] t_left_def algebra_simps split: if_splits)
      next
        case False
        with JScan run \<open>i < n\<close> show ?thesis by (auto simp: mj_left_def d)
      qed
    next
      case False
      then have "drop i (thread s) = []" using I JScan by (simp add: counted_def)
      with False JScan run show ?thesis by (auto simp: mj_left_def)
    qed
  qed (use run ex in \<open>auto simp: mj_left_def split: if_splits\<close>)
qed

lemma mj_step_left:
  assumes "mj_inv n s" "mj_step n s t"
  shows "mj_left n t < mj_left n s"
  using assms(2)
proof (cases rule: mj_step.cases)
  case (child i)
  then show ?thesis using child_left [OF assms(1)] by blast
next
  case main
  then show ?thesis using main_left [OF assms(1)] by blast
qed (auto simp: mj_left_def)

lemma cnt_joined_le: "mj_inv n s \<Longrightarrow> cnt is_joined (thread s) \<le> int n"
  using cnt_le_length [of is_joined "thread s"] by (auto simp: mj_inv_def counted_def)

lemma mj_left_nonneg:
  assumes "mj_inv n s"
  shows "0 \<le> mj_left n s"
proof -
  have "0 \<le> sumw (t_left n) (thread s)" by (rule sumw_nonneg) (simp add: t_left_def split: child_at.splits)
  moreover have "0 \<le> m_left n (thread s) (mpc s)" by (cases "mpc s") auto
  moreover have "0 \<le> (2 * int n + 30) * (int n - cnt is_joined (thread s))"
    using cnt_joined_le [OF assms] by simp
  ultimately show ?thesis by (simp add: mj_left_def)
qed

lemma mj_progress:
  assumes inv: "mj_inv n s" and run: "exited s = None"
  shows "\<exists>t. mj_step n s t"
proof (rule ccontr)
  assume no: "\<not> ?thesis"
  note I = inv [unfolded mj_inv_def]
  have p: "threadFunc (at (thread s ! i)) i s = None" if "i < length (thread s)" for i
    using no child [OF run that] by (metis option.exhaust)
  have m: "mj_main n (mpc s) s = None" using no main [OF run] by (metis option.exhaust)
  have nm: "at c = TWork \<or> at c = TRet" if c: "c \<in> set (thread s)" for c
  proof -
    from c obtain i where i: "i < length (thread s)" "c = thread s ! i" by (metis in_set_conv_nth)
    with p [OF i(1)] show ?thesis by (cases "at c") auto
  qed
  then have "cnt is_mark (thread s) = 0" by (fastforce simp: cnt_zero)
  then have mx: "mtx s \<longleftrightarrow> mpc s = JTest \<or> scanning (mpc s)" using I by (simp add: locked_def)
  have "mpc s = JWait"
  proof (cases "mpc s")
    case (JScan i)
    with m have i: "i < n" "is_term (thread s ! i)" "at (thread s ! i) \<noteq> TRet" by (auto split: if_splits)
    then have "i < length (thread s)" using I JScan by (simp add: counted_def)
    with nm i proper_at(1) [of "thread s ! i"] I show ?thesis
      by (metis counted_def list_all_length nth_mem tstate.distinct(1))
  qed (use m mx in \<open>auto split: if_splits\<close>)
  with mx have w: "mpc s = JWait" "\<not> mtx s" by auto
  have ret: "at c = TRet" if c: "c \<in> set (thread s)" for c
  proof -
    from c obtain i where i: "i < length (thread s)" "c = thread s ! i" by (metis in_set_conv_nth)
    with p [OF i(1)] w(2) nm [OF c] show ?thesis by (cases "at c") auto
  qed
  then have "cnt is_sig (thread s) = 0" by (fastforce simp: cnt_zero)
  then have "\<not> 0 < cnt is_term (thread s)" using I w by (simp add: woken_def counted_def)
  then have "cnt is_term (thread s) = 0" using cnt_nonneg [of is_term "thread s"] by linarith
  then have nt: "\<forall>c\<in>set (thread s). \<not> is_term c" by (simp add: cnt_zero)
  have "is_joined c" if c: "c \<in> set (thread s)" for c
  proof -
    have "proper c" using I c by (simp add: counted_def list_all_iff)
    with nt c proper_at(3) [OF _ ret [OF c]] show ?thesis by (cases "state c") auto
  qed
  then have "cnt is_joined (thread s) = int (length (thread s))"
    by (rule cnt_all)
  with I w show False by (auto simp: counted_def)
qed

interpretation mj_run: bounded_system "mj_step n" mj_env "mj_inv n" "mj_left n" "int n + 13" "\<lambda>s. exited s \<noteq> None" for n
proof unfold_locales
  show "mj_left n t \<le> mj_left n s + (int n + 13)" if "mj_env s t" for s t
    using that by (cases rule: mj_env.cases) (simp add: mj_left_def)
  show "\<exists>t. mj_step n s t" if "mj_inv n s" "\<not> exited s \<noteq> None" for s
    using that mj_progress by simp
qed (auto intro: mj_step_inv mj_env_inv mj_left_nonneg mj_step_left)

text \<open>C27: thread_multijoin.c joins every thread once and ends. Under every interleaving and with any number of spurious wakeups
  the number of steps is bounded, a process that has not exited can move, although the main thread waits for threads
  to end while it holds the mutex, no thread is reported twice, the reported threads are those joined, and a successful
  exit means that all were.\<close>
theorem multijoin_correct:
  assumes "run_of (mj_step n) mj_env m k mj_start t"
  shows "int m \<le> mj_left n mj_start + (int n + 13) * int k \<and>
    ((\<exists>u. mj_step n t u) \<or> (\<exists>h. exited t = Some h)) \<and>
    (\<exists>l u. run_of (mj_step n) mj_env l 0 t u \<and> exited u \<noteq> None) \<and>
    distinct (map fst (reaped t)) \<and>
    set (map fst (reaped t)) = {i. i < length (thread t) \<and> state (thread t ! i) = TS_JOINED} \<and>
    (exited t = Some (Exit EXIT_SUCCESS) \<longrightarrow> length (thread t) = n \<and> list_all (\<lambda>c. state c = TS_JOINED) (thread t))"
proof -
  have t: "mj_inv n t" by (rule mj_run.run_inv [OF assms mj_start_inv])
  have b: "int m \<le> mj_left n mj_start + (int n + 13) * int k"
    using mj_run.run_bounded [OF mj_start_inv assms] by (simp add: mult.commute)
  have e: "exited t = Some (Exit EXIT_SUCCESS) \<longrightarrow> length (thread t) = n \<and> list_all is_joined (thread t)"
  proof
    assume "exited t = Some (Exit EXIT_SUCCESS)"
    with t have c: "cnt is_joined (thread t) = int n" and l: "length (thread t) \<le> n"
      by (auto simp: mj_inv_def ended_def counted_def)
    have s: "cnt is_joined (thread t) + cnt (\<lambda>x. \<not> is_joined x) (thread t) = int (length (thread t))"
      by (rule cnt_compl)
    have "0 \<le> cnt (\<lambda>x. \<not> is_joined x) (thread t)" by simp
    then have "length (thread t) = n" "cnt (\<lambda>x. \<not> is_joined x) (thread t) = 0" using c l s by linarith+
    then show "length (thread t) = n \<and> list_all is_joined (thread t)" by (simp add: cnt_zero list_all_iff)
  qed
  show ?thesis
    using b e t mj_run.progress [OF t] mj_run.reaches_finished [OF t] by (auto simp: mj_inv_def logged_def)
qed

text \<open>Running a schedule: the child that moves next, or \<open>None\<close> for the main thread.\<close>

fun mj_schedule :: "nat \<Rightarrow> nat option list \<Rightarrow> mj option" where
  "mj_schedule n [] = Some mj_start"
| "mj_schedule n (x # xs) =
     Option.bind (mj_schedule n xs) (\<lambda>s.
       if exited s \<noteq> None then None
       else case x of
              None \<Rightarrow> mj_main n (mpc s) s
            | Some i \<Rightarrow> if i < length (thread s) then threadFunc (at (thread s ! i)) i s else None)"

lemma mj_schedule_run: "mj_schedule n xs = Some t \<Longrightarrow> run_of (mj_step n) mj_env (length xs) 0 mj_start t"
  by (induction xs arbitrary: t)
    (auto simp: Option.bind_eq_Some_conv intro: run_of.intros mj_step.intros split: if_splits option.splits)

definition mj_demo_end :: mj where
  "mj_demo_end = \<lparr>mtx = False, numLive = 0, numUnjoined = 0, thread = [\<lparr>state = TS_JOINED, at = TRet\<rparr>], mpc = JLoop,
     reaped = [(0, 0)], exited = Some (Exit EXIT_SUCCESS)\<rparr>"

text \<open>The main thread waits, the child ends and wakes it.\<close>

lemma mj_demo:
  "mj_schedule 1 (rev [None, None, None, None, Some 0, Some 0, Some 0, None, None, None, None, None]) = Some mj_demo_end"
  by (simp add: mj_start_def mj_demo_end_def)

theorem multijoin_correct_witness:
  "run_of (mj_step 1) mj_env 12 0 mj_start mj_demo_end \<and> 12 \<le> mj_left 1 mj_start \<and> length (thread mj_demo_end) = 1"
proof -
  have r: "run_of (mj_step 1) mj_env 12 0 mj_start mj_demo_end"
    using mj_schedule_run [OF mj_demo] by (simp add: eval_nat_numeral)
  show ?thesis using multijoin_correct [OF r] r by (simp add: mj_demo_end_def)
qed

end
