(* ===== verification/Barrier.thy ===== *)
theory Barrier
  imports Bounded_System
begin

text \<open>
  Threads that meet at a barrier again and again: \<^verbatim>\<open>threads/pthread_barrier_demo.c\<close>.  The barrier opens when
  the number of waiting threads reaches its limit; the thread that opens it gets the special
  return value.  The lemmas show that no thread passes a barrier before all have arrived
  at it, that each barrier has exactly one serial thread, and that the program ends.
\<close>

section \<open>The program\<close>

text \<open>
  A thread before barrier \<open>j\<close>, waiting at it, past it (with the special return value or
  without), at the end of its loop, returned.
\<close>

datatype bthread = BSleep nat | BWait nat | BPass nat bool | BFin | BEnd

datatype bmain = BInit | BCreate nat | BJoin nat

record bar =
  threads :: "bthread list"
  serial :: "(nat \<times> nat) list"     \<comment> \<open>the threads with the special return value, and the barrier\<close>
  mpc :: bmain
  exited :: "halt option"

definition next_barrier :: "int \<Rightarrow> nat \<Rightarrow> bthread" where
  "next_barrier numBarriers j = (if int j < numBarriers then BSleep j else BFin)"

fun wake :: "bthread \<Rightarrow> bthread" where
  "wake (BWait j) = BPass j False"
| "wake t = t"

fun is_waiting :: "bthread \<Rightarrow> bool" where
  "is_waiting (BWait j) = True" | "is_waiting _ = False"

text \<open>\<^verbatim>\<open>pthread_barrier_wait()\<close>: the last of \<open>n\<close> threads to arrive opens the barrier for all.\<close>

definition barrier_wait :: "nat \<Rightarrow> nat \<Rightarrow> nat \<Rightarrow> bar \<Rightarrow> bar" where
  "barrier_wait n i j s =
     (if cnt is_waiting (threads s) + 1 = int n
      then s\<lparr>threads := (map wake (threads s))[i := BPass j True], serial := serial s @ [(i, j)]\<rparr>
      else s\<lparr>threads := (threads s)[i := BWait j]\<rparr>)"

fun threadFunc :: "int \<Rightarrow> nat \<Rightarrow> bthread \<Rightarrow> nat \<Rightarrow> bar \<Rightarrow> bar option" where
  "threadFunc numBarriers n (BSleep j) i s = Some (barrier_wait n i j s)"
| "threadFunc numBarriers n (BPass j b) i s = Some (s\<lparr>threads := (threads s)[i := next_barrier numBarriers (Suc j)]\<rparr>)"
| "threadFunc numBarriers n BFin i s = Some (s\<lparr>threads := (threads s)[i := BEnd]\<rparr>)"
| "threadFunc numBarriers n _ i s = None"

text \<open>The barrier cannot be initialised for no threads, and the array of a negative length not allocated.\<close>

fun bar_main :: "int \<Rightarrow> int \<Rightarrow> bmain \<Rightarrow> bar \<Rightarrow> bar option" where
  "bar_main numBarriers numThreads BInit s =
     Some (if numThreads \<le> 0 then s\<lparr>exited := Some (Exit EXIT_FAILURE)\<rparr> else s\<lparr>mpc := BCreate 0\<rparr>)"
| "bar_main numBarriers numThreads (BCreate i) s =
     Some (if int i < numThreads then s\<lparr>threads := threads s @ [next_barrier numBarriers 0], mpc := BCreate (Suc i)\<rparr>
           else s\<lparr>mpc := BJoin 0\<rparr>)"
| "bar_main numBarriers numThreads (BJoin i) s =
     (if int i < numThreads then if threads s ! i = BEnd then Some (s\<lparr>mpc := BJoin (Suc i)\<rparr>) else None
      else Some (s\<lparr>exited := Some (Exit EXIT_SUCCESS)\<rparr>))"

inductive bar_step :: "int \<Rightarrow> int \<Rightarrow> bar \<Rightarrow> bar \<Rightarrow> bool" for numBarriers numThreads where
  thread: "exited s = None \<Longrightarrow> i < length (threads s) \<Longrightarrow>
     threadFunc numBarriers (nat numThreads) (threads s ! i) i s = Some t \<Longrightarrow> bar_step numBarriers numThreads s t"
| main: "exited s = None \<Longrightarrow> bar_main numBarriers numThreads (mpc s) s = Some t \<Longrightarrow> bar_step numBarriers numThreads s t"
| call_fails: "exited s = None \<Longrightarrow> mpc s = BInit \<or> mpc s = BCreate i \<and> int i < numThreads \<Longrightarrow>
     bar_step numBarriers numThreads s (s\<lparr>exited := Some (Exit EXIT_FAILURE)\<rparr>)"

definition bar_start :: bar where
  "bar_start = \<lparr>threads = [], serial = [], mpc = BInit, exited = None\<rparr>"

section \<open>Invariant\<close>

text \<open>What the points of the threads have to do with the number of barriers that have opened.\<close>

fun in_round :: "int \<Rightarrow> nat \<Rightarrow> bthread \<Rightarrow> bool" where
  "in_round nb r (BSleep j) = (j = r \<and> int r < nb)"
| "in_round nb r (BWait j) = (j = r \<and> int r < nb)"
| "in_round nb r (BPass j b) = (Suc j = r \<and> int j < nb)"
| "in_round nb r BFin = (nb \<le> int r)"
| "in_round nb r BEnd = (nb \<le> int r)"

fun created :: "int \<Rightarrow> bmain \<Rightarrow> nat" where
  "created n BInit = 0" | "created n (BCreate i) = i" | "created n (BJoin i) = nat n"

fun joining :: "int \<Rightarrow> bmain \<Rightarrow> bthread list \<Rightarrow> bool" where
  "joining n BInit ts = True"
| "joining n (BCreate i) ts = (0 < n)"
| "joining n (BJoin i) ts = (0 < n \<and> list_all (\<lambda>t. t = BEnd) (take i ts) \<and> int i \<le> n)"

definition bar_inv :: "int \<Rightarrow> int \<Rightarrow> bar \<Rightarrow> bool" where
  "bar_inv nb n s \<longleftrightarrow>
     list_all (in_round nb (length (serial s))) (threads s) \<and> length (threads s) = created n (mpc s) \<and>
     (created n (mpc s) \<le> nat n) \<and> joining n (mpc s) (threads s) \<and>
     (cnt is_waiting (threads s) = 0 \<or> cnt is_waiting (threads s) < n) \<and>
     map snd (serial s) = [0..<length (serial s)] \<and> length (serial s) \<le> nat nb \<and>
     (serial s = [] \<or> length (threads s) = nat n) \<and>
     (exited s = None \<or> exited s = Some (Exit EXIT_FAILURE) \<or>
      exited s = Some (Exit EXIT_SUCCESS) \<and> 0 < n \<and> length (threads s) = nat n \<and> list_all (\<lambda>t. t = BEnd) (threads s))"

lemma bar_start_inv: "bar_inv nb n bar_start"
  by (simp add: bar_inv_def bar_start_def)

lemma not_waiting_wake [simp]: "\<not> is_waiting (wake t)"
  by (cases t) auto

lemma cnt_wake [simp]: "cnt is_waiting (map wake ts) = 0"
  by (simp add: cnt_zero)

lemma next_barrier_round:
  "int r \<le> nb \<Longrightarrow> in_round nb r (next_barrier nb r)" "\<not> is_waiting (next_barrier nb r)"
  by (auto simp: next_barrier_def)

text \<open>When the barrier opens, every other thread is waiting at it.\<close>

lemma all_waiting:
  assumes "bar_inv nb n s" "i < length (threads s)" "\<not> is_waiting (threads s ! i)" "cnt is_waiting (threads s) + 1 = int (nat n)"
  shows "length (threads s) = nat n" "\<And>k. k < length (threads s) \<Longrightarrow> k \<noteq> i \<Longrightarrow> is_waiting (threads s ! k)"
proof -
  let ?f = "\<lambda>t. \<not> is_waiting t"
  have "1 \<le> cnt ?f (threads s)" by (rule cnt_at) (use assms in auto)
  moreover have "length (threads s) \<le> nat n" using assms(1) by (simp add: bar_inv_def)
  moreover have "cnt is_waiting (threads s) + cnt ?f (threads s) = int (length (threads s))" by (rule cnt_compl)
  ultimately have l: "length (threads s) = nat n" and c: "cnt ?f (threads s) = 1" using assms(4) by linarith+
  show "length (threads s) = nat n" by (fact l)
  have "cnt ?f ((threads s)[i := BWait 0]) = 0" using sumw_update [OF assms(2), of "\<lambda>t. if ?f t then 1 else 0"] c assms(3) by simp
  then have all: "\<forall>t\<in>set ((threads s)[i := BWait 0]). is_waiting t" by (simp add: cnt_zero)
  show "is_waiting (threads s ! k)" if "k < length (threads s)" "k \<noteq> i" for k
    using all that nth_mem [of k "(threads s)[i := BWait 0]"] by auto
qed

lemma bar_thread_inv:
  assumes inv: "bar_inv nb n s" and i: "i < length (threads s)" and ex: "exited s = None"
    and run: "threadFunc nb (nat n) (threads s ! i) i s = Some t"
  shows "bar_inv nb n t"
proof -
  note I = inv [unfolded bar_inv_def] and u = sumw_update [OF i]
  let ?r = "length (serial s)"
  have p: "in_round nb ?r (threads s ! i)" using I i by (simp add: list_all_length)
  have la: "list_all (in_round nb ?r) ((threads s)[i := x])" if "in_round nb ?r x" for x
    using I that by (auto simp: list_all_iff dest: set_update_subset_insert [THEN subsetD])
  have jn: "joining n (mpc s) ((threads s)[i := x])" if "threads s ! i \<noteq> BEnd" for x
  proof (cases "mpc s")
    case (BJoin k)
    have "k \<le> i"
    proof (rule ccontr)
      assume "\<not> k \<le> i"
      then have "threads s ! i \<in> set (take k (threads s))" using i by (auto simp: in_set_conv_nth)
      with I BJoin that show False by (auto simp: list_all_iff)
    qed
    with I BJoin show ?thesis by simp
  qed (use I in simp_all)
  show ?thesis
  proof (cases "threads s ! i")
    case (BSleep j)
    show ?thesis
    proof (cases "cnt is_waiting (threads s) + 1 = int (nat n)")
      case True
      have nw: "\<not> is_waiting (threads s ! i)" by (simp add: BSleep)
      note all = all_waiting [OF inv i nw True]
      have t: "t = s\<lparr>threads := (map wake (threads s))[i := BPass j True], serial := serial s @ [(i, j)]\<rparr>"
        using run BSleep True by (simp add: barrier_wait_def)
      have "in_round nb (Suc ?r) (threads t ! k)" if "k < length (threads s)" for k
      proof (cases "k = i")
        case False
        have "is_waiting (threads s ! k)" "in_round nb ?r (threads s ! k)" using all(2) that False I by (auto simp: list_all_length)
        then show ?thesis using False that unfolding t by (cases "threads s ! k") auto
      qed (use p BSleep i in \<open>simp add: t\<close>)
      then have "list_all (in_round nb (Suc ?r)) (threads t)" unfolding t by (simp add: list_all_length)
      moreover have "joining n (mpc s) (threads t)"
      proof (cases "mpc s")
        case (BJoin k)
        have "k = 0"
        proof (rule ccontr)
          assume "k \<noteq> 0"
          then have "threads s ! 0 \<in> set (take k (threads s))" using i by (cases "threads s"; cases k) auto
          with I BJoin have "threads s ! 0 = BEnd" by (auto simp: list_all_iff)
          moreover have "0 < length (threads s)" using i by linarith
          ultimately show False using all(2) [of 0] BSleep by (cases "i = 0") auto
        qed
        with I BJoin show ?thesis by simp
      qed (use I in simp_all)
      moreover have "cnt is_waiting (threads t) = 0" unfolding t using i by (simp add: sumw_update)
      moreover have "Suc ?r \<le> nat nb" using p BSleep by auto
      ultimately show ?thesis using I all(1) p BSleep ex unfolding t bar_inv_def by simp
    next
      case False
      then have t: "t = s\<lparr>threads := (threads s)[i := BWait j]\<rparr>" using run BSleep by (simp add: barrier_wait_def)
      have "n > 0" using I i by (cases "mpc s") auto
      then show ?thesis
        using I la [of "BWait j"] jn [of "BWait j"] p BSleep False ex cnt_nonneg [of is_waiting "threads s"]
        unfolding t bar_inv_def by (auto simp: u)
    qed
  next
    case (BPass j b)
    then have t: "t = s\<lparr>threads := (threads s)[i := next_barrier nb (Suc j)]\<rparr>" using run by simp
    show ?thesis
      using I la [OF next_barrier_round(1)] jn p BPass ex next_barrier_round unfolding t bar_inv_def by (auto simp: u)
  next
    case BFin
    then have t: "t = s\<lparr>threads := (threads s)[i := BEnd]\<rparr>" using run by simp
    show ?thesis using I la [of BEnd] jn p BFin ex unfolding t bar_inv_def by (auto simp: u)
  qed (use run in simp_all)
qed

lemma bar_main_inv:
  assumes inv: "bar_inv nb n s" and ex: "exited s = None" and run: "bar_main nb n (mpc s) s = Some t"
  shows "bar_inv nb n t"
proof -
  note I = inv [unfolded bar_inv_def]
  show ?thesis
  proof (cases "mpc s")
    case BInit
    then show ?thesis using I run ex by (auto simp: bar_inv_def split: if_splits)
  next
    case (BCreate i)
    show ?thesis
    proof (cases "int i < n")
      case True
      then have "length (threads s) \<noteq> nat n" using I BCreate by auto
      then have "serial s = []" using I by blast
      then show ?thesis using I run ex BCreate True next_barrier_round(2) [of nb 0]
        by (auto simp: bar_inv_def next_barrier_def)
    next
      case False
      then show ?thesis using I run ex BCreate by (auto simp: bar_inv_def)
    qed
  next
    case (BJoin i)
    show ?thesis
    proof (cases "int i < n")
      case True
      then have "i < length (threads s)" using I BJoin by auto
      then show ?thesis using I run ex BJoin True
        by (auto simp: bar_inv_def take_Suc_conv_app_nth split: if_splits)
    next
      case False
      then have "i = length (threads s)" using I BJoin by auto
      then show ?thesis using I run ex BJoin False by (auto simp: bar_inv_def)
    qed
  qed
qed

lemma failure_inv: "bar_inv nb n s \<Longrightarrow> bar_inv nb n (s\<lparr>exited := Some (Exit EXIT_FAILURE)\<rparr>)"
  by (auto simp: bar_inv_def)

lemma bar_step_inv: "bar_inv nb n s \<Longrightarrow> bar_step nb n s t \<Longrightarrow> bar_inv nb n t"
  by (elim bar_step.cases) (auto intro: bar_thread_inv bar_main_inv failure_inv)

section \<open>Termination\<close>

fun bleft :: "int \<Rightarrow> bthread \<Rightarrow> int" where
  "bleft nb (BSleep j) = 3 * (nb - int j) + 2"
| "bleft nb (BWait j) = 3 * (nb - int j) + 1"
| "bleft nb (BPass j b) = 3 * (nb - int j)"
| "bleft nb BFin = 1"
| "bleft nb BEnd = 0"

fun bmain_left :: "int \<Rightarrow> int \<Rightarrow> bmain \<Rightarrow> int" where
  "bmain_left nb n BInit = max 0 n * (3 * max 0 nb + 4) + max 0 n + 4"
| "bmain_left nb n (BCreate i) = (n - int i) * (3 * max 0 nb + 4) + n + 3"
| "bmain_left nb n (BJoin i) = n - int i + 2"

definition bar_left :: "int \<Rightarrow> int \<Rightarrow> bar \<Rightarrow> int" where
  "bar_left nb n s = (if exited s \<noteq> None then 0 else sumw (bleft nb) (threads s) + bmain_left nb n (mpc s))"

lemma bleft_nonneg: "in_round nb r t \<Longrightarrow> 0 \<le> bleft nb t"
  by (cases t) auto

lemma wake_left: "bleft nb (wake t) \<le> bleft nb t"
  by (cases t) auto

lemma next_barrier_left: "bleft nb (next_barrier nb j) \<le> 3 * max 0 (nb - int j) + 2"
  by (simp add: next_barrier_def)

lemma bmain_left_pos: "bar_inv nb n s \<Longrightarrow> 0 < bmain_left nb n (mpc s)"
proof (cases "mpc s")
  case (BCreate i)
  assume "bar_inv nb n s"
  then have "0 < n" "int i \<le> n" using BCreate by (auto simp: bar_inv_def)
  then have "0 \<le> (n - int i) * (3 * max 0 nb + 4)" by simp
  then show ?thesis using BCreate \<open>0 < n\<close> by simp
qed (auto simp: bar_inv_def add_nonneg_pos)

lemma bar_left_nonneg: "bar_inv nb n s \<Longrightarrow> 0 \<le> bar_left nb n s"
proof -
  assume i: "bar_inv nb n s"
  then have "0 \<le> sumw (bleft nb) (threads s)"
    by (intro sumw_nonneg) (auto simp: bar_inv_def list_all_iff intro: bleft_nonneg)
  with bmain_left_pos [OF i] show ?thesis by (simp add: bar_left_def)
qed

lemma bar_left_pos: "bar_inv nb n s \<Longrightarrow> exited s = None \<Longrightarrow> 0 < bar_left nb n s"
proof -
  assume inv: "bar_inv nb n s" and ex: "exited s = None"
  have "0 \<le> sumw (bleft nb) (threads s)"
    using inv by (intro sumw_nonneg) (auto simp: bar_inv_def list_all_iff intro: bleft_nonneg)
  with bmain_left_pos [OF inv] ex show ?thesis by (simp add: bar_left_def)
qed

lemma bar_thread_left:
  assumes inv: "bar_inv nb n s" and i: "i < length (threads s)" and ex: "exited s = None"
    and run: "threadFunc nb (nat n) (threads s ! i) i s = Some t"
  shows "bar_left nb n t < bar_left nb n s"
proof -
  have p: "in_round nb (length (serial s)) (threads s ! i)" using inv i by (simp add: bar_inv_def list_all_length)
  note u = sumw_update [OF i, of "bleft nb"]
  show ?thesis
  proof (cases "threads s ! i")
    case (BSleep j)
    have w: "sumw (\<lambda>t. bleft nb (wake t)) (threads s) \<le> sumw (bleft nb) (threads s)" by (rule sumw_mono) (rule wake_left)
    have m: "sumw (bleft nb) (map wake (threads s)) = sumw (\<lambda>t. bleft nb (wake t)) (threads s)"
      by (simp add: comp_def)
    have "sumw (bleft nb) ((map wake (threads s))[i := BPass j True]) < sumw (bleft nb) (threads s)"
      using sumw_update [of i "map wake (threads s)" "bleft nb" "BPass j True"] i BSleep w m by simp
    then have "sumw (bleft nb) (threads t) < sumw (bleft nb) (threads s) \<and> exited t = None \<and> mpc t = mpc s"
      using run BSleep ex u by (auto simp: barrier_wait_def)
    then show ?thesis using ex by (simp add: bar_left_def)
  next
    case (BPass j b)
    then show ?thesis using run ex u p next_barrier_left [of nb "Suc j"] by (auto simp: bar_left_def)
  next
    case BFin
    then show ?thesis using run ex u by (auto simp: bar_left_def)
  qed (use run in simp_all)
qed

lemma bar_main_left:
  assumes inv: "bar_inv nb n s" and ex: "exited s = None" and run: "bar_main nb n (mpc s) s = Some t"
  shows "bar_left nb n t < bar_left nb n s"
proof -
  note z = bar_left_pos [OF inv ex]
  have a: "sumw (bleft nb) (threads s @ [x]) = sumw (bleft nb) (threads s) + bleft nb x" for x
    by (induction "threads s") auto
  show ?thesis
  proof (cases "mpc s")
    case BInit
    then show ?thesis using run ex z by (auto simp: bar_left_def split: if_splits)
  next
    case (BCreate i)
    have "(n - int (Suc i)) * (3 * max 0 nb + 4) = (n - int i) * (3 * max 0 nb + 4) - (3 * max 0 nb + 4)"
      by (simp add: algebra_simps)
    moreover have "int i \<le> n" using inv BCreate by (auto simp: bar_inv_def)
    ultimately show ?thesis using run ex BCreate a [of "next_barrier nb 0"] next_barrier_left [of nb 0]
      by (auto simp: bar_left_def split: if_splits)
  next
    case (BJoin i)
    then show ?thesis using run ex z by (auto simp: bar_left_def split: if_splits)
  qed
qed

lemma bar_step_left: "bar_inv nb n s \<Longrightarrow> bar_step nb n s t \<Longrightarrow> bar_left nb n t < bar_left nb n s"
  by (elim bar_step.cases) (auto intro: bar_thread_left bar_main_left simp: bar_left_def [of _ _ "s\<lparr>exited := x\<rparr>" for s x] bar_left_pos)

text \<open>A thread that is not waiting and has not returned can move.\<close>

lemma bar_thread_moves:
  "exited s = None \<Longrightarrow> i < length (threads s) \<Longrightarrow> \<not> is_waiting (threads s ! i) \<Longrightarrow> threads s ! i \<noteq> BEnd \<Longrightarrow>
   \<exists>t. bar_step nb n s t"
  by (cases "threads s ! i") (auto intro!: bar_step.thread)

lemma bar_progress:
  assumes inv: "bar_inv nb n s" and ex: "exited s = None"
  shows "\<exists>t. bar_step nb n s t"
proof (cases "\<exists>t. bar_main nb n (mpc s) s = Some t")
  case True
  then show ?thesis using ex bar_step.main by blast
next
  case False
  note I = inv [unfolded bar_inv_def]
  obtain i where m: "mpc s = BJoin i" and i: "int i < n" and e: "threads s ! i \<noteq> BEnd"
    using False by (cases "mpc s") (auto split: if_splits)
  have l: "length (threads s) = nat n" using I m by simp
  show ?thesis
  proof (rule ccontr)
    assume no: "\<not> ?thesis"
    have w: "is_waiting x \<or> x = BEnd" if "x \<in> set (threads s)" for x
      using that no bar_thread_moves [OF ex] by (metis in_set_conv_nth)
    have wi: "is_waiting (threads s ! i)" using w [of "threads s ! i"] e i l by auto
    have "i < length (threads s)" using i l by linarith
    then have "in_round nb (length (serial s)) (threads s ! i)" using I by (simp add: list_all_length)
    then have r: "int (length (serial s)) < nb" using wi by (cases "threads s ! i") auto
    have "is_waiting x" if "x \<in> set (threads s)" for x
      using w [OF that] that I r by (auto simp: list_all_iff)
    then have "cnt is_waiting (threads s) = n" using cnt_all [of "threads s" is_waiting] l i by auto
    then show False using I i by auto
  qed
qed

interpretation bar_run: bounded_system "bar_step nb n" "\<lambda>_ _. False" "bar_inv nb n" "bar_left nb n" 0 "\<lambda>s. exited s \<noteq> None" for nb n
  by unfold_locales (auto intro: bar_step_inv bar_left_nonneg bar_step_left bar_progress)

section \<open>Correctness\<close>

text \<open>The number of barriers a thread has passed, and of those it has arrived at.\<close>

fun passed :: "int \<Rightarrow> bthread \<Rightarrow> nat" where
  "passed nb (BSleep j) = j" | "passed nb (BWait j) = j" | "passed nb (BPass j b) = Suc j"
| "passed nb BFin = nat nb" | "passed nb BEnd = nat nb"

fun arrived :: "int \<Rightarrow> bthread \<Rightarrow> nat" where
  "arrived nb (BWait j) = Suc j" | "arrived nb t = passed nb t"

lemma passed_round: "in_round nb r t \<Longrightarrow> r \<le> nat nb \<Longrightarrow> passed nb t = r"
  by (cases t) auto

lemma arrived_round: "in_round nb r t \<Longrightarrow> r \<le> nat nb \<Longrightarrow> r \<le> arrived nb t"
  by (cases t) auto

text \<open>C26: pthread_barrier_demo.c is a barrier. Under every interleaving a thread has passed no more barriers than any other has
  arrived at, and none before all threads exist; every barrier that opened has exactly one thread with the special return
  value, in order; the number of steps is bounded, a process that has not exited can move, and a successful exit means that
  every thread passed all the barriers.\<close>
theorem barrier_correct:
  assumes "run_of (bar_step numBarriers numThreads) (\<lambda>_ _. False) m k bar_start t"
  shows "int m \<le> bar_left numBarriers numThreads bar_start \<and>
    ((\<exists>u. bar_step numBarriers numThreads t u) \<or> (\<exists>h. exited t = Some h)) \<and>
    (\<exists>l u. run_of (bar_step numBarriers numThreads) (\<lambda>_ _. False) l 0 t u \<and> exited u \<noteq> None) \<and>
    (\<forall>a\<in>set (threads t). \<forall>b\<in>set (threads t). passed numBarriers a \<le> arrived numBarriers b) \<and>
    (\<forall>a\<in>set (threads t). 0 < passed numBarriers a \<longrightarrow> length (threads t) = nat numThreads) \<and>
    map snd (serial t) = [0..<length (serial t)] \<and>
    (exited t = Some (Exit EXIT_SUCCESS) \<longrightarrow>
       list_all (\<lambda>a. a = BEnd) (threads t) \<and> map snd (serial t) = [0..<nat numBarriers])"
proof -
  have t: "bar_inv numBarriers numThreads t" by (rule bar_run.run_inv [OF assms bar_start_inv])
  note I = t [unfolded bar_inv_def]
  have r: "in_round numBarriers (length (serial t)) a" if "a \<in> set (threads t)" for a
    using I that by (simp add: list_all_iff)
  have p: "passed numBarriers a = length (serial t)" "length (serial t) \<le> arrived numBarriers a"
    if "a \<in> set (threads t)" for a
    using r [OF that] I passed_round arrived_round by auto
  have e: "map snd (serial t) = [0..<nat numBarriers]" if x: "exited t = Some (Exit EXIT_SUCCESS)"
  proof -
    have "0 < numThreads \<and> length (threads t) = nat numThreads \<and> list_all (\<lambda>a. a = BEnd) (threads t)" using x I by simp
    then obtain a where "a \<in> set (threads t)" "a = BEnd" by (cases "threads t") auto
    then show ?thesis using p(1) [of a] I by simp
  qed
  show ?thesis
    using bar_run.run_bounded [OF bar_start_inv assms] bar_run.progress [OF t] bar_run.reaches_finished [OF t] p e I by auto
qed

text \<open>Running a schedule: the thread that moves next, or \<open>None\<close> for the main thread.\<close>

fun bar_schedule :: "int \<Rightarrow> int \<Rightarrow> nat option list \<Rightarrow> bar option" where
  "bar_schedule nb n [] = Some bar_start"
| "bar_schedule nb n (x # xs) =
     Option.bind (bar_schedule nb n xs) (\<lambda>s.
       if exited s \<noteq> None then None
       else case x of
              None \<Rightarrow> bar_main nb n (mpc s) s
            | Some i \<Rightarrow> if i < length (threads s) then threadFunc nb (nat n) (threads s ! i) i s else None)"

lemma bar_schedule_run:
  "bar_schedule nb n xs = Some t \<Longrightarrow> run_of (bar_step nb n) (\<lambda>_ _. False) (length xs) 0 bar_start t"
  by (induction xs arbitrary: t)
    (auto simp: Option.bind_eq_Some_conv intro: run_of.intros bar_step.intros split: if_splits option.splits)

definition bar_demo_end :: bar where
  "bar_demo_end = \<lparr>threads = [BEnd, BEnd], serial = [(1, 0)], mpc = BJoin 2, exited = Some (Exit EXIT_SUCCESS)\<rparr>"

lemma bar_demo:
  "bar_schedule 1 2 (rev [None, None, Some 0, None, None, Some 1, Some 1, Some 0, Some 0, Some 1, None, None, None])
   = Some bar_demo_end"
  by (simp add: bar_start_def bar_demo_end_def next_barrier_def barrier_wait_def eval_nat_numeral)

theorem barrier_correct_witness:
  "run_of (bar_step 1 2) (\<lambda>_ _. False) 13 0 bar_start bar_demo_end \<and> 13 \<le> bar_left 1 2 bar_start \<and>
   map snd (serial bar_demo_end) = [0]"
proof -
  have r: "run_of (bar_step 1 2) (\<lambda>_ _. False) 13 0 bar_start bar_demo_end"
    using bar_schedule_run [OF bar_demo] by (simp add: eval_nat_numeral)
  show ?thesis using barrier_correct [OF r] r by (simp add: bar_demo_end_def)
qed

end
