(* ===== verification/Record_Locks.thy ===== *)
theory Record_Locks
  imports Bounded_System C_Numbers
begin

text \<open>
  Record locks and what the programs build from them: \<^verbatim>\<open>filelock/region_locking.c\<close> and
  \<^verbatim>\<open>filelock/create_pid_file.c\<close>.  The locks of a file are a list of byte ranges with their owners, as
  \<^verbatim>\<open>fcntl()\<close> is documented to maintain it.  The lemmas show that the requests are updates of a map
  from owners and bytes to kinds of locks that keep conflicting locks apart, that
  \<^verbatim>\<open>regionIsLocked()\<close> predicts \<^verbatim>\<open>lockRegion()\<close>, and that of any number of processes calling \<^verbatim>\<open>createPidFile()\<close>
  concurrently at most one returns, as long as nobody removes the file.
\<close>

section \<open>The locks of a file\<close>

datatype ltype = F_RDLCK | F_WRLCK | F_UNLCK

datatype whence = SEEK_SET | SEEK_CUR | SEEK_END

text \<open>A lock belongs to a process or to an open file description.\<close>

datatype lowner = Process int | Description nat

record flock =
  l_type :: ltype
  l_whence :: whence
  l_start :: int
  l_len :: int
  l_pid :: int

record lk =
  lk_owner :: lowner
  lk_type :: ltype
  lk_from :: int
  lk_to :: int

datatype lcmd = F_GETLK | F_SETLK | F_SETLKW

abbreviation (input) EAGAIN :: int where "EAGAIN \<equiv> 11"
abbreviation (input) EACCES :: int where "EACCES \<equiv> 13"
abbreviation (input) EINVAL :: int where "EINVAL \<equiv> 22"
abbreviation (input) EOVERFLOW :: int where "EOVERFLOW \<equiv> 75"

text \<open>The first and the last byte of a request, for a file offset and a file size; length 0 reaches to the end of every file.\<close>

fun seek_base :: "whence \<Rightarrow> int \<Rightarrow> int \<Rightarrow> int" where
  "seek_base SEEK_SET pos sz = 0"
| "seek_base SEEK_CUR pos sz = pos"
| "seek_base SEEK_END pos sz = sz"

definition region :: "flock \<Rightarrow> int \<Rightarrow> int \<Rightarrow> int + int \<times> int" where
  "region fl pos sz =
     (let st = seek_base (l_whence fl) pos sz + l_start fl; len = l_len fl
      in if st > LONG_MAX then Inl EOVERFLOW
         else if st < 0 then Inl EINVAL
         else if len > 0 then (if st + len - 1 > LONG_MAX then Inl EOVERFLOW else Inr (st, st + len - 1))
         else if len < 0 then (if st + len < 0 then Inl EINVAL else Inr (st + len, st - 1))
         else Inr (st, LONG_MAX))"

definition overlaps :: "int \<Rightarrow> int \<Rightarrow> lk \<Rightarrow> bool" where
  "overlaps st en l \<longleftrightarrow> lk_from l \<le> en \<and> st \<le> lk_to l"

definition conflicts :: "lowner \<Rightarrow> ltype \<Rightarrow> int \<Rightarrow> int \<Rightarrow> lk \<Rightarrow> bool" where
  "conflicts own ty st en l \<longleftrightarrow> lk_owner l \<noteq> own \<and> overlaps st en l \<and> (ty = F_WRLCK \<or> ty = F_RDLCK \<and> lk_type l = F_WRLCK)"

text \<open>A request replaces what its owner holds in the region; other parts of a lock remain.\<close>

definition cut :: "lowner \<Rightarrow> int \<Rightarrow> int \<Rightarrow> lk \<Rightarrow> lk list" where
  "cut own st en l =
     (if lk_owner l = own \<and> overlaps st en l
      then (if lk_from l < st then [l\<lparr>lk_to := st - 1\<rparr>] else []) @ (if en < lk_to l then [l\<lparr>lk_from := en + 1\<rparr>] else [])
      else [l])"

definition set_lock :: "lowner \<Rightarrow> ltype \<Rightarrow> int \<Rightarrow> int \<Rightarrow> lk list \<Rightarrow> lk list" where
  "set_lock own ty st en tbl =
     concat (map (cut own st en) tbl) @
     (if ty = F_UNLCK then [] else [\<lparr>lk_owner = own, lk_type = ty, lk_from = st, lk_to = en\<rparr>])"

fun owner_pid :: "lowner \<Rightarrow> int" where
  "owner_pid (Process p) = p"
| "owner_pid (Description d) = -1"

definition describe :: "lk \<Rightarrow> flock" where
  "describe l =
     \<lparr>l_type = lk_type l, l_whence = SEEK_SET, l_start = lk_from l,
      l_len = (if lk_to l = LONG_MAX then 0 else lk_to l - lk_from l + 1), l_pid = owner_pid (lk_owner l)\<rparr>"

text \<open>\<^verbatim>\<open>fcntl()\<close>: \<open>None\<close> while the request waits.\<close>

definition fcntl_lk ::
  "lcmd \<Rightarrow> lowner \<Rightarrow> int \<Rightarrow> int \<Rightarrow> flock \<Rightarrow> lk list \<Rightarrow> (int + flock \<times> lk list) option" where
  "fcntl_lk cmd own pos sz fl tbl =
     (case region fl pos sz of
        Inl e \<Rightarrow> Some (Inl e)
      | Inr (st, en) \<Rightarrow>
          (case List.find (conflicts own (l_type fl) st en) tbl of
             None \<Rightarrow>
               if cmd = F_GETLK then
                 if l_type fl = F_UNLCK then Some (Inl EINVAL) else Some (Inr (fl\<lparr>l_type := F_UNLCK\<rparr>, tbl))
               else Some (Inr (fl, set_lock own (l_type fl) st en tbl))
           | Some l \<Rightarrow>
               (case cmd of F_GETLK \<Rightarrow> Some (Inr (describe l, tbl)) | F_SETLK \<Rightarrow> Some (Inl EAGAIN) | F_SETLKW \<Rightarrow> None)))"

section \<open>Region locking\<close>

definition lockReg ::
  "lowner \<Rightarrow> int \<Rightarrow> int \<Rightarrow> lcmd \<Rightarrow> ltype \<Rightarrow> whence \<Rightarrow> int \<Rightarrow> int \<Rightarrow> lk list \<Rightarrow> (int + flock \<times> lk list) option" where
  "lockReg own pos sz cmd ty wh start len tbl =
     fcntl_lk cmd own pos sz \<lparr>l_type = ty, l_whence = wh, l_start = start, l_len = len, l_pid = 0\<rparr> tbl"

definition lockRegion ::
  "lowner \<Rightarrow> int \<Rightarrow> int \<Rightarrow> ltype \<Rightarrow> whence \<Rightarrow> int \<Rightarrow> int \<Rightarrow> lk list \<Rightarrow> (int + flock \<times> lk list) option" where
  "lockRegion own pos sz ty wh start len tbl = lockReg own pos sz F_SETLK ty wh start len tbl"

definition lockRegionWait ::
  "lowner \<Rightarrow> int \<Rightarrow> int \<Rightarrow> ltype \<Rightarrow> whence \<Rightarrow> int \<Rightarrow> int \<Rightarrow> lk list \<Rightarrow> (int + flock \<times> lk list) option" where
  "lockRegionWait own pos sz ty wh start len tbl = lockReg own pos sz F_SETLKW ty wh start len tbl"

definition regionIsLocked :: "lowner \<Rightarrow> int \<Rightarrow> int \<Rightarrow> ltype \<Rightarrow> whence \<Rightarrow> int \<Rightarrow> int \<Rightarrow> lk list \<Rightarrow> int" where
  "regionIsLocked own pos sz ty wh start len tbl =
     (case fcntl_lk F_GETLK own pos sz \<lparr>l_type = ty, l_whence = wh, l_start = start, l_len = len, l_pid = 0\<rparr> tbl of
        Some (Inr (fl, _)) \<Rightarrow> if l_type fl = F_UNLCK then 0 else l_pid fl
      | _ \<Rightarrow> -1)"

section \<open>Locks as a map\<close>

definition covers :: "int \<Rightarrow> lk \<Rightarrow> bool" where
  "covers b l \<longleftrightarrow> lk_from l \<le> b \<and> b \<le> lk_to l"

definition lock_at :: "lk list \<Rightarrow> lowner \<Rightarrow> int \<Rightarrow> ltype option" where
  "lock_at tbl own b = map_option lk_type (List.find (\<lambda>l. lk_owner l = own \<and> covers b l) tbl)"

definition lk_ok :: "lk \<Rightarrow> bool" where
  "lk_ok l \<longleftrightarrow> lk_from l \<le> lk_to l \<and> lk_type l \<noteq> F_UNLCK"

definition compatible :: "lk \<Rightarrow> lk \<Rightarrow> bool" where
  "compatible l m \<longleftrightarrow> lk_owner l = lk_owner m \<or> \<not> overlaps (lk_from l) (lk_to l) m \<or> lk_type l = F_RDLCK \<and> lk_type m = F_RDLCK"

definition locks_ok :: "lk list \<Rightarrow> bool" where
  "locks_ok tbl \<longleftrightarrow> list_all lk_ok tbl \<and> list_all (\<lambda>l. list_all (compatible l) tbl) tbl"

lemma locks_okD:
  "locks_ok tbl \<Longrightarrow> l \<in> set tbl \<Longrightarrow> lk_ok l" "locks_ok tbl \<Longrightarrow> l \<in> set tbl \<Longrightarrow> m \<in> set tbl \<Longrightarrow> compatible l m"
  by (auto simp: locks_ok_def list_all_iff)

lemma find_append: "List.find P (xs @ ys) = (case List.find P xs of None \<Rightarrow> List.find P ys | Some x \<Rightarrow> Some x)"
  by (induction xs) auto

lemma lock_at_simps [simp]:
  "lock_at [] own b = None"
  "lock_at (l # tbl) own b = (if lk_owner l = own \<and> covers b l then Some (lk_type l) else lock_at tbl own b)"
  by (auto simp: lock_at_def)

lemma lock_at_append: "lock_at (xs @ ys) own b = (case lock_at xs own b of None \<Rightarrow> lock_at ys own b | Some t \<Rightarrow> Some t)"
  by (induction xs) auto

lemma lock_at_cut:
  "lock_at (cut own st en l) own' b =
     (if lk_owner l = own' \<and> covers b l \<and> \<not> (own' = own \<and> st \<le> b \<and> b \<le> en) then Some (lk_type l) else None)"
  by (auto simp: cut_def overlaps_def covers_def)

lemma lock_at_set_lock:
  "st \<le> en \<Longrightarrow> lock_at (set_lock own ty st en tbl) own' b =
     (if own' = own \<and> st \<le> b \<and> b \<le> en then (if ty = F_UNLCK then None else Some ty) else lock_at tbl own' b)"
proof -
  have "lock_at (concat (map (cut own st en) tbl)) own' b = (if own' = own \<and> st \<le> b \<and> b \<le> en then None else lock_at tbl own' b)"
    by (induction tbl) (auto simp: lock_at_append lock_at_cut)
  then show ?thesis by (auto simp: set_lock_def lock_at_append covers_def split: option.splits)
qed

lemma cut_set:
  "m \<in> set (cut own st en l) \<Longrightarrow>
   lk_owner m = lk_owner l \<and> lk_type m = lk_type l \<and> lk_from l \<le> lk_from m \<and> lk_to m \<le> lk_to l \<and>
   (lk_from l \<le> lk_to l \<longrightarrow> lk_from m \<le> lk_to m)"
  by (auto simp: cut_def overlaps_def split: if_splits)

lemma compatible_sym: "compatible l m \<Longrightarrow> compatible m l"
  by (auto simp: compatible_def overlaps_def)

lemma locks_ok_add: "locks_ok tbl \<Longrightarrow> lk_ok n \<Longrightarrow> \<forall>m\<in>set tbl. compatible m n \<Longrightarrow> locks_ok (tbl @ [n])"
  by (auto simp: locks_ok_def list_all_iff compatible_sym) (simp add: compatible_def)

lemma set_lock_ok:
  assumes "locks_ok tbl" "st \<le> en" "\<And>l. l \<in> set tbl \<Longrightarrow> \<not> conflicts own ty st en l"
  shows "locks_ok (set_lock own ty st en tbl)"
proof -
  let ?old = "concat (map (cut own st en) tbl)"
  have old: "\<exists>l\<in>set tbl. lk_owner m = lk_owner l \<and> lk_type m = lk_type l \<and> lk_from l \<le> lk_from m \<and> lk_to m \<le> lk_to l \<and>
      lk_from m \<le> lk_to m" if m: "m \<in> set ?old" for m
  proof -
    obtain l where "l \<in> set tbl" "m \<in> set (cut own st en l)" using m by auto
    then show ?thesis using cut_set [of m own st en l] locks_okD(1) [OF assms(1)] by (auto simp: lk_ok_def)
  qed
  have a: "lk_ok m" if "m \<in> set ?old" for m
    using old [OF that] locks_okD(1) [OF assms(1)] by (metis lk_ok_def)
  have b: "compatible m m'" if "m \<in> set ?old" "m' \<in> set ?old" for m m'
    using old [OF that(1)] old [OF that(2)] locks_okD(2) [OF assms(1)] by (fastforce simp: compatible_def overlaps_def)
  let ?new = "\<lparr>lk_owner = own, lk_type = ty, lk_from = st, lk_to = en\<rparr>"
  have c: "compatible m ?new" if "m \<in> set ?old" "ty \<noteq> F_UNLCK" for m
    using old [OF that(1)] assms(3) locks_okD(1) [OF assms(1)] that(2)
    by (cases ty; cases "lk_type m") (fastforce simp: compatible_def overlaps_def conflicts_def lk_ok_def)+
  have "locks_ok ?old" unfolding locks_ok_def list_all_iff using a b by blast
  moreover have "locks_ok (?old @ [?new])" if "ty \<noteq> F_UNLCK"
    using calculation c that assms(2) by (intro locks_ok_add) (auto simp: lk_ok_def)
  ultimately show ?thesis by (simp add: set_lock_def)
qed

lemma region_le: "region fl pos sz = Inr (st, en) \<Longrightarrow> 0 \<le> st \<and> st \<le> en \<and> en \<le> LONG_MAX"
  by (auto simp: region_def Let_def split: if_splits)

lemma find_conflict:
  "List.find P tbl = None \<longleftrightarrow> (\<forall>l\<in>set tbl. \<not> P l)" "List.find P tbl = Some l \<Longrightarrow> P l \<and> l \<in> set tbl"
  by (auto simp: find_None_iff find_Some_iff)

lemma fcntl_lk_ok:
  assumes "locks_ok tbl" "fcntl_lk cmd own pos sz fl tbl = Some (Inr (fl', tbl'))"
  shows "locks_ok tbl'"
  using assms region_le [of fl pos sz] set_lock_ok [OF assms(1)]
  by (auto simp: fcntl_lk_def find_conflict(1) split: sum.splits option.splits if_splits lcmd.splits)

abbreviation (input) request :: "ltype \<Rightarrow> whence \<Rightarrow> int \<Rightarrow> int \<Rightarrow> flock" where
  "request ty wh start len \<equiv> \<lparr>l_type = ty, l_whence = wh, l_start = start, l_len = len, l_pid = 0\<rparr>"

lemmas region_locking_defs = lockRegion_def lockRegionWait_def lockReg_def regionIsLocked_def fcntl_lk_def


definition demo_locks :: "lk list" where
  "demo_locks = [\<lparr>lk_owner = Process 7, lk_type = F_RDLCK, lk_from = 0, lk_to = 9\<rparr>]"


section \<open>PID files\<close>

text \<open>A process in \<^verbatim>\<open>createPidFile()\<close>: the call it makes next, or that it returned or ended.\<close>

datatype cpf_at = COpen | CGetfd | CSetfd | CLock | CTrunc | CWrite | CReturn | CExit halt

record cpf =
  pid :: int
  at :: cpf_at
  ino :: nat
  cloexec :: bool

record node =
  data :: string
  held :: "lk list"

record pidsys =
  fname :: "nat option"     \<comment> \<open>the file the pathname refers to\<close>
  nodes :: "node list"
  procs :: "cpf list"

definition pid_text :: "int \<Rightarrow> string" where
  "pid_text p = snprintf_str 100 (decimal_int p @ [CHR 0x0A])"

text \<open>The end of a process releases its locks.\<close>

definition release :: "int \<Rightarrow> node \<Rightarrow> node" where
  "release p nd = nd\<lparr>held := filter (\<lambda>l. lk_owner l \<noteq> Process p) (held nd)\<rparr>"

definition finish :: "nat \<Rightarrow> halt \<Rightarrow> pidsys \<Rightarrow> pidsys" where
  "finish i h s =
     s\<lparr>procs := (procs s)[i := (procs s ! i)\<lparr>at := CExit h\<rparr>], nodes := map (release (pid (procs s ! i))) (nodes s)\<rparr>"

definition goto :: "nat \<Rightarrow> cpf_at \<Rightarrow> pidsys \<Rightarrow> pidsys" where
  "goto i a s = s\<lparr>procs := (procs s)[i := (procs s ! i)\<lparr>at := a\<rparr>]\<rparr>"

definition on_node :: "nat \<Rightarrow> (node \<Rightarrow> node) \<Rightarrow> pidsys \<Rightarrow> pidsys" where
  "on_node i f s = s\<lparr>nodes := (nodes s)[ino (procs s ! i) := f (nodes s ! ino (procs s ! i))]\<rparr>"

fun createPidFile :: "bool \<Rightarrow> cpf_at \<Rightarrow> nat \<Rightarrow> pidsys \<Rightarrow> pidsys option" where
  "createPidFile CPF_CLOEXEC COpen i s =
     (let s = (if fname s = None then s\<lparr>fname := Some (length (nodes s)), nodes := nodes s @ [\<lparr>data = [], held = []\<rparr>]\<rparr> else s)
      in Some (s\<lparr>procs := (procs s)[i := (procs s ! i)\<lparr>ino := the (fname s), at := (if CPF_CLOEXEC then CGetfd else CLock)\<rparr>]\<rparr>))"
| "createPidFile CPF_CLOEXEC CGetfd i s = Some (goto i CSetfd s)"
| "createPidFile CPF_CLOEXEC CSetfd i s =
     Some (s\<lparr>procs := (procs s)[i := (procs s ! i)\<lparr>cloexec := True, at := CLock\<rparr>]\<rparr>)"
| "createPidFile CPF_CLOEXEC CLock i s =
     (let nd = nodes s ! ino (procs s ! i)
      in case lockRegion (Process (pid (procs s ! i))) 0 (int (length (data nd))) F_WRLCK SEEK_SET 0 0 (held nd) of
           None \<Rightarrow> None
         | Some (Inl e) \<Rightarrow> Some (finish i (Exit EXIT_FAILURE) s)
         | Some (Inr (fl, t)) \<Rightarrow> Some (goto i CTrunc (on_node i (\<lambda>nd. nd\<lparr>held := t\<rparr>) s)))"
| "createPidFile CPF_CLOEXEC CTrunc i s = Some (goto i CWrite (on_node i (\<lambda>nd. nd\<lparr>data := []\<rparr>) s))"
| "createPidFile CPF_CLOEXEC CWrite i s =
     (let buf = pid_text (pid (procs s ! i))
      in Some (goto i CReturn (on_node i (\<lambda>nd. nd\<lparr>data := buf @ drop (length buf) (data nd)\<rparr>) s)))"
| "createPidFile CPF_CLOEXEC _ i s = None"

text \<open>Each call can fail, and the write can be incomplete; then the process ends.\<close>

inductive cpf_step :: "bool \<Rightarrow> pidsys \<Rightarrow> pidsys \<Rightarrow> bool" for CPF_CLOEXEC where
  call: "i < length (procs s) \<Longrightarrow> createPidFile CPF_CLOEXEC (at (procs s ! i)) i s = Some t \<Longrightarrow> cpf_step CPF_CLOEXEC s t"
| call_fails: "i < length (procs s) \<Longrightarrow> at (procs s ! i) \<in> {COpen, CGetfd, CSetfd, CLock, CTrunc, CWrite} \<Longrightarrow>
     cpf_step CPF_CLOEXEC s (finish i (Exit EXIT_FAILURE) s)"
| short_write: "i < length (procs s) \<Longrightarrow> at (procs s ! i) = CWrite \<Longrightarrow> buf = take k (pid_text (pid (procs s ! i))) \<Longrightarrow>
     cpf_step CPF_CLOEXEC s
       (finish i (Exit EXIT_FAILURE) (on_node i (\<lambda>nd. nd\<lparr>data := buf @ drop (length buf) (data nd)\<rparr>) s))"

text \<open>A process that has its PID file ends some time; it may remove the file before that.\<close>

inductive cpf_env :: "pidsys \<Rightarrow> pidsys \<Rightarrow> bool" where
  ends: "i < length (procs s) \<Longrightarrow> at (procs s ! i) = CReturn \<Longrightarrow> cpf_env s (finish i h s)"

inductive cpf_unlink :: "pidsys \<Rightarrow> pidsys \<Rightarrow> bool" where
  unlink: "i < length (procs s) \<Longrightarrow> at (procs s ! i) = CReturn \<Longrightarrow> cpf_unlink s (s\<lparr>fname := None\<rparr>)"

definition cpf_start :: "string option \<Rightarrow> int list \<Rightarrow> pidsys" where
  "cpf_start old pids =
     \<lparr>fname = map_option (\<lambda>_. 0) old, nodes = (case old of None \<Rightarrow> [] | Some d \<Rightarrow> [\<lparr>data = d, held = []\<rparr>]),
      procs = map (\<lambda>p. \<lparr>pid = p, at = COpen, ino = 0, cloexec = False\<rparr>) pids\<rparr>"

subsection \<open>Invariant\<close>

definition whole :: "int \<Rightarrow> lk" where
  "whole p = \<lparr>lk_owner = Process p, lk_type = F_WRLCK, lk_from = 0, lk_to = LONG_MAX\<rparr>"

fun has_lock :: "cpf_at \<Rightarrow> bool" where
  "has_lock CTrunc = True" | "has_lock CWrite = True" | "has_lock CReturn = True" | "has_lock _ = False"

fun is_open :: "cpf_at \<Rightarrow> bool" where
  "is_open COpen = False" | "is_open (CExit h) = False" | "is_open _ = True"

fun at_ok :: "cpf_at \<Rightarrow> int \<Rightarrow> node \<Rightarrow> bool" where
  "at_ok CTrunc p nd = (held nd = [whole p])"
| "at_ok CWrite p nd = (held nd = [whole p] \<and> data nd = [])"
| "at_ok CReturn p nd = (held nd = [whole p] \<and> data nd = pid_text p)"
| "at_ok _ p nd = True"

definition proc_ok :: "node list \<Rightarrow> cpf \<Rightarrow> bool" where
  "proc_ok nds c \<longleftrightarrow> (is_open (at c) \<longrightarrow> ino c = 0 \<and> nds \<noteq> []) \<and> (has_lock (at c) \<longrightarrow> at_ok (at c) (pid c) (nds ! 0))"

definition held_ok :: "node list \<Rightarrow> cpf list \<Rightarrow> bool" where
  "held_ok nds cs \<longleftrightarrow> nds = [] \<or> held (nds ! 0) = [] \<or> (\<exists>c\<in>set cs. has_lock (at c) \<and> held (nds ! 0) = [whole (pid c)])"

definition cpf_inv :: "pidsys \<Rightarrow> bool" where
  "cpf_inv s \<longleftrightarrow> distinct (map pid (procs s)) \<and> (fname s = None \<and> nodes s = [] \<or> fname s = Some 0 \<and> length (nodes s) = 1) \<and>
     list_all (proc_ok (nodes s)) (procs s) \<and> held_ok (nodes s) (procs s)"

lemma whole_inj [simp]: "whole p = whole q \<longleftrightarrow> p = q"
  by (simp add: whole_def)

lemma at_ok_held: "has_lock a \<Longrightarrow> at_ok a p nd \<Longrightarrow> held nd = [whole p]"
  by (cases a) auto

lemma has_lock_open: "has_lock a \<Longrightarrow> is_open a"
  by (cases a) auto

lemma cpf_start_inv: "distinct pids \<Longrightarrow> cpf_inv (cpf_start old pids)"
  by (cases old) (auto simp: cpf_start_def cpf_inv_def held_ok_def proc_ok_def list_all_iff comp_def)

text \<open>At most one process holds the lock.\<close>

lemma one_locker:
  assumes "cpf_inv s" "i < length (procs s)" "j < length (procs s)" "has_lock (at (procs s ! i))" "has_lock (at (procs s ! j))"
  shows "i = j"
proof -
  have h: "held (nodes s ! 0) = [whole (pid (procs s ! k))]" if "k < length (procs s)" "has_lock (at (procs s ! k))" for k
    using assms(1) that by (auto simp: cpf_inv_def list_all_length proc_ok_def intro: at_ok_held)
  have "pid (procs s ! i) = pid (procs s ! j)" using h [OF assms(2,4)] h [OF assms(3,5)] by simp
  moreover have "distinct (map pid (procs s))" using assms(1) by (simp add: cpf_inv_def)
  ultimately show ?thesis using assms(2,3) nth_eq_iff_index_eq [of "map pid (procs s)" i j] by simp
qed

text \<open>Changing the state of a process and of the file: what has to be checked.\<close>

lemma cpf_inv_change:
  assumes inv: "cpf_inv s" and i: "i < length (procs s)" and p: "pid c = pid (procs s ! i)" and ok: "proc_ok nds c"
    and nds: "length nds = length (nodes s)"
    and others: "\<And>j. j < length (procs s) \<Longrightarrow> j \<noteq> i \<Longrightarrow> proc_ok (nodes s) (procs s ! j) \<Longrightarrow> proc_ok nds (procs s ! j)"
    and hld: "held_ok nds ((procs s)[i := c])"
  shows "cpf_inv (s\<lparr>procs := (procs s)[i := c], nodes := nds\<rparr>)"
proof -
  have "map pid ((procs s)[i := c]) = map pid (procs s)" using i p by (metis list_update_id map_update nth_map)
  moreover have "list_all (proc_ok nds) ((procs s)[i := c])"
    using inv others ok i by (auto simp: cpf_inv_def list_all_length nth_list_update)
  ultimately show ?thesis using inv nds hld by (auto simp: cpf_inv_def)
qed

lemma held_ok_keep:
  assumes "held_ok nds cs" "i < length cs" "has_lock (at c) = has_lock (at (cs ! i))" "pid c = pid (cs ! i)"
  shows "held_ok nds (cs[i := c])"
proof -
  have "\<exists>d\<in>set (cs[i := c]). has_lock (at d) \<and> held (nds ! 0) = [whole (pid d)]"
    if d: "d \<in> set cs" "has_lock (at d)" "held (nds ! 0) = [whole (pid d)]" for d
  proof -
    obtain j where "j < length cs" "d = cs ! j" using d(1) by (auto simp: in_set_conv_nth)
    moreover from this have "cs[i := c] ! j \<in> set (cs[i := c])" by (intro nth_mem) simp
    ultimately show ?thesis using d(2,3) assms(2,3,4) by (cases "i = j") (auto simp: nth_list_update intro: bexI [rotated])
  qed
  then show ?thesis using assms(1) by (auto simp: held_ok_def)
qed

text \<open>A process that does not touch the lock or the file.\<close>

lemma cpf_inv_move:
  assumes inv: "cpf_inv s" and i: "i < length (procs s)" and c: "pid c = pid (procs s ! i)" "\<not> has_lock (at c)"
    and open_c: "is_open (at c) \<Longrightarrow> ino c = 0 \<and> nodes s \<noteq> []" and nl: "\<not> has_lock (at (procs s ! i))"
  shows "cpf_inv (s\<lparr>procs := (procs s)[i := c]\<rparr>)"
proof -
  have "held_ok (nodes s) ((procs s)[i := c])"
    using inv i c nl by (intro held_ok_keep) (auto simp: cpf_inv_def)
  then have "cpf_inv (s\<lparr>procs := (procs s)[i := c], nodes := nodes s\<rparr>)"
    using inv i c open_c by (intro cpf_inv_change) (auto simp: proc_ok_def)
  then show ?thesis by simp
qed

text \<open>The holder of the lock changes the file.\<close>

lemma cpf_inv_write:
  assumes inv: "cpf_inv s" and i: "i < length (procs s)" and l: "has_lock (at (procs s ! i))" "has_lock a"
    and ok: "at_ok a (pid (procs s ! i)) (f (nodes s ! 0))" and h: "\<And>nd. held (f nd) = held nd"
  shows "cpf_inv (goto i a (on_node i f s))"
proof -
  have p: "proc_ok (nodes s) (procs s ! i)" using inv i by (simp add: cpf_inv_def list_all_length)
  then have n: "ino (procs s ! i) = 0" "nodes s \<noteq> []" using l(1) by (auto simp: proc_ok_def dest: has_lock_open)
  have "proc_ok ((nodes s)[0 := f (nodes s ! 0)]) (procs s ! j)"
    if "j < length (procs s)" "j \<noteq> i" "proc_ok (nodes s) (procs s ! j)" for j
    using that one_locker [OF inv i that(1) l(1)] by (auto simp: proc_ok_def)
  moreover have "held_ok (nodes s) (procs s)" using inv by (simp add: cpf_inv_def)
  then have "held_ok ((nodes s)[0 := f (nodes s ! 0)]) (procs s)" using h n by (auto simp: held_ok_def)
  then have "held_ok ((nodes s)[0 := f (nodes s ! 0)]) ((procs s)[i := (procs s ! i)\<lparr>at := a\<rparr>])"
    using i l by (intro held_ok_keep) auto
  moreover have "proc_ok ((nodes s)[0 := f (nodes s ! 0)]) ((procs s ! i)\<lparr>at := a\<rparr>)"
    using ok n by (auto simp: proc_ok_def)
  ultimately have "cpf_inv (s\<lparr>procs := (procs s)[i := (procs s ! i)\<lparr>at := a\<rparr>], nodes := (nodes s)[0 := f (nodes s ! 0)]\<rparr>)"
    by (intro cpf_inv_change [OF inv i]) auto
  moreover have "goto i a (on_node i f s) = s\<lparr>procs := (procs s)[i := (procs s ! i)\<lparr>at := a\<rparr>], nodes := (nodes s)[0 := f (nodes s ! 0)]\<rparr>"
    by (cases s) (use n in \<open>simp add: goto_def on_node_def\<close>)
  ultimately show ?thesis by simp
qed

text \<open>The end of a process.\<close>

lemma cpf_inv_finish:
  assumes inv: "cpf_inv s" and i: "i < length (procs s)"
  shows "cpf_inv (finish i h s)"
proof -
  let ?p = "pid (procs s ! i)"
  let ?nds = "map (release ?p) (nodes s)"
  have d: "pid (procs s ! j) \<noteq> ?p" if "j < length (procs s)" "j \<noteq> i" for j
    using inv i that by (auto simp: cpf_inv_def distinct_conv_nth)
  have keep: "release ?p nd = nd" if "held nd = [whole q]" "q \<noteq> ?p" for nd q
    using that by (simp add: release_def whole_def)
  have "proc_ok ?nds (procs s ! j)" if j: "j < length (procs s)" "j \<noteq> i" "proc_ok (nodes s) (procs s ! j)" for j
  proof (cases "has_lock (at (procs s ! j))")
    case True
    then have "nodes s \<noteq> []" "at_ok (at (procs s ! j)) (pid (procs s ! j)) (nodes s ! 0)"
      using j(3) by (auto simp: proc_ok_def dest: has_lock_open)
    then show ?thesis using j True d [OF j(1,2)] at_ok_held keep by (auto simp: proc_ok_def)
  qed (use j in \<open>auto simp: proc_ok_def\<close>)
  moreover have "held_ok ?nds ((procs s)[i := (procs s ! i)\<lparr>at := CExit h\<rparr>])"
  proof -
    have "held_ok (nodes s) (procs s)" using inv by (simp add: cpf_inv_def)
    then consider "nodes s = []" | "nodes s \<noteq> []" "held (nodes s ! 0) = []"
      | j where "nodes s \<noteq> []" "j < length (procs s)" "has_lock (at (procs s ! j))" "held (nodes s ! 0) = [whole (pid (procs s ! j))]"
      unfolding held_ok_def by (metis in_set_conv_nth)
    then show ?thesis
    proof cases
      case (3 j)
      show ?thesis
      proof (cases "j = i")
        case True
        then show ?thesis using 3 by (simp add: held_ok_def release_def whole_def)
      next
        case False
        then have "procs s ! j \<in> set ((procs s)[i := (procs s ! i)\<lparr>at := CExit h\<rparr>])"
          using 3(2) by (metis in_set_conv_nth length_list_update nth_list_update_neq)
        then show ?thesis using 3 keep [OF 3(4) d [OF 3(2) False]] by (auto simp: held_ok_def)
      qed
    qed (auto simp: held_ok_def release_def)
  qed
  ultimately have "cpf_inv (s\<lparr>procs := (procs s)[i := (procs s ! i)\<lparr>at := CExit h\<rparr>], nodes := ?nds\<rparr>)"
    by (intro cpf_inv_change [OF inv i]) (auto simp: proc_ok_def)
  then show ?thesis by (simp add: finish_def)
qed

text \<open>The lock is refused exactly if another process has it.\<close>

lemma lock_whole:
  assumes "cpf_inv s" "i < length (procs s)" "at (procs s ! i) = CLock"
  shows "if held (nodes s ! 0) = []
    then \<exists>fl. lockRegion (Process (pid (procs s ! i))) 0 n F_WRLCK SEEK_SET 0 0 (held (nodes s ! 0)) = Some (Inr (fl, [whole (pid (procs s ! i))]))
    else lockRegion (Process (pid (procs s ! i))) 0 n F_WRLCK SEEK_SET 0 0 (held (nodes s ! 0)) = Some (Inl EAGAIN)"
proof -
  have nds: "nodes s \<noteq> []" using assms by (auto simp: cpf_inv_def list_all_length proc_ok_def)
  have g: "region (request F_WRLCK SEEK_SET 0 0) 0 n = Inr (0, LONG_MAX)" by (simp add: region_def LONG_MAX_def)
  show ?thesis
  proof (cases "held (nodes s ! 0) = []")
    case True
    then show ?thesis using g by (simp add: lockRegion_def lockReg_def fcntl_lk_def set_lock_def whole_def)
  next
    case False
    then obtain c where c: "c \<in> set (procs s)" "has_lock (at c)" "held (nodes s ! 0) = [whole (pid c)]"
      using assms(1) nds unfolding cpf_inv_def held_ok_def by blast
    obtain j where j: "j < length (procs s)" "c = procs s ! j" using c(1) by (auto simp: in_set_conv_nth)
    have "j \<noteq> i" using c(2) j assms(3) by auto
    then have "pid c \<noteq> pid (procs s ! i)" using assms(1,2) j by (auto simp: cpf_inv_def distinct_conv_nth)
    then have "conflicts (Process (pid (procs s ! i))) F_WRLCK 0 LONG_MAX (whole (pid c))"
      by (simp add: conflicts_def overlaps_def whole_def LONG_MAX_def)
    then show ?thesis using g c(3) by (simp add: lockRegion_def lockReg_def fcntl_lk_def)
  qed
qed

lemma cpf_inv_lock:
  assumes inv: "cpf_inv s" and i: "i < length (procs s)" and a: "at (procs s ! i) = CLock" and free: "held (nodes s ! 0) = []"
  shows "cpf_inv (goto i CTrunc (on_node i (\<lambda>nd. nd\<lparr>held := [whole (pid (procs s ! i))]\<rparr>) s))"
proof -
  have p: "proc_ok (nodes s) (procs s ! i)" using inv i by (simp add: cpf_inv_def list_all_length)
  then have n: "ino (procs s ! i) = 0" "nodes s \<noteq> []" using a by (auto simp: proc_ok_def)
  let ?c = "(procs s ! i)\<lparr>at := CTrunc\<rparr>"
  let ?nds = "(nodes s)[0 := (nodes s ! 0)\<lparr>held := [whole (pid (procs s ! i))]\<rparr>]"
  have "proc_ok ?nds (procs s ! j)" if "j < length (procs s)" "proc_ok (nodes s) (procs s ! j)" for j
    using that free at_ok_held by (fastforce simp: proc_ok_def)
  moreover have "held_ok ?nds ((procs s)[i := ?c])"
    using n i set_update_memI [OF i, of ?c] unfolding held_ok_def by (intro disjI2 bexI [of _ ?c]) auto
  moreover have "proc_ok ?nds ?c" using n by (simp add: proc_ok_def)
  ultimately have "cpf_inv (s\<lparr>procs := (procs s)[i := ?c], nodes := ?nds\<rparr>)"
    by (intro cpf_inv_change [OF inv i]) auto
  moreover have "goto i CTrunc (on_node i (\<lambda>nd. nd\<lparr>held := [whole (pid (procs s ! i))]\<rparr>) s) = s\<lparr>procs := (procs s)[i := ?c], nodes := ?nds\<rparr>"
    by (cases s) (use n in \<open>simp add: goto_def on_node_def\<close>)
  ultimately show ?thesis by simp
qed

lemma cpf_inv_open:
  assumes "cpf_inv s" "fname s = None"
  shows "cpf_inv (s\<lparr>fname := Some (length (nodes s)), nodes := nodes s @ [\<lparr>data = [], held = []\<rparr>]\<rparr>)"
proof -
  have "nodes s = []" using assms by (auto simp: cpf_inv_def)
  then show ?thesis using assms by (auto simp: cpf_inv_def held_ok_def list_all_iff proc_ok_def dest: has_lock_open)
qed

lemma createPidFile_inv:
  assumes inv: "cpf_inv s" and i: "i < length (procs s)" and run: "createPidFile clo (at (procs s ! i)) i s = Some t"
  shows "cpf_inv t"
proof -
  have p: "proc_ok (nodes s) (procs s ! i)" using inv i by (simp add: cpf_inv_def list_all_length)
  show ?thesis
  proof (cases "at (procs s ! i)")
    case COpen
    define u where "u = (if fname s = None then s\<lparr>fname := Some (length (nodes s)), nodes := nodes s @ [\<lparr>data = [], held = []\<rparr>]\<rparr> else s)"
    have u: "cpf_inv u" "procs u = procs s" "fname u = Some 0" "nodes u \<noteq> []"
      using inv cpf_inv_open [OF inv] unfolding u_def by (auto simp: cpf_inv_def)
    have t: "t = u\<lparr>procs := (procs u)[i := (procs u ! i)\<lparr>ino := 0, at := (if clo then CGetfd else CLock)\<rparr>]\<rparr>"
      using run COpen u(3) by (simp add: Let_def flip: u_def)
    show ?thesis unfolding t using u i COpen by (intro cpf_inv_move) auto
  next
    case CLock
    then have n: "ino (procs s ! i) = 0" using p by (auto simp: proc_ok_def)
    show ?thesis
      using run CLock n lock_whole [OF inv i CLock, of "int (length (data (nodes s ! 0)))"] cpf_inv_lock [OF inv i CLock]
        cpf_inv_finish [OF inv i] by (auto simp: Let_def split: if_splits)
  next
    case CTrunc
    then show ?thesis
      using run p cpf_inv_write [OF inv i, of CWrite "\<lambda>nd. nd\<lparr>data := []\<rparr>"] by (auto simp: proc_ok_def)
  next
    case CWrite
    let ?b = "pid_text (pid (procs s ! i))"
    show ?thesis
      using run p CWrite cpf_inv_write [OF inv i, of CReturn "\<lambda>nd. nd\<lparr>data := ?b @ drop (length ?b) (data nd)\<rparr>"]
      by (auto simp: proc_ok_def Let_def)
  qed (use run p inv i in \<open>auto simp: goto_def proc_ok_def intro!: cpf_inv_move\<close>)
qed

lemma short_write_inv:
  assumes inv: "cpf_inv s" and i: "i < length (procs s)" and a: "at (procs s ! i) = CWrite"
  shows "cpf_inv (finish i h (on_node i (\<lambda>nd. nd\<lparr>data := f (data nd)\<rparr>) s))"
proof -
  have p: "proc_ok (nodes s) (procs s ! i)" using inv i by (simp add: cpf_inv_def list_all_length)
  let ?f = "\<lambda>nd. nd\<lparr>data := f (data nd)\<rparr>"
  have "cpf_inv (goto i CTrunc (on_node i ?f s))"
    using cpf_inv_write [OF inv i, of CTrunc ?f] p a by (auto simp: proc_ok_def)
  then have "cpf_inv (finish i h (goto i CTrunc (on_node i ?f s)))"
    by (rule cpf_inv_finish) (use i in \<open>simp add: goto_def on_node_def\<close>)
  moreover have "finish i h (goto i CTrunc (on_node i ?f s)) = finish i h (on_node i ?f s)"
    using i by (simp add: finish_def goto_def on_node_def)
  ultimately show ?thesis by simp
qed

lemma cpf_step_inv: "cpf_inv s \<Longrightarrow> cpf_step clo s t \<Longrightarrow> cpf_inv t"
  by (elim cpf_step.cases) (auto intro: createPidFile_inv cpf_inv_finish short_write_inv)

lemma cpf_env_inv: "cpf_inv s \<Longrightarrow> cpf_env s t \<Longrightarrow> cpf_inv t"
  by (elim cpf_env.cases) (auto intro: cpf_inv_finish)

lemma createPidFile_pids:
  "createPidFile clo a i s = Some t \<Longrightarrow> i < length (procs s) \<Longrightarrow> map pid (procs t) = map pid (procs s)"
  by (cases a) (auto simp: Let_def goto_def on_node_def finish_def map_update list_update_same_conv split: option.splits sum.splits)

lemma cpf_step_pids: "cpf_step clo s t \<Longrightarrow> map pid (procs t) = map pid (procs s)"
  by (elim cpf_step.cases) (auto simp: createPidFile_pids finish_def on_node_def map_update list_update_same_conv)

lemma cpf_env_pids: "cpf_env s t \<Longrightarrow> map pid (procs t) = map pid (procs s)"
  by (elim cpf_env.cases) (auto simp: finish_def map_update list_update_same_conv)

subsection \<open>Termination\<close>

fun calls_left :: "cpf_at \<Rightarrow> int" where
  "calls_left COpen = 7" | "calls_left CGetfd = 6" | "calls_left CSetfd = 5" | "calls_left CLock = 4" | "calls_left CTrunc = 3"
| "calls_left CWrite = 2" | "calls_left CReturn = 1" | "calls_left (CExit h) = 0"

fun settled :: "cpf_at \<Rightarrow> bool" where
  "settled CReturn = True" | "settled (CExit h) = True" | "settled _ = False"

definition cpf_left :: "pidsys \<Rightarrow> int" where
  "cpf_left s = sumw (\<lambda>c. calls_left (at c)) (procs s)"

lemma calls_left_nonneg: "0 \<le> calls_left a"
  by (cases a) auto

lemma cpf_left_update:
  "i < length (procs s) \<Longrightarrow> procs t = (procs s)[i := c] \<Longrightarrow> cpf_left t = cpf_left s - calls_left (at (procs s ! i)) + calls_left (at c)"
  by (simp add: cpf_left_def sumw_update)

lemma createPidFile_left:
  assumes "createPidFile clo (at (procs s ! i)) i s = Some t" "i < length (procs s)"
  shows "cpf_left t < cpf_left s"
proof -
  have "\<exists>c. procs t = (procs s)[i := c] \<and> calls_left (at c) < calls_left (at (procs s ! i))"
    using assms by (cases "at (procs s ! i)") (auto simp: Let_def goto_def on_node_def finish_def split: option.splits sum.splits if_splits)
  then show ?thesis using cpf_left_update [OF assms(2)] by force
qed

lemma cpf_step_left: "cpf_step clo s t \<Longrightarrow> cpf_left t < cpf_left s"
proof (elim cpf_step.cases)
  fix i s' t'
  assume "s = s'" "t = t'" "i < length (procs s')" "createPidFile clo (at (procs s' ! i)) i s' = Some t'"
  then show ?thesis using createPidFile_left by simp
qed (auto simp: cpf_left_def finish_def on_node_def sumw_update)

lemma cpf_env_left: "cpf_env s t \<Longrightarrow> cpf_left t \<le> cpf_left s"
  by (elim cpf_env.cases) (simp add: cpf_left_def finish_def sumw_update)

lemma cpf_left_nonneg: "0 \<le> cpf_left s"
  unfolding cpf_left_def by (rule sumw_nonneg) (rule calls_left_nonneg)

lemma lockRegion_returns: "\<exists>r. lockRegion own pos sz ty wh start len tbl = Some r"
  by (auto simp: region_locking_defs split: sum.splits option.splits)

lemma cpf_progress:
  assumes "\<not> list_all (\<lambda>c. settled (at c)) (procs s)"
  shows "\<exists>t. cpf_step clo s t"
proof -
  obtain i where i: "i < length (procs s)" "\<not> settled (at (procs s ! i))" using assms by (auto simp: list_all_length)
  have "\<exists>t. createPidFile clo (at (procs s ! i)) i s = Some t"
  proof (cases "at (procs s ! i)")
    case CLock
    let ?nd = "nodes s ! ino (procs s ! i)"
    obtain r where "lockRegion (Process (pid (procs s ! i))) 0 (int (length (data ?nd))) F_WRLCK SEEK_SET 0 0 (held ?nd) = Some r"
      using lockRegion_returns by blast
    then show ?thesis using CLock by (auto simp: Let_def split: sum.splits)
  qed (use i in \<open>auto simp: Let_def\<close>)
  then show ?thesis using cpf_step.call [OF i(1)] by blast
qed

interpretation cpf: bounded_system "cpf_step clo" cpf_env "\<lambda>s. cpf_inv s \<and> map pid (procs s) = pids" cpf_left 0
  "\<lambda>s. list_all (\<lambda>c. settled (at c)) (procs s)" for clo pids
  by unfold_locales
    (auto intro: cpf_step_inv cpf_env_inv cpf_step_left cpf_env_left cpf_progress cpf_left_nonneg
      simp: cpf_step_pids cpf_env_pids)

subsection \<open>Exclusion\<close>

lemma pid_text_eq:
  assumes "0 < p" "p \<le> INT_MAX"
  shows "pid_text p = decimal_int p @ [CHR 0x0A]"
proof -
  have "nat p < 10 ^ Suc 9" using assms by (simp add: INT_MAX_def)
  then have "length (decimal_int p) \<le> 10" using decimal_length [of "nat p" 9] assms by (simp add: decimal_int_def)
  then show ?thesis by (simp add: pid_text_def snprintf_str_def)
qed


text \<open>Running a schedule, the last action first.\<close>

datatype cpf_action = Call nat | Ends nat | Unlink nat

fun cpf_act :: "bool \<Rightarrow> cpf_action \<Rightarrow> pidsys \<Rightarrow> pidsys option" where
  "cpf_act clo (Call i) s = (if i < length (procs s) then createPidFile clo (at (procs s ! i)) i s else None)"
| "cpf_act clo (Ends i) s =
     (if i < length (procs s) \<and> at (procs s ! i) = CReturn then Some (finish i (Exit EXIT_SUCCESS) s) else None)"
| "cpf_act clo (Unlink i) s = (if i < length (procs s) \<and> at (procs s ! i) = CReturn then Some (s\<lparr>fname := None\<rparr>) else None)"

fun cpf_schedule :: "bool \<Rightarrow> pidsys \<Rightarrow> cpf_action list \<Rightarrow> pidsys option" where
  "cpf_schedule clo s [] = Some s"
| "cpf_schedule clo s (x # xs) = Option.bind (cpf_schedule clo s xs) (cpf_act clo x)"

lemma cpf_schedule_run:
  "cpf_schedule clo s (map Call is) = Some t \<Longrightarrow> run_of (cpf_step clo) cpf_env (length is) 0 s t"
  by (induction "is" arbitrary: t)
    (auto simp: Option.bind_eq_Some_conv intro: run_of.intros cpf_step.intros split: if_splits)

definition cpf_any :: "bool \<Rightarrow> pidsys \<Rightarrow> pidsys \<Rightarrow> bool" where
  "cpf_any clo s t \<longleftrightarrow> cpf_step clo s t \<or> cpf_env s t \<or> cpf_unlink s t"

lemma cpf_act_any: "cpf_act clo x s = Some t \<Longrightarrow> cpf_any clo s t"
  by (cases x) (auto simp: cpf_any_def intro: cpf_step.intros cpf_env.intros cpf_unlink.intros split: if_splits)

lemma cpf_schedule_reach: "cpf_schedule clo s xs = Some t \<Longrightarrow> (cpf_any clo)\<^sup>*\<^sup>* s t"
proof (induction xs arbitrary: t)
  case (Cons x xs)
  then obtain u where "cpf_schedule clo s xs = Some u" "cpf_act clo x u = Some t" by (auto simp: Option.bind_eq_Some_conv)
  then show ?case using Cons.IH cpf_act_any [of clo x u t] by (meson rtranclp.rtrancl_into_rtrancl)
qed simp

lemmas cpf_eval = cpf_start_def goto_def on_node_def finish_def release_def Let_def lockRegion_def lockReg_def fcntl_lk_def
  region_def LONG_MAX_def conflicts_def overlaps_def set_lock_def cut_def

definition cpf_demo_end :: pidsys where
  "cpf_demo_end =
     \<lparr>fname = Some 0,
      nodes = [\<lparr>data = pid_text 10, held = [\<lparr>lk_owner = Process 10, lk_type = F_WRLCK, lk_from = 0, lk_to = LONG_MAX\<rparr>]\<rparr>],
      procs = [\<lparr>pid = 10, at = CReturn, ino = 0, cloexec = False\<rparr>, \<lparr>pid = 20, at = CExit (Exit EXIT_FAILURE), ino = 0, cloexec = False\<rparr>]\<rparr>"

lemma cpf_demo: "cpf_schedule False (cpf_start None [10, 20]) (map Call (rev [0, 1, 0, 1, 0, 0])) = Some cpf_demo_end"
  by (simp add: cpf_eval cpf_demo_end_def)


text \<open>Removing the PID file, which createPidFile() leaves to its caller, breaks the exclusion. A process that opened the file
  before the holder removed it and ended locks the removed file, a third process creates and locks a new one, and
  both return.\<close>
theorem createPidFile_unlink_race:
  assumes "distinct [p, q, r]"
  shows "\<exists>t. (cpf_any False)\<^sup>*\<^sup>* (cpf_start None [p, q, r]) t \<and> at (procs t ! 1) = CReturn \<and> at (procs t ! 2) = CReturn"
proof -
  have "\<exists>t. cpf_schedule False (cpf_start None [p, q, r])
      (rev [Call 0, Call 0, Call 0, Call 0, Call 1, Unlink 0, Ends 0, Call 1, Call 1, Call 1, Call 2, Call 2, Call 2, Call 2]) = Some t \<and>
      at (procs t ! 1) = CReturn \<and> at (procs t ! 2) = CReturn"
    using assms by (simp add: cpf_eval)
  then show ?thesis using cpf_schedule_reach by blast
qed

theorem createPidFile_unlink_race_witness:
  "\<exists>t. (cpf_any False)\<^sup>*\<^sup>* (cpf_start None [10, 20, 30]) t \<and> at (procs t ! 1) = CReturn \<and> at (procs t ! 2) = CReturn"
  by (rule createPidFile_unlink_race) simp

end
