(* ===== verification/Fcntl_Locking.thy ===== *)
theory Fcntl_Locking
  imports Record_Locks C_Stdio Get_Num
begin

text \<open>
  The interactive locking program \<^verbatim>\<open>filelock/i_fcntl_locking.c\<close>, and any number of copies of it working on
  the same files.  One iteration of the command loop of one copy is one step.  The answer of
  \<^verbatim>\<open>fstat()\<close> for a file, its size and its locks are the state of the file; a failing \<^verbatim>\<open>fcntl()\<close> is an argument.
  The local variables of \<^verbatim>\<open>main()\<close> keep their values between iterations, and start with arbitrary ones.
\<close>

abbreviation (input) EDEADLK :: int where "EDEADLK \<equiv> 35"
abbreviation (input) MAX_LINE :: nat where "MAX_LINE \<equiv> 100"
abbreviation (input) S_ISGID :: "32 word" where "S_ISGID \<equiv> 0x400"
abbreviation (input) S_IXGRP :: "32 word" where "S_IXGRP \<equiv> 8"

record lfile =
  f_stat :: "int + 32 word"
  f_size :: int
  f_locks :: "lk list"

text \<open>A copy of the program: its files by argument number, its unread input, its variables and its output.\<close>

record copy =
  c_pid :: int
  c_args :: "string list"
  fdList :: "nat list"             \<comment> \<open>the file behind each argument\<close>
  c_descr :: "nat list"            \<comment> \<open>the open file description of each argument\<close>
  c_in :: string
  fileNum :: int
  cmdCh :: char
  lock_ch :: char
  c_st :: int
  c_len :: int
  c_out :: proc

record ifl =
  files :: "lfile list"
  me :: copy

definition put :: "string \<Rightarrow> ifl \<Rightarrow> ifl" where
  "put txt s = s\<lparr>me := (me s)\<lparr>c_out := (c_out (me s))\<lparr>stdout_buf := stdout_buf (c_out (me s)) @ txt\<rparr>\<rparr>\<rparr>"

definition on_out :: "(proc \<Rightarrow> proc) \<Rightarrow> ifl \<Rightarrow> ifl" where
  "on_out f s = s\<lparr>me := (me s)\<lparr>c_out := f (c_out (me s))\<rparr>\<rparr>"

fun lift_out :: "(proc \<Rightarrow> (proc, 'a) run) \<Rightarrow> ifl \<Rightarrow> (ifl, 'a) run" where
  "lift_out f s =
     (case f (c_out (me s)) of Done a p \<Rightarrow> Done a (s\<lparr>me := (me s)\<lparr>c_out := p\<rparr>\<rparr>) | Halt h p \<Rightarrow> Halt h (s\<lparr>me := (me s)\<lparr>c_out := p\<rparr>\<rparr>))"

text \<open>The file behind argument number \<open>j\<close>.\<close>

definition file_of :: "nat \<Rightarrow> ifl \<Rightarrow> lfile" where
  "file_of j s = files s ! (fdList (me s) ! (j - 1))"

definition mandLockingEnabled :: "env_tables \<Rightarrow> nat \<Rightarrow> ifl \<Rightarrow> (ifl, bool) run" where
  "mandLockingEnabled tb j s =
     (case f_stat (file_of j s) of
        Inl e \<Rightarrow> lift_out (errExit tb ''stat'') (on_out (\<lambda>p. p\<lparr>errno := e\<rparr>) s)
      | Inr st_mode \<Rightarrow> Done (st_mode AND S_ISGID \<noteq> 0 \<and> st_mode AND S_IXGRP = 0) s)"

definition pad_right :: "nat \<Rightarrow> string \<Rightarrow> string" where
  "pad_right n t = t @ replicate (n - length t) (CHR '' '')"

definition pad_left :: "nat \<Rightarrow> string \<Rightarrow> string" where
  "pad_left n t = replicate (n - length t) (CHR '' '') @ t"

text \<open>One line per file, with its kind of locking.\<close>

definition show_file :: "env_tables \<Rightarrow> (nat \<Rightarrow> string) \<Rightarrow> string \<Rightarrow> nat \<Rightarrow> ifl \<Rightarrow> (ifl, unit) run" where
  "show_file tb before after j s =
     andThen (mandLockingEnabled tb j s) (\<lambda>mand s.
       Done () (put (before j @ (if mand then ''mandatory'' else ''advisory'') @ after @ nl) s))"

definition displayCmdFmt :: "env_tables \<Rightarrow> string list \<Rightarrow> ifl \<Rightarrow> (ifl, unit) run" where
  "displayCmdFmt tb argv s =
     andThen
       (if length argv = 2 then Done () (put (nl @ ''Format: cmd lock start length [whence]'' @ nl @ nl) s)
        else
          forEach (show_file tb (\<lambda>j. ''        '' @ pad_left 2 (decimal j) @ ''  '' @ pad_right 10 (argv ! j) @ '' ['') '' locking]'')
            [1..<length argv]
            (put (''    file-num is a number from the following list'' @ nl)
              (put (nl @ ''Format: '' @ (if length argv > 2 then ''file-num '' else []) @ ''cmd lock start length [whence]'' @ nl @ nl) s)))
       (\<lambda>_ s.
         Done () (put (
           ''    'cmd' is 'g' (GETLK), 's' (SETLK), or 'w' (SETLKW)'' @ nl @
           ''        or for OFD locks: 'G' (OFD_GETLK), 'S' (OFD_SETLK), or 'W' (OFD_SETLKW)'' @ nl @
           ''    'lock' is 'r' (READ), 'w' (WRITE), or 'u' (UNLOCK)'' @ nl @
           ''    'start' and 'length' specify byte range to lock'' @ nl @
           ''    'whence' is 's' (SEEK_SET, default), 'c' (SEEK_CUR), or 'e' (SEEK_END)'' @ nl @ nl) s))"

section \<open>Commands\<close>

text \<open>The conversions of a \<^verbatim>\<open>sscanf()\<close> format, and what they assign.\<close>

datatype conv = Cc | Cd | Clld
datatype scanned = Ch (the_ch: char) | Num (the_num: int)

fun sscanf_items :: "conv list \<Rightarrow> string \<Rightarrow> scanned list" where
  "sscanf_items [] txt = []"
| "sscanf_items (Cc # cs) txt = (case scan_c (skip_space txt) of None \<Rightarrow> [] | Some (c, r) \<Rightarrow> Ch c # sscanf_items cs r)"
| "sscanf_items (Cd # cs) txt = (case scan_d txt of None \<Rightarrow> [] | Some (v, r) \<Rightarrow> Num v # sscanf_items cs r)"
| "sscanf_items (Clld # cs) txt = (case scan_lld txt of None \<Rightarrow> [] | Some (v, r) \<Rightarrow> Num v # sscanf_items cs r)"

definition assigned :: "scanned list \<Rightarrow> nat \<Rightarrow> (scanned \<Rightarrow> 'a) \<Rightarrow> 'a \<Rightarrow> 'a" where
  "assigned vals k f old = (if k < length vals then f (vals ! k) else old)"

definition scan_request :: "nat \<Rightarrow> string \<Rightarrow> copy \<Rightarrow> nat \<times> char \<times> copy" where
  "scan_request argc line c =
     (if argc = 2 then
        let vals = sscanf_items [Cc, Cc, Clld, Clld, Cc] line
        in (length vals, assigned vals 4 the_ch (CHR ''s''),
            c\<lparr>fileNum := 1, cmdCh := assigned vals 0 the_ch (cmdCh c), lock_ch := assigned vals 1 the_ch (lock_ch c),
              c_st := assigned vals 2 the_num (c_st c), c_len := assigned vals 3 the_num (c_len c)\<rparr>)
      else
        let vals = sscanf_items [Cd, Cc, Cc, Clld, Clld, Cc] line
        in (length vals, assigned vals 5 the_ch (CHR ''s''),
            c\<lparr>fileNum := assigned vals 0 the_num (fileNum c), cmdCh := assigned vals 1 the_ch (cmdCh c),
              lock_ch := assigned vals 2 the_ch (lock_ch c), c_st := assigned vals 3 the_num (c_st c),
              c_len := assigned vals 4 the_num (c_len c)\<rparr>))"

definition lock_cmd :: "char \<Rightarrow> lcmd" where
  "lock_cmd c = (if c = CHR ''G'' \<or> c = CHR ''g'' then F_GETLK else if c = CHR ''S'' \<or> c = CHR ''s'' then F_SETLK else F_SETLKW)"

definition lock_owner :: "copy \<Rightarrow> nat \<Rightarrow> char \<Rightarrow> lowner" where
  "lock_owner c j ch = (if ch \<in> {CHR ''G'', CHR ''S'', CHR ''W''} then Description (c_descr c ! (j - 1)) else Process (c_pid c))"

definition lock_type :: "char \<Rightarrow> ltype" where
  "lock_type c = (if c = CHR ''r'' then F_RDLCK else if c = CHR ''w'' then F_WRLCK else F_UNLCK)"

definition lock_whence :: "char \<Rightarrow> whence" where
  "lock_whence c = (if c = CHR ''c'' then SEEK_CUR else if c = CHR ''e'' then SEEK_END else SEEK_SET)"

definition pid_tag :: "ifl \<Rightarrow> string" where
  "pid_tag s = ''[PID='' @ decimal_int (c_pid (me s)) @ ''] ''"

text \<open>The answer of a request: the message for the user.\<close>

definition getlk_reply :: "env_tables \<Rightarrow> int + flock \<Rightarrow> ifl \<Rightarrow> ifl" where
  "getlk_reply tb r s =
     (case r of
        Inl e \<Rightarrow> on_out (\<lambda>p. errMsg tb ''fcntl'' (p\<lparr>errno := e\<rparr>)) s
      | Inr fl \<Rightarrow>
          if l_type fl = F_UNLCK then put (pid_tag s @ ''Lock can be placed'' @ nl) s
          else put (pid_tag s @ ''Denied by '' @ (if l_type fl = F_RDLCK then ''READ'' else ''WRITE'') @ '' lock on '' @
                 decimal_int (l_start fl) @ '':'' @ decimal_int (l_len fl) @ '' (held by PID '' @ decimal_int (l_pid fl) @ '')'' @ nl) s)"

definition setlk_reply :: "env_tables \<Rightarrow> char \<Rightarrow> int option \<Rightarrow> ifl \<Rightarrow> ifl" where
  "setlk_reply tb lk r s =
     (case r of
        None \<Rightarrow> put (pid_tag s @ (if lk = CHR ''u'' then ''unlocked'' else ''got lock'') @ nl) s
      | Some e \<Rightarrow>
          if e = EAGAIN \<or> e = EACCES then put (pid_tag s @ ''failed (incompatible lock)'' @ nl) s
          else if e = EDEADLK then put (pid_tag s @ ''failed (deadlock)'' @ nl) s
          else on_out (\<lambda>p. errMsg tb ''fcntl'' (p\<lparr>errno := e\<rparr>)) s)"

text \<open>
  Carrying out a request on file \<open>j\<close>: \<open>None\<close> while it waits.  The offset of the file is always 0; \<open>fault\<close> is an
  error of the call for another reason than an incompatible lock.
\<close>

definition perform :: "env_tables \<Rightarrow> int option \<Rightarrow> nat \<Rightarrow> char \<Rightarrow> ifl \<Rightarrow> ifl option" where
  "perform tb fault j wh s =
     (let c = me s; cmd = lock_cmd (cmdCh c); f = file_of j s;
          fl = \<lparr>l_type = lock_type (lock_ch c), l_whence = lock_whence wh, l_start = c_st c, l_len = c_len c, l_pid = 0\<rparr>;
          r = (case fault of Some e \<Rightarrow> Some (Inl e) | None \<Rightarrow> fcntl_lk cmd (lock_owner c j (cmdCh c)) 0 (f_size f) fl (f_locks f))
      in case r of
           None \<Rightarrow> None
         | Some (Inl e) \<Rightarrow> Some (if cmd = F_GETLK then getlk_reply tb (Inl e) s else setlk_reply tb (lock_ch c) (Some e) s)
         | Some (Inr (fl', locks')) \<Rightarrow>
             (let s' = s\<lparr>files := (files s)[fdList c ! (j - 1) := f\<lparr>f_locks := locks'\<rparr>]\<rparr>
              in Some (if cmd = F_GETLK then getlk_reply tb (Inr fl') s' else setlk_reply tb (lock_ch c) None s')))"

text \<open>The body of the command loop for a line without its newline.\<close>

definition do_command :: "env_tables \<Rightarrow> int option \<Rightarrow> string list \<Rightarrow> string \<Rightarrow> ifl \<Rightarrow> ifl option" where
  "do_command tb fault argv line s =
     (case scan_request (length argv) line (me s) of
        (numRead, wh, c) \<Rightarrow>
          let s = s\<lparr>me := c\<rparr>; argc = length argv
          in if fileNum c < 1 \<or> fileNum c \<ge> int argc
             then Some (put (''File number must be in range 1 to '' @ decimal_int (int argc - 1) @ nl) s)
             else if \<not> (numRead \<ge> 4 \<and> argc = 2 \<or> numRead \<ge> 5 \<and> argc > 2) \<or>
                     cmdCh c \<notin> set ''gswGSW'' \<or> lock_ch c \<notin> set ''rwu'' \<or> wh \<notin> set ''sce''
             then Some (put (''Invalid command!'' @ nl) s)
             else perform tb fault (nat (fileNum c)) wh s)"

definition prompt :: "ifl \<Rightarrow> ifl" where
  "prompt s = on_out fflush_stdout (put (''PID='' @ decimal_int (c_pid (me s)) @ ''> '') s)"

text \<open>One iteration: \<open>None\<close> while the request waits, otherwise the next iteration follows or the process ends.\<close>

definition i_fcntl_iter :: "env_tables \<Rightarrow> int option \<Rightarrow> ifl \<Rightarrow> (ifl, unit) run option" where
  "i_fcntl_iter tb fault s =
     (let s = prompt s; argv = c_args (me s)
      in case fgets MAX_LINE (c_in (me s)) of
           None \<Rightarrow> Some (lift_out (do_exit EXIT_SUCCESS) s)
         | Some (buf, rest) \<Rightarrow>
             let s = s\<lparr>me := (me s)\<lparr>c_in := rest\<rparr>\<rparr>; str = takeWhile (\<lambda>ch. ch \<noteq> NUL) buf
             in if str = [] then Some (Halt Fault s)
                else let line = butlast str
                     in if line = [] then Some (Done () s)
                        else if hd line = CHR ''?'' then Some (displayCmdFmt tb argv s)
                        else map_option (Done ()) (do_command tb fault argv line s))"

text \<open>The start of the program, up to the loop.\<close>

fun open_files :: "env_tables \<Rightarrow> (string \<Rightarrow> int + nat) \<Rightarrow> nat \<Rightarrow> string list \<Rightarrow> ifl \<Rightarrow> (ifl, unit) run" where
  "open_files tb k_open d [] s = Done () s"
| "open_files tb k_open d (a # as) s =
     (case k_open a of
        Inl e \<Rightarrow> lift_out (errExit tb (''open ('' @ a @ '')'')) (on_out (\<lambda>p. p\<lparr>errno := e\<rparr>) s)
      | Inr f \<Rightarrow> open_files tb k_open (Suc d) as (s\<lparr>me := (me s)\<lparr>fdList := fdList (me s) @ [f], c_descr := c_descr (me s) @ [d]\<rparr>\<rparr>))"

definition i_fcntl_init :: "env_tables \<Rightarrow> (string \<Rightarrow> int + nat) \<Rightarrow> nat \<Rightarrow> int option \<Rightarrow> ifl \<Rightarrow> (ifl, unit) run" where
  "i_fcntl_init tb k_open d calloc_err s =
     (let argv = c_args (me s)
      in if length argv < 2 \<or> argv ! 1 = ''--help'' then lift_out (usageErr (hd argv @ '' file...'' @ nl)) s
         else case calloc_err of
           Some e \<Rightarrow> lift_out (errExit tb ''calloc'') (on_out (\<lambda>p. p\<lparr>errno := e\<rparr>) s)
         | None \<Rightarrow>
             andThen (open_files tb k_open d (tl argv) s) (\<lambda>_ s.
             andThen (forEach (show_file tb (\<lambda>j. pad_right 10 (argv ! j) @ '' '') []) [1..<length argv]
                        (put (''----       -------'' @ nl) (put (''File       Locking'' @ nl) s)))
               (\<lambda>_ s. Done () (put (''Enter ? for help'' @ nl) (put nl s)))))"

section \<open>Command lines\<close>

definition request_text :: "nat \<Rightarrow> nat \<Rightarrow> char \<Rightarrow> char \<Rightarrow> int \<Rightarrow> int \<Rightarrow> char \<Rightarrow> string" where
  "request_text argc j cmd lk start len wh =
     (if argc = 2 then [] else decimal j @ '' '') @ [cmd] @ '' '' @ [lk] @ '' '' @ decimal_int start @ '' '' @ decimal_int len @ '' '' @ [wh]"

lemma request_chars:
  "cmd \<in> set ''gswGSW'' \<Longrightarrow> \<not> isspace cmd \<and> cmd \<noteq> NUL \<and> cmd \<noteq> newline \<and> cmd \<noteq> CHR ''?''"
  "lk \<in> set ''rwu'' \<Longrightarrow> \<not> isspace lk \<and> lk \<noteq> NUL \<and> lk \<noteq> newline"
  "wh \<in> set ''sce'' \<Longrightarrow> \<not> isspace wh \<and> wh \<noteq> NUL \<and> wh \<noteq> newline"
  by (auto simp: isspace_def)

lemma blank: "isspace (CHR '' '')" "\<not> is_digit 10 (CHR '' '')"
  by (simp_all add: isspace_def is_digit_def digit_val_def)

lemma scan_five:
  assumes "\<not> isspace cmd" "\<not> isspace lk" "\<not> isspace wh" "LONG_MIN \<le> start" "start \<le> LONG_MAX" "LONG_MIN \<le> len" "len \<le> LONG_MAX"
    and ws: "list_all isspace ws"
  shows "sscanf_items [Cc, Cc, Clld, Clld, Cc]
      (ws @ [cmd] @ '' '' @ [lk] @ '' '' @ decimal_int start @ '' '' @ decimal_int len @ '' '' @ [wh]) =
    [Ch cmd, Ch lk, Num start, Num len, Ch wh]"
proof -
  have skip: "skip_space (ws @ [cmd] @ r) = cmd # r" for r using ws assms(1) by (induction ws) (auto simp: skip_space_def)
  have a: "scan_lld (CHR '' '' # decimal_int start @ CHR '' '' # r) = Some (start, CHR '' '' # r)"
    "scan_lld (CHR '' '' # decimal_int len @ CHR '' '' # r) = Some (len, CHR '' '' # r)" for r
    using scan_lld_decimal_int [of "'' ''" "CHR '' '' # r"] assms blank by simp_all
  show ?thesis unfolding sscanf_items.simps skip
    using assms a blank by (simp add: skip_space_def)
qed

lemma scan_request_text:
  assumes "cmd \<in> set ''gswGSW''" "lk \<in> set ''rwu''" "wh \<in> set ''sce''"
    and "LONG_MIN \<le> start" "start \<le> LONG_MAX" "LONG_MIN \<le> len" "len \<le> LONG_MAX"
    and "argc = 2 \<Longrightarrow> j = 1" "int j \<le> INT_MAX"
  shows "scan_request argc (request_text argc j cmd lk start len wh) c =
    (if argc = 2 then 5 else 6, wh, c\<lparr>fileNum := int j, cmdCh := cmd, lock_ch := lk, c_st := start, c_len := len\<rparr>)"
proof -
  note ch = request_chars(1) [OF assms(1)] request_chars(2) [OF assms(2)] request_chars(3) [OF assms(3)]
  note five = scan_five [of cmd lk wh start len] and l = assms(4-7)
  show ?thesis
  proof (cases "argc = 2")
    case True
    then show ?thesis using five [of "[]"] ch l assms(8)
      by (simp add: scan_request_def request_text_def assigned_def Let_def)
  next
    case False
    have "scan_d (decimal j @ CHR '' '' # r) = Some (int j, CHR '' '' # r)" for r
      using scan_d_decimal [of "[]" "CHR '' '' # r" j] blank assms(9) by simp
    then show ?thesis using five [of "'' ''"] ch l blank False
      by (simp add: scan_request_def request_text_def assigned_def Let_def)
  qed
qed

lemma request_text_line:
  assumes "cmd \<in> set ''gswGSW''" "lk \<in> set ''rwu''" "wh \<in> set ''sce''"
    and "LONG_MIN \<le> start" "start \<le> LONG_MAX" "LONG_MIN \<le> len" "len \<le> LONG_MAX" "int j \<le> INT_MAX"
  shows "\<And>ch. ch \<in> set (request_text argc j cmd lk start len wh) \<Longrightarrow> ch \<noteq> newline \<and> ch \<noteq> NUL"
    and "length (request_text argc j cmd lk start len wh) \<le> 97"
    and "request_text argc j cmd lk start len wh \<noteq> []" "hd (request_text argc j cmd lk start len wh) \<noteq> CHR ''?''"
proof -
  note ch = request_chars(1) [OF assms(1)] request_chars(2) [OF assms(2)] request_chars(3) [OF assms(3)]
  have d: "decimal_int (int j) = decimal j" by (simp add: decimal_int_def)
  show "ch \<noteq> newline \<and> ch \<noteq> NUL" if "ch \<in> set (request_text argc j cmd lk start len wh)" for ch
    using that ch line_chars [of ch start] line_chars [of ch len] line_chars [of ch "int j"]
    by (auto simp: request_text_def d split: if_splits)
  have "length (decimal j) \<le> 10" using assms(8) by (intro decimal_length [of j 9, simplified]) (simp add: INT_MAX_def)
  then show "length (request_text argc j cmd lk start len wh) \<le> 97"
    using decimal_long_length [OF assms(4,5)] decimal_long_length [OF assms(6,7)] by (simp add: request_text_def)
  show "request_text argc j cmd lk start len wh \<noteq> []" by (simp add: request_text_def)
  show "hd (request_text argc j cmd lk start len wh) \<noteq> CHR ''?''"
  proof (cases "argc = 2")
    case False
    obtain x xs where x: "decimal j = x # xs" "is_digit 10 x" using decimal_digits [of j] by (cases "decimal j") auto
    then have "x \<noteq> CHR ''?''" by (auto simp: is_digit_def digit_val_def)
    with x(1) False show ?thesis by (simp add: request_text_def)
  qed (use ch in \<open>simp add: request_text_def\<close>)
qed

text \<open>The state in which a request is carried out.\<close>

definition requested :: "nat \<Rightarrow> char \<Rightarrow> char \<Rightarrow> int \<Rightarrow> int \<Rightarrow> string \<Rightarrow> ifl \<Rightarrow> ifl" where
  "requested j cmd lk start len rest s =
     (let t = prompt s
      in t\<lparr>me := (me t)\<lparr>c_in := rest, fileNum := int j, cmdCh := cmd, lock_ch := lk, c_st := start, c_len := len\<rparr>\<rparr>)"

lemma requested_simps [simp]:
  "files (requested j cmd lk start len rest s) = files s"
  "file_of i (requested j cmd lk start len rest s) = file_of i s"
  "pid_tag (requested j cmd lk start len rest s) = pid_tag s"
  "cmdCh (me (requested j cmd lk start len rest s)) = cmd" "lock_ch (me (requested j cmd lk start len rest s)) = lk"
  "c_st (me (requested j cmd lk start len rest s)) = start" "c_len (me (requested j cmd lk start len rest s)) = len"
  "fdList (me (requested j cmd lk start len rest s)) = fdList (me s)"
  "lock_owner (me (requested j cmd lk start len rest s)) i ch = lock_owner (me s) i ch"
  "stdout_buf (c_out (me (requested j cmd lk start len rest s))) = []"
  by (simp_all add: requested_def prompt_def on_out_def put_def fflush_stdout_def file_of_def pid_tag_def lock_owner_def Let_def)

lemma request_performed:
  assumes "cmd \<in> set ''gswGSW''" "lk \<in> set ''rwu''" "wh \<in> set ''sce''"
    and "LONG_MIN \<le> start" "start \<le> LONG_MAX" "LONG_MIN \<le> len" "len \<le> LONG_MAX"
    and "0 < j" "j < length (c_args (me s))" "int j \<le> INT_MAX"
    and line: "c_in (me s) = request_text (length (c_args (me s))) j cmd lk start len wh @ newline # rest"
  shows "i_fcntl_iter tb fault s = map_option (Done ()) (perform tb fault j wh (requested j cmd lk start len rest s))"
proof -
  let ?argc = "length (c_args (me s))" and ?l = "request_text (length (c_args (me s))) j cmd lk start len wh"
  let ?p = "prompt s"
  note t = request_text_line [OF assms(1-7,10), where argc = ?argc]
  have g: "fgets MAX_LINE (?l @ newline # rest) = Some (?l @ [newline], rest)"
    by (rule fgets_line) (use t(1,2) in auto)
  have tw: "takeWhile (\<lambda>ch. ch \<noteq> NUL) (?l @ [newline]) = ?l @ [newline]"
    by (rule takeWhile_eq_all_conv [THEN iffD2]) (use t(1) in auto)
  have me: "c_args (me ?p) = c_args (me s)" "c_in (me ?p) = c_in (me s)" by (simp_all add: prompt_def on_out_def put_def)
  have j: "?argc = 2 \<Longrightarrow> j = 1" using assms(8,9) by simp
  have sc: "scan_request ?argc ?l c = (if ?argc = 2 then 5 else 6, wh, c\<lparr>fileNum := int j, cmdCh := cmd, lock_ch := lk, c_st := start, c_len := len\<rparr>)" for c
    by (rule scan_request_text [OF assms(1-7) j assms(10)])
  have "?argc \<noteq> 2 \<Longrightarrow> 2 < ?argc" using assms(8,9) by simp
  then have "do_command tb fault (c_args (me s)) ?l (?p\<lparr>me := (me ?p)\<lparr>c_in := rest\<rparr>\<rparr>) =
      perform tb fault j wh (requested j cmd lk start len rest s)"
    using assms(1-3,8,9) by (simp add: do_command_def sc Let_def requested_def del: set_simps list.set)
  then show ?thesis
    using t(3,4) unfolding i_fcntl_iter_def Let_def me line g option.case prod.case tw by simp
qed

lemma put_simps [simp]:
  "files (put txt s) = files s" "stdout_buf (c_out (me (put txt s))) = stdout_buf (c_out (me s)) @ txt" "file_of j (put txt s) = file_of j s"
  "pid_tag (s\<lparr>files := fs\<rparr>) = pid_tag s" "c_in (me (put txt s)) = c_in (me s)" "c_pid (me (put txt s)) = c_pid (me s)"
  "c_descr (me (put txt s)) = c_descr (me s)" "fdList (me (put txt s)) = fdList (me s)" "c_args (me (put txt s)) = c_args (me s)"
  by (simp_all add: put_def file_of_def pid_tag_def)

lemma same_file:
  "(files s)[fdList (me s) ! (j - Suc 0) := file_of j s] = files s"
  "(requested j cmd lk start len rest s)\<lparr>files := files s\<rparr> = requested j cmd lk start len rest s"
  by (simp_all add: file_of_def requested_def Let_def prompt_def on_out_def put_def)

definition denial :: "lk \<Rightarrow> string" where
  "denial l =
     ''Denied by '' @ (if lk_type l = F_RDLCK then ''READ'' else ''WRITE'') @ '' lock on '' @ decimal_int (lk_from l) @ '':'' @
     decimal_int (if lk_to l = LONG_MAX then 0 else lk_to l - lk_from l + 1) @ '' (held by PID '' @ decimal_int (owner_pid (lk_owner l)) @ '')''"

text \<open>C31: i_fcntl_locking.c does what a command line asks for and reports it truthfully. A request typed for file j is carried out on the
  region of bytes it denotes. If another owner holds a conflicting lock, s and S report the failure, g and G describe
  such a lock, nothing changes, and w and W wait; otherwise s, S, w and W give exactly the bytes of the region
  the lock, or remove it from them, and report that, and g and G report that the lock can be placed.\<close>
theorem i_fcntl_commands:
  assumes cl: "cmd \<in> set ''gswGSW''" "lk \<in> set ''rwu''" "wh \<in> set ''sce''"
    and num: "LONG_MIN \<le> start" "start \<le> LONG_MAX" "LONG_MIN \<le> len" "len \<le> LONG_MAX"
    and j: "0 < j" "j < length (c_args (me s))" "int j \<le> INT_MAX" "fdList (me s) ! (j - 1) < length (files s)"
    and line: "c_in (me s) = request_text (length (c_args (me s))) j cmd lk start len wh @ newline # rest"
    and reg: "region \<lparr>l_type = lock_type lk, l_whence = lock_whence wh, l_start = start, l_len = len, l_pid = 0\<rparr> 0 (f_size (file_of j s)) = Inr (a, b)"
    and ok: "locks_ok (f_locks (file_of j s))"
  shows "if \<exists>l\<in>set (f_locks (file_of j s)). conflicts (lock_owner (me s) j cmd) (lock_type lk) a b l
    then (cmd \<in> set ''wW'' \<longrightarrow> i_fcntl_iter tb None s = None) \<and>
      (cmd \<in> set ''sS'' \<longrightarrow> (\<exists>t. i_fcntl_iter tb None s = Some (Done () t) \<and> files t = files s \<and>
         stdout_buf (c_out (me t)) = pid_tag s @ ''failed (incompatible lock)'' @ nl)) \<and>
      (cmd \<in> set ''gG'' \<longrightarrow> (\<exists>t l. i_fcntl_iter tb None s = Some (Done () t) \<and> files t = files s \<and> l \<in> set (f_locks (file_of j s)) \<and>
         conflicts (lock_owner (me s) j cmd) (lock_type lk) a b l \<and> stdout_buf (c_out (me t)) = pid_tag s @ denial l @ nl))
    else (cmd \<in> set ''sSwW'' \<longrightarrow> (\<exists>t. i_fcntl_iter tb None s = Some (Done () t) \<and>
         (\<forall>i. i \<noteq> fdList (me s) ! (j - 1) \<longrightarrow> files t ! i = files s ! i) \<and>
         (\<forall>x y. lock_at (f_locks (files t ! (fdList (me s) ! (j - 1)))) x y =
            (if x = lock_owner (me s) j cmd \<and> a \<le> y \<and> y \<le> b then (if lk = CHR ''u'' then None else Some (lock_type lk))
             else lock_at (f_locks (file_of j s)) x y)) \<and>
         stdout_buf (c_out (me t)) = pid_tag s @ (if lk = CHR ''u'' then ''unlocked'' else ''got lock'') @ nl)) \<and>
      (cmd \<in> set ''gG'' \<longrightarrow> lk \<noteq> CHR ''u'' \<longrightarrow> (\<exists>t. i_fcntl_iter tb None s = Some (Done () t) \<and> files t = files s \<and>
         stdout_buf (c_out (me t)) = pid_tag s @ ''Lock can be placed'' @ nl))"
proof -
  let ?r = "requested j cmd lk start len rest s" and ?own = "lock_owner (me s) j cmd" and ?ty = "lock_type lk"
  note it = request_performed [OF cl num j(1-3) line, of tb None]
  note eval = perform_def fcntl_lk_def Let_def reg
  have cmds: "cmd \<in> set ''wW'' \<Longrightarrow> lock_cmd cmd = F_SETLKW" "cmd \<in> set ''sS'' \<Longrightarrow> lock_cmd cmd = F_SETLK"
    "cmd \<in> set ''gG'' \<Longrightarrow> lock_cmd cmd = F_GETLK" by (auto simp: lock_cmd_def)
  show ?thesis
  proof (cases "List.find (conflicts ?own ?ty a b) (f_locks (file_of j s))")
    case None
    have none: "\<not> (\<exists>l\<in>set (f_locks (file_of j s)). conflicts ?own ?ty a b l)" using None by (simp add: find_conflict(1))
    have ab: "a \<le> b" using region_le [OF reg] by simp
    have u: "?ty = F_UNLCK \<longleftrightarrow> lk = CHR ''u''" using cl(2) by (auto simp: lock_type_def)
    have 1: "i_fcntl_iter tb None s = Some (Done () (setlk_reply tb lk None
        (?r\<lparr>files := (files s)[fdList (me s) ! (j - 1) := (file_of j s)\<lparr>f_locks := set_lock ?own ?ty a b (f_locks (file_of j s))\<rparr>]\<rparr>)))"
      if "cmd \<in> set ''sSwW''"
      using that cmds None it by (auto simp: eval)
    have 2: "i_fcntl_iter tb None s = Some (Done () (put (pid_tag s @ ''Lock can be placed'' @ nl) ?r))"
      if "cmd \<in> set ''gG''" "lk \<noteq> CHR ''u''"
      using that(2) cmds(3) [OF that(1)] None it u by (simp add: eval getlk_reply_def same_file)
    show ?thesis using none 1 2 lock_at_set_lock [OF ab] j(4) u by (simp add: setlk_reply_def)
  next
    case (Some l)
    have l: "conflicts ?own ?ty a b l" "l \<in> set (f_locks (file_of j s))" using find_conflict(2) [OF Some] by simp_all
    then have l': "lk_type l \<noteq> F_UNLCK" using locks_okD(1) [OF ok] by (auto simp: lk_ok_def)
    have 1: "i_fcntl_iter tb None s = None" if "cmd \<in> set ''wW''" using cmds(1) [OF that] Some it by (simp add: eval)
    have 2: "i_fcntl_iter tb None s = Some (Done () (put (pid_tag s @ ''failed (incompatible lock)'' @ nl) ?r))" if "cmd \<in> set ''sS''"
      using cmds(2) [OF that] Some it by (simp add: eval setlk_reply_def)
    have 3: "i_fcntl_iter tb None s = Some (Done () (put (pid_tag s @ denial l @ nl) ?r))" if "cmd \<in> set ''gG''"
      using cmds(3) [OF that] Some it l' by (simp add: eval getlk_reply_def same_file describe_def denial_def)
    have y: "\<exists>l\<in>set (f_locks (file_of j s)). conflicts ?own ?ty a b l" using l by blast
    show ?thesis unfolding if_P [OF y]
    proof (intro conjI impI)
      assume c: "cmd \<in> set ''sS''"
      show "\<exists>t. i_fcntl_iter tb None s = Some (Done () t) \<and> files t = files s \<and>
          stdout_buf (c_out (me t)) = pid_tag s @ ''failed (incompatible lock)'' @ nl"
        by (rule exI, intro conjI, rule 2 [OF c]) simp_all
    next
      assume c: "cmd \<in> set ''gG''"
      show "\<exists>t l. i_fcntl_iter tb None s = Some (Done () t) \<and> files t = files s \<and> l \<in> set (f_locks (file_of j s)) \<and>
          conflicts ?own ?ty a b l \<and> stdout_buf (c_out (me t)) = pid_tag s @ denial l @ nl"
        by (rule exI, rule exI [of _ l], intro conjI, rule 3 [OF c]) (simp_all add: l)
    qed (rule 1)
  qed
qed

definition demo_names :: env_tables where
  "demo_names = \<lparr>ename = (\<lambda>_. ''E''), MAX_ENAME = 133, strerror = (\<lambda>_. ''error'')\<rparr>"

definition demo_ifl :: ifl where
  "demo_ifl =
     \<lparr>files = [\<lparr>f_stat = Inr 0, f_size = 100, f_locks = demo_locks\<rparr>],
      me = \<lparr>c_pid = 8, c_args = [''prog'', ''tfile''], fdList = [0], c_descr = [5],
        c_in = request_text 2 1 (CHR ''w'') (CHR ''w'') 5 10 (CHR ''s'') @ newline # [], fileNum = 0, cmdCh = NUL, lock_ch = NUL,
        c_st = 0, c_len = 0,
        c_out = \<lparr>stdout_buf = [], stdout_text = [], stderr_text = [], errno = 0, ef_dumpcore = None\<rparr>\<rparr>\<rparr>"

theorem i_fcntl_commands_witness: "\<forall>tb. i_fcntl_iter tb None demo_ifl = None"
proof
  fix tb
  have f: "file_of 1 demo_ifl = \<lparr>f_stat = Inr 0, f_size = 100, f_locks = demo_locks\<rparr>" by (simp add: file_of_def demo_ifl_def)
  have r: "region \<lparr>l_type = lock_type (CHR ''w''), l_whence = lock_whence (CHR ''s''), l_start = 5, l_len = 10, l_pid = 0\<rparr> 0
      (f_size (file_of 1 demo_ifl)) = Inr (5, 14)"
    by (simp add: f region_def lock_whence_def LONG_MAX_def)
  have c: "\<exists>l\<in>set (f_locks (file_of 1 demo_ifl)). conflicts (lock_owner (me demo_ifl) 1 (CHR ''w'')) (lock_type (CHR ''w'')) 5 14 l"
    unfolding f by (simp add: demo_locks_def conflicts_def overlaps_def lock_owner_def demo_ifl_def lock_type_def)
  have k: "locks_ok (f_locks (file_of 1 demo_ifl))" unfolding f by (simp add: demo_locks_def locks_ok_def lk_ok_def compatible_def)
  have i: "c_in (me demo_ifl) = request_text (length (c_args (me demo_ifl))) 1 (CHR ''w'') (CHR ''w'') 5 10 (CHR ''s'') @ newline # []"
    by (simp add: demo_ifl_def eval_nat_numeral)
  show "i_fcntl_iter tb None demo_ifl = None"
    using i_fcntl_commands [OF _ _ _ _ _ _ _ _ _ _ _ i r k] c by (simp add: LONG_MIN_def LONG_MAX_def INT_MAX_def demo_ifl_def)
qed

section \<open>Several copies\<close>

record csys =
  sfiles :: "lfile list"
  copies :: "(copy \<times> halt option) list"

text \<open>The end of a copy releases the locks of the process and of its open file descriptions.\<close>

definition release_all :: "copy \<Rightarrow> lfile \<Rightarrow> lfile" where
  "release_all c f = f\<lparr>f_locks := filter (\<lambda>l. lk_owner l \<notin> insert (Process (c_pid c)) (Description ` set (c_descr c))) (f_locks f)\<rparr>"

inductive csys_step :: "env_tables \<Rightarrow> csys \<Rightarrow> csys \<Rightarrow> bool" for tb where
  iterates: "i < length (copies s) \<Longrightarrow> copies s ! i = (c, None) \<Longrightarrow>
     i_fcntl_iter tb fault \<lparr>files = sfiles s, me = c\<rparr> = Some (Done () u) \<Longrightarrow>
     csys_step tb s (s\<lparr>sfiles := files u, copies := (copies s)[i := (me u, None)]\<rparr>)"
| ends: "i < length (copies s) \<Longrightarrow> copies s ! i = (c, None) \<Longrightarrow>
     i_fcntl_iter tb fault \<lparr>files = sfiles s, me = c\<rparr> = Some (Halt h u) \<Longrightarrow>
     csys_step tb s (s\<lparr>sfiles := map (release_all (me u)) (files u), copies := (copies s)[i := (me u, Some h)]\<rparr>)"

definition copy_ok :: "nat \<Rightarrow> copy \<Rightarrow> bool" where
  "copy_ok n c \<longleftrightarrow> 2 \<le> length (c_args c) \<and> length (c_args c) = Suc (length (fdList c)) \<and> length (c_descr c) = length (fdList c) \<and>
     list_all (\<lambda>f. f < n) (fdList c) \<and> NUL \<notin> set (c_in c)"

definition all_locks_ok :: "lfile list \<Rightarrow> bool" where
  "all_locks_ok fs \<longleftrightarrow> list_all (\<lambda>f. locks_ok (f_locks f)) fs"

definition csys_inv :: "csys \<Rightarrow> bool" where
  "csys_inv s \<longleftrightarrow> all_locks_ok (sfiles s) \<and> list_all (\<lambda>x. copy_ok (length (sfiles s)) (fst x) \<and> snd x \<noteq> Some Fault) (copies s)"

text \<open>What an iteration leaves alone.\<close>

definition same_process :: "ifl \<Rightarrow> ifl \<Rightarrow> bool" where
  "same_process s t \<longleftrightarrow> c_pid (me t) = c_pid (me s) \<and> c_args (me t) = c_args (me s) \<and> fdList (me t) = fdList (me s) \<and>
     c_descr (me t) = c_descr (me s) \<and> c_in (me t) = c_in (me s) \<and> length (files t) = length (files s)"

definition quiet :: "ifl \<Rightarrow> ifl \<Rightarrow> bool" where
  "quiet s t \<longleftrightarrow> same_process s t \<and> files t = files s"

lemma quiet_refl [simp]: "quiet s s"
  by (simp add: quiet_def same_process_def)

lemma quiet_trans: "quiet s t \<Longrightarrow> quiet t u \<Longrightarrow> quiet s u"
  by (simp add: quiet_def same_process_def)

lemma quiet_put [simp]: "quiet s (put txt t) \<longleftrightarrow> quiet s t" "quiet s (on_out f t) \<longleftrightarrow> quiet s t"
  by (simp_all add: quiet_def same_process_def put_def on_out_def)

lemma quiet_lift_out:
  "(\<And>p. holds (\<lambda>_ _. True) (\<lambda>h _. h \<noteq> Fault) (f p)) \<Longrightarrow> quiet s t \<Longrightarrow>
   holds (\<lambda>_. quiet s) (\<lambda>h u. quiet s u \<and> h \<noteq> Fault) (lift_out f t)"
proof -
  assume f: "\<And>p. holds (\<lambda>_ _. True) (\<lambda>h _. h \<noteq> Fault) (f p)" and q: "quiet s t"
  show ?thesis using f [of "c_out (me t)"] q
    by (cases "f (c_out (me t))") (auto simp: quiet_def same_process_def)
qed

declare lift_out.simps [simp del]

lemma error_ends:
  "holds (\<lambda>_ _. True) (\<lambda>h _. h \<noteq> Fault) (errExit tb msg p)" "holds (\<lambda>_ _. True) (\<lambda>h _. h \<noteq> Fault) (do_exit st p)"
  by (simp_all add: errExit_def terminate_def do_exit_def)

lemma show_file_quiet:
  "quiet s t \<Longrightarrow> holds (\<lambda>_. quiet s) (\<lambda>h u. quiet s u \<and> h \<noteq> Fault) (show_file tb before after j t)"
  unfolding show_file_def mandLockingEnabled_def
  by (rule holds_andThen [of "\<lambda>_. quiet s"]) (auto split: sum.split intro!: quiet_lift_out error_ends)

lemma displayCmdFmt_quiet: "quiet s t \<Longrightarrow> holds (\<lambda>_. quiet s) (\<lambda>h u. quiet s u \<and> h \<noteq> Fault) (displayCmdFmt tb argv t)"
  unfolding displayCmdFmt_def
  by (rule holds_andThen [of "\<lambda>_. quiet s"]) (auto intro!: holds_forEach show_file_quiet)

lemma reply_quiet: "quiet s (getlk_reply tb r t) \<longleftrightarrow> quiet s t" "quiet s (setlk_reply tb lk r' t) \<longleftrightarrow> quiet s t"
  by (simp_all add: getlk_reply_def setlk_reply_def split: sum.split option.split)

lemma perform_keeps:
  assumes "perform tb fault j wh s = Some t" "all_locks_ok (files s)" "j - 1 < length (fdList (me s))"
    and "list_all (\<lambda>f. f < length (files s)) (fdList (me s))"
  shows "same_process s t \<and> all_locks_ok (files t)"
proof -
  let ?k = "fdList (me s) ! (j - 1)"
  have k: "?k < length (files s)" using assms(3,4) by (simp add: list_all_length)
  have "\<exists>locks. quiet (s\<lparr>files := (files s)[?k := (file_of j s)\<lparr>f_locks := locks\<rparr>]\<rparr>) t \<and>
      (locks_ok (f_locks (file_of j s)) \<longrightarrow> locks_ok locks)"
  proof (cases fault)
    case None
    let ?c = "me s"
    let ?fl = "\<lparr>l_type = lock_type (lock_ch ?c), l_whence = lock_whence wh, l_start = c_st ?c, l_len = c_len ?c, l_pid = 0\<rparr>"
    let ?x = "fcntl_lk (lock_cmd (cmdCh ?c)) (lock_owner ?c j (cmdCh ?c)) 0 (f_size (file_of j s)) ?fl (f_locks (file_of j s))"
    show ?thesis
    proof (cases "\<exists>e. ?x = Some (Inl e)")
      case True
      then have "quiet s t" using assms(1) None by (auto simp: perform_def Let_def reply_quiet)
      then show ?thesis by (intro exI [of _ "f_locks (file_of j s)"]) (simp add: file_of_def)
    next
      case False
      then obtain fl' locks where x: "?x = Some (Inr (fl', locks))"
        using assms(1) None by (cases ?x) (auto simp: perform_def Let_def, metis prod.exhaust sum.exhaust)
      then show ?thesis
        using assms(1) None fcntl_lk_ok [OF _ x] by (intro exI [of _ locks]) (auto simp: perform_def Let_def reply_quiet)
    qed
  next
    case (Some e)
    then have "quiet s t" using assms(1) by (auto simp: perform_def Let_def reply_quiet)
    then show ?thesis by (intro exI [of _ "f_locks (file_of j s)"]) (simp add: file_of_def)
  qed
  then obtain locks where t: "quiet (s\<lparr>files := (files s)[?k := (file_of j s)\<lparr>f_locks := locks\<rparr>]\<rparr>) t"
    and l: "locks_ok (f_locks (file_of j s)) \<longrightarrow> locks_ok locks" by blast
  have "locks_ok locks" using l assms(2) k by (simp add: all_locks_ok_def list_all_length file_of_def)
  then have "all_locks_ok ((files s)[?k := (file_of j s)\<lparr>f_locks := locks\<rparr>])"
    using assms(2) k by (auto simp: all_locks_ok_def list_all_length nth_list_update)
  with t show ?thesis by (auto simp: quiet_def same_process_def)
qed

lemma scan_request_frame:
  "scan_request argc line c = (n, wh, c') \<Longrightarrow>
   c_pid c' = c_pid c \<and> c_args c' = c_args c \<and> fdList c' = fdList c \<and> c_descr c' = c_descr c \<and> c_in c' = c_in c"
  by (auto simp: scan_request_def Let_def split: if_splits)

lemma do_command_keeps:
  assumes "do_command tb fault (c_args (me s)) line s = Some t" "all_locks_ok (files s)" "copy_ok (length (files s)) (me s)"
  shows "same_process s t \<and> all_locks_ok (files t)"
proof -
  obtain n wh c where sc: "scan_request (length (c_args (me s))) line (me s) = (n, wh, c)" by (metis prod_cases3)
  note fr = scan_request_frame [OF sc]
  have sp: "same_process s u" if "same_process (s\<lparr>me := c\<rparr>) u" for u using that fr by (auto simp: same_process_def)
  consider msg where "t = put msg (s\<lparr>me := c\<rparr>)"
    | "perform tb fault (nat (fileNum c)) wh (s\<lparr>me := c\<rparr>) = Some t" "0 < fileNum c" "fileNum c < int (length (c_args (me s)))"
    using assms(1) sc by (auto simp: do_command_def Let_def split: if_splits)
  then show ?thesis
  proof cases
    case 1
    then show ?thesis using fr assms(2) by (auto simp: same_process_def put_def)
  next
    case 2
    have "nat (fileNum c) - 1 < length (fdList c)" using 2(2,3) assms(3) fr by (auto simp: copy_ok_def)
    then show ?thesis using perform_keeps [OF 2(1)] assms(2,3) fr sp by (auto simp: copy_ok_def)
  qed
qed

lemma iter_keeps:
  assumes it: "i_fcntl_iter tb fault s = Some r" and ok: "all_locks_ok (files s)" "copy_ok (length (files s)) (me s)"
  shows "holds (\<lambda>_ t. copy_ok (length (files s)) (me t) \<and> length (files t) = length (files s) \<and> all_locks_ok (files t) \<and>
       length (c_in (me t)) < length (c_in (me s)))
     (\<lambda>h t. copy_ok (length (files s)) (me t) \<and> length (files t) = length (files s) \<and> all_locks_ok (files t) \<and> h \<noteq> Fault) r"
proof -
  define p where "p = prompt s"
  have p: "quiet s p" by (simp add: p_def prompt_def)
  show ?thesis
  proof (cases "fgets MAX_LINE (c_in (me s))")
    case None
    then have "r = lift_out (do_exit EXIT_SUCCESS) p"
      using it p by (simp add: i_fcntl_iter_def Let_def quiet_def same_process_def flip: p_def)
    then show ?thesis using p ok by (auto simp: lift_out.simps do_exit_def quiet_def same_process_def copy_ok_def)
  next
    case (Some a)
    then obtain buf rest where g: "fgets MAX_LINE (c_in (me s)) = Some (buf, rest)" by (cases a) auto
    define q where "q = p\<lparr>me := (me p)\<lparr>c_in := rest\<rparr>\<rparr>"
    have cs: "c_in (me s) = buf @ rest" "buf \<noteq> []"
      using fgets_split [OF g] by simp_all
    have str: "takeWhile (\<lambda>ch. ch \<noteq> NUL) buf = buf" using cs ok(2) by (intro takeWhile_eq_all_conv [THEN iffD2]) (auto simp: copy_ok_def)
    have q: "files q = files s" "copy_ok (length (files s)) (me q)" "c_args (me q) = c_args (me s)" "length (c_in (me q)) < length (c_in (me s))"
      using p ok(2) cs by (auto simp: q_def quiet_def same_process_def copy_ok_def)
    have fin: "copy_ok (length (files s)) (me t) \<and> length (files t) = length (files s) \<and> all_locks_ok (files t) \<and> length (c_in (me t)) < length (c_in (me s))"
      if "same_process q t" "all_locks_ok (files t)" for t
      using that q by (auto simp: same_process_def copy_ok_def)
    consider "r = Done () q" | "r = displayCmdFmt tb (c_args (me s)) q"
      | t where "do_command tb fault (c_args (me q)) (butlast buf) q = Some t" "r = Done () t"
    proof -
      have me: "c_args (me p) = c_args (me s)" "c_in (me p) = c_in (me s)" using p by (simp_all add: quiet_def same_process_def)
      have "i_fcntl_iter tb fault s =
          (if butlast buf = [] then Some (Done () q)
           else if hd (butlast buf) = CHR ''?'' then Some (displayCmdFmt tb (c_args (me s)) q)
           else map_option (Done ()) (do_command tb fault (c_args (me q)) (butlast buf) q))"
        using cs(2) unfolding i_fcntl_iter_def Let_def p_def [symmetric] me g option.case prod.case str q(3)
        by (simp flip: q_def)
      then show thesis using it that
        by (cases "butlast buf = []"; cases "hd (butlast buf) = CHR ''?''"; cases "do_command tb fault (c_args (me q)) (butlast buf) q") auto
    qed
    then show ?thesis
    proof cases
      case 1
      then show ?thesis using fin [of q] q ok by (simp add: same_process_def)
    next
      case 2
      have "holds (\<lambda>_. quiet q) (\<lambda>h u. quiet q u \<and> h \<noteq> Fault) r" unfolding 2 by (rule displayCmdFmt_quiet) simp
      then show ?thesis by (rule holds_weaken) (use fin q ok in \<open>metis quiet_def\<close>)+
    next
      case (3 t)
      have "same_process q t \<and> all_locks_ok (files t)" using do_command_keeps [OF 3(1)] q ok by simp
      then show ?thesis using fin [of t] 3(2) by simp
    qed
  qed
qed

definition owners :: "copy \<Rightarrow> lowner set" where
  "owners c = insert (Process (c_pid c)) (Description ` set (c_descr c))"

text \<open>An iteration that does not end waits for a lock that conflicts with its request.\<close>

lemma perform_waits:
  assumes "perform tb None j wh s = None"
  shows "\<exists>ty a b l. l \<in> set (f_locks (file_of j s)) \<and> conflicts (lock_owner (me s) j (cmdCh (me s))) ty a b l"
  using assms find_conflict(2) unfolding perform_def Let_def fcntl_lk_def
  by (fastforce split: option.splits sum.splits lcmd.splits if_splits prod.splits)

lemma iter_waits:
  assumes it: "i_fcntl_iter tb None s = None" and ok: "copy_ok (length (files s)) (me s)"
  shows "\<exists>f\<in>set (files s). \<exists>l\<in>set (f_locks f). \<exists>own\<in>owners (me s). \<exists>ty a b. conflicts own ty a b l"
proof -
  have "\<exists>line q. do_command tb None (c_args (me s)) line q = None \<and> quiet s (q\<lparr>me := (me q)\<lparr>c_in := c_in (me s)\<rparr>\<rparr>)"
  proof -
    obtain buf rest where g: "fgets MAX_LINE (c_in (me (prompt s))) = Some (buf, rest)"
      using it by (auto simp: i_fcntl_iter_def Let_def split: option.splits)
    have p: "quiet s (prompt s)" by (simp add: prompt_def)
    then have a: "c_args (me (prompt s)) = c_args (me s)" by (simp add: quiet_def same_process_def)
    let ?q = "(prompt s)\<lparr>me := (me (prompt s))\<lparr>c_in := rest\<rparr>\<rparr>"
    have "do_command tb None (c_args (me s)) (butlast (takeWhile (\<lambda>ch. ch \<noteq> NUL) buf)) ?q = None"
      using it unfolding i_fcntl_iter_def Let_def g option.case prod.case a
      by (simp split: if_splits)
    moreover have "quiet s (?q\<lparr>me := (me ?q)\<lparr>c_in := c_in (me s)\<rparr>\<rparr>)" using p by (simp add: quiet_def same_process_def)
    ultimately show ?thesis by blast
  qed
  then obtain line q where q: "do_command tb None (c_args (me s)) line q = None" "quiet s (q\<lparr>me := (me q)\<lparr>c_in := c_in (me s)\<rparr>\<rparr>)"
    by blast
  obtain n wh c where sc: "scan_request (length (c_args (me s))) line (me q) = (n, wh, c)" by (metis prod_cases3)
  have c: "c_pid c = c_pid (me s)" "fdList c = fdList (me s)" "c_descr c = c_descr (me s)" "files q = files s"
    using scan_request_frame [OF sc] q(2) by (auto simp: quiet_def same_process_def)
  have w: "perform tb None (nat (fileNum c)) wh (q\<lparr>me := c\<rparr>) = None" and j: "0 < fileNum c" "fileNum c < int (length (c_args (me s)))"
    using q(1) sc by (auto simp: do_command_def Let_def split: if_splits)
  have k: "nat (fileNum c) - 1 < length (fdList (me s))" "length (c_descr (me s)) = length (fdList (me s))"
    "list_all (\<lambda>f. f < length (files s)) (fdList (me s))" using j ok by (auto simp: copy_ok_def)
  have f: "file_of (nat (fileNum c)) (q\<lparr>me := c\<rparr>) \<in> set (files s)" using k c by (simp add: file_of_def list_all_length)
  have o: "lock_owner c (nat (fileNum c)) (cmdCh c) \<in> owners (me s)" using k c by (auto simp: lock_owner_def owners_def)
  show ?thesis using perform_waits [OF w] f o by (simp, blast)
qed

subsection \<open>The system\<close>

definition csys_left :: "csys \<Rightarrow> int" where
  "csys_left s = sumw (\<lambda>x. if snd x = None then int (length (c_in (fst x))) + 1 else 0) (copies s)"

lemma release_all_ok: "locks_ok (f_locks f) \<Longrightarrow> locks_ok (f_locks (release_all c f))"
  by (auto simp: release_all_def locks_ok_def list_all_iff)

lemma csys_step_keeps:
  assumes "csys_inv s" "csys_step tb s t"
  shows "csys_inv t \<and> csys_left t < csys_left s"
  using assms(2)
proof cases
  case (iterates i c fault u)
  have ok: "all_locks_ok (sfiles s)" "copy_ok (length (sfiles s)) c" "\<And>k. k < length (copies s) \<Longrightarrow>
      copy_ok (length (sfiles s)) (fst (copies s ! k)) \<and> snd (copies s ! k) \<noteq> Some Fault"
    using assms(1) iterates(2,3) by (auto simp: csys_inv_def list_all_length split: prod.splits)
  note k = iter_keeps [OF iterates(4)]
  have u: "copy_ok (length (sfiles s)) (me u) \<and> length (files u) = length (sfiles s) \<and> all_locks_ok (files u) \<and> length (c_in (me u)) < length (c_in c)"
    using k ok by simp
  then have "csys_inv t" using ok u iterates(1,2) by (auto simp: csys_inv_def list_all_length nth_list_update)
  moreover have "csys_left t < csys_left s" using u iterates(1,2,3) by (simp add: csys_left_def sumw_update)
  ultimately show ?thesis by simp
next
  case (ends i c fault h u)
  have ok: "all_locks_ok (sfiles s)" "copy_ok (length (sfiles s)) c" "\<And>k. k < length (copies s) \<Longrightarrow>
      copy_ok (length (sfiles s)) (fst (copies s ! k)) \<and> snd (copies s ! k) \<noteq> Some Fault"
    using assms(1) ends(2,3) by (auto simp: csys_inv_def list_all_length split: prod.splits)
  note k = iter_keeps [OF ends(4)]
  have u: "copy_ok (length (sfiles s)) (me u) \<and> length (files u) = length (sfiles s) \<and> all_locks_ok (files u) \<and> h \<noteq> Fault"
    using k ok by simp
  then have "csys_inv t" using ok u ends(1,2) release_all_ok
    by (auto simp: csys_inv_def all_locks_ok_def list_all_length nth_list_update)
  moreover have "csys_left t < csys_left s" using ends(1,2,3) by (simp add: csys_left_def sumw_update)
  ultimately show ?thesis by simp
qed

lemma csys_left_nonneg: "0 \<le> csys_left s"
  unfolding csys_left_def by (rule sumw_nonneg) auto

text \<open>Some copy can always move, if only because a waiting call is interrupted.\<close>

lemma iter_interrupted: "\<exists>r. i_fcntl_iter tb (Some e) s = Some r"
proof -
  have "\<exists>t. perform tb (Some e) j wh u = Some t" for j wh u by (simp add: perform_def Let_def)
  then have "\<exists>t. do_command tb (Some e) argv line u = Some t" for argv line u
    by (cases "scan_request (length argv) line (me u)") (auto simp: do_command_def Let_def)
  then show ?thesis unfolding i_fcntl_iter_def Let_def by (auto split: option.split)
qed

interpretation csys: bounded_system "csys_step tb" "\<lambda>_ _. False" csys_inv csys_left 0
  "\<lambda>s. list_all (\<lambda>x. snd x \<noteq> None) (copies s)" for tb
proof unfold_locales
  show "\<exists>t. csys_step tb s t" if "\<not> list_all (\<lambda>x. snd x \<noteq> None) (copies s)" for s
  proof -
    have "\<exists>i<length (copies s). snd (copies s ! i) = None" using that by (auto simp: list_all_length)
    then obtain i where i: "i < length (copies s)" "snd (copies s ! i) = None" by blast
    then have c: "copies s ! i = (fst (copies s ! i), None)" by (simp add: prod_eq_iff)
    obtain r where "i_fcntl_iter tb (Some EAGAIN) \<lparr>files = sfiles s, me = fst (copies s ! i)\<rparr> = Some r" using iter_interrupted by blast
    then show ?thesis by (cases r) (auto intro: csys_step.iterates [OF i(1) c] csys_step.ends [OF i(1) c])
  qed
qed (auto intro: csys_left_nonneg dest: csys_step_keeps)


definition demo_csys :: csys where
  "demo_csys = \<lparr>sfiles = files demo_ifl, copies = [((me demo_ifl)\<lparr>c_in := [newline]\<rparr>, None)]\<rparr>"

lemma demo_csys_run: "\<exists>t. run_of (csys_step tb) (\<lambda>_ _. False) 1 0 demo_csys t"
proof -
  have "\<exists>u. i_fcntl_iter tb None \<lparr>files = sfiles demo_csys, me = (me demo_ifl)\<lparr>c_in := [newline]\<rparr>\<rparr> = Some (Done () u)"
    by (simp add: i_fcntl_iter_def Let_def prompt_def on_out_def put_def fgets_def)
  then obtain u where "i_fcntl_iter tb None \<lparr>files = sfiles demo_csys, me = (me demo_ifl)\<lparr>c_in := [newline]\<rparr>\<rparr> = Some (Done () u)" ..
  then have "csys_step tb demo_csys (demo_csys\<lparr>sfiles := files u, copies := (copies demo_csys)[0 := (me u, None)]\<rparr>)"
    by (intro csys_step.iterates) (auto simp: demo_csys_def)
  then have "run_of (csys_step tb) (\<lambda>_ _. False) (Suc 0) 0 demo_csys (demo_csys\<lparr>sfiles := files u, copies := (copies demo_csys)[0 := (me u, None)]\<rparr>)"
    by (rule run_of.run_own [OF run_of.run_nil])
  then show ?thesis by auto
qed


end
