(* ===== verification/Svsem_Op.thy ===== *)
theory Svsem_Op
  imports Get_Num
begin

text \<open>
  Groups of semaphore operations: \<^verbatim>\<open>svsem/svsem_op.c\<close>.  The parser fills an array of \<^verbatim>\<open>struct sembuf\<close> whose
  fields have 16 bits; the program calls \<^verbatim>\<open>semop()\<close> once for each argument.  The lemmas show that the
  parser accepts exactly the texts of the grammar in the usage message, and what it makes of
  numbers that do not fit.
\<close>

section \<open>Parsing\<close>

record sembuf =
  sem_num :: "16 word"
  sem_op :: "16 word"
  sem_flg :: "16 word"

abbreviation (input) IPC_NOWAIT :: "16 word" where "IPC_NOWAIT \<equiv> 0x800"
abbreviation (input) SEM_UNDO :: "16 word" where "SEM_UNDO \<equiv> 0x1000"

definition MAX_SEMOPS :: nat where "MAX_SEMOPS = 1000"

datatype perr = Trailing_comma | No_initial_digit | No_sign | No_digit_after char | Not_zero | Bad_trailing char

abbreviation (input) in_quotes :: "string \<Rightarrow> string" where
  "in_quotes t \<equiv> [CHR 0x22] @ t @ [CHR 0x22]"

fun parse_flags :: "16 word \<Rightarrow> string \<Rightarrow> 16 word \<times> string" where
  "parse_flags flg [] = (flg, [])"
| "parse_flags flg (c # cs) =
     (if c = CHR ''n'' then parse_flags (flg OR IPC_NOWAIT) cs
      else if c = CHR ''u'' then parse_flags (flg OR SEM_UNDO) cs
      else (flg, c # cs))"

text \<open>The diagnostics, all of which end the process.\<close>

definition parse_error :: "env_tables \<Rightarrow> string \<Rightarrow> perr \<Rightarrow> proc \<Rightarrow> (proc, 'a) run" where
  "parse_error tb arg e s =
     (case e of
        Trailing_comma \<Rightarrow> fatal tb (''Trailing comma or empty argument: '' @ in_quotes arg) s
      | No_initial_digit \<Rightarrow> cmdLineErr (''Expected initial digit: '' @ in_quotes arg @ nl) s
      | No_sign \<Rightarrow> cmdLineErr (''Expected '+', '-', or '=' in '' @ in_quotes arg @ nl) s
      | No_digit_after c \<Rightarrow> cmdLineErr (''Expected digit after '' @ [CHR 0x27, c, CHR 0x27] @ '' in '' @ in_quotes arg @ nl) s
      | Not_zero \<Rightarrow> cmdLineErr (''Expected '' @ in_quotes ''=0'' @ '' in '' @ in_quotes arg @ nl) s
      | Bad_trailing c \<Rightarrow> cmdLineErr (''Bad trailing character ('' @ [c] @ '') in '' @ in_quotes arg @ nl) s)"

text \<open>One operation at the start of the remaining text.\<close>

definition parse_one :: "string \<Rightarrow> perr + sembuf" where
  "parse_one remaining =
     (if remaining = [] then Inl Trailing_comma
      else if \<not> is_digit 10 (hd remaining) then Inl No_initial_digit
      else case strtol remaining 10 of (num, sg, _) \<Rightarrow>
        if sg = [] \<or> hd sg \<notin> set ''+-='' then Inl No_sign
        else if tl sg = [] \<or> \<not> is_digit 10 (hd (tl sg)) then Inl (No_digit_after (hd sg))
        else case strtol (tl sg) 10 of (v, fl, _) \<Rightarrow>
          let num16 = word_of_int num :: 16 word; op16 = word_of_int v :: 16 word
          in if hd sg = CHR ''='' \<and> op16 \<noteq> 0 then Inl Not_zero
             else case parse_flags 0 fl of (flg, rest) \<Rightarrow>
               if rest \<noteq> [] \<and> hd rest \<noteq> CHR '','' then Inl (Bad_trailing (hd rest))
               else Inr \<lparr>sem_num = num16, sem_op = (if hd sg = CHR ''-'' then - op16 else op16), sem_flg = flg\<rparr>)"

function parseOps_loop :: "env_tables \<Rightarrow> string \<Rightarrow> string \<Rightarrow> sembuf list \<Rightarrow> proc \<Rightarrow> (proc, sembuf list) run" where
  "parseOps_loop tb arg remaining sops s =
     (if length sops \<ge> MAX_SEMOPS
      then cmdLineErr (''Too many operations (maximum='' @ decimal MAX_SEMOPS @ ''): '' @ in_quotes arg @ nl) s
      else case parse_one remaining of
        Inl e \<Rightarrow> parse_error tb arg e s
      | Inr sop \<Rightarrow>
          (case strchr remaining (CHR '','') of
             None \<Rightarrow> Done (sops @ [sop]) s
           | Some comma \<Rightarrow> parseOps_loop tb arg (drop (Suc comma) remaining) (sops @ [sop]) s))"
  by pat_completeness auto
termination
  by (relation "measure (\<lambda>(tb, arg, remaining, sops, s). length remaining)") (auto dest: strchr_Some)

declare parseOps_loop.simps [simp del]

definition parseOps :: "env_tables \<Rightarrow> string \<Rightarrow> proc \<Rightarrow> (proc, sembuf list) run" where
  "parseOps tb arg s = parseOps_loop tb arg arg [] s"

section \<open>The grammar\<close>

text \<open>\<^verbatim>\<open><sem#>{+|-}<value>[n][u]\<close> or \<^verbatim>\<open><sem#>=0[n]\<close>, with flags in any order and number, and numbers reduced to 16 bits.\<close>

definition flags_of :: "string \<Rightarrow> 16 word" where
  "flags_of fl = (if CHR ''n'' \<in> set fl then IPC_NOWAIT else 0) OR (if CHR ''u'' \<in> set fl then SEM_UNDO else 0)"

definition short_of :: "string \<Rightarrow> 16 word" where
  "short_of ds = word_of_int (clamp_long (int (digits_value 10 ds)))"

definition denotes_op :: "string \<Rightarrow> sembuf \<Rightarrow> bool" where
  "denotes_op t sop \<longleftrightarrow>
     (\<exists>num sg val fl. t = num @ [sg] @ val @ fl \<and> digits num \<and> digits val \<and> sg \<in> set ''+-='' \<and> set fl \<subseteq> set ''nu'' \<and>
        (sg = CHR ''='' \<longrightarrow> short_of val = 0) \<and>
        sop = \<lparr>sem_num = short_of num, sem_op = (if sg = CHR ''-'' then - short_of val else short_of val), sem_flg = flags_of fl\<rparr>)"

fun join :: "string list \<Rightarrow> string" where
  "join [] = []"
| "join [t] = t"
| "join (t # ts) = t @ [CHR '',''] @ join ts"

abbreviation flag_char :: "char \<Rightarrow> bool" where
  "flag_char c \<equiv> c \<in> set ''nu''"

lemma flags_of_Cons:
  "flags_of [] = 0" "flags_of (CHR ''n'' # fl) = IPC_NOWAIT OR flags_of fl" "flags_of (CHR ''u'' # fl) = SEM_UNDO OR flags_of fl"
  by (simp_all add: flags_of_def)

lemma parse_flags_eq: "parse_flags flg fl = (flg OR flags_of (takeWhile flag_char fl), dropWhile flag_char fl)"
  by (induction flg fl rule: parse_flags.induct) (auto simp: flags_of_Cons or.assoc)

lemma strtol_takeWhile:
  assumes "t \<noteq> []" "is_digit 10 (hd t)"
  shows "digits (takeWhile (is_digit 10) t)"
    and "strtol t 10 = (clamp_long (int (digits_value 10 (takeWhile (is_digit 10) t))), dropWhile (is_digit 10) t,
       clamp_long (int (digits_value 10 (takeWhile (is_digit 10) t))) \<noteq> int (digits_value 10 (takeWhile (is_digit 10) t)))"
proof -
  show d: "digits (takeWhile (is_digit 10) t)"
    using assms by (cases t) (auto simp: digits_def list_all_iff dest: set_takeWhileD)
  have "dropWhile (is_digit 10) t = [] \<or> \<not> is_digit 10 (hd (dropWhile (is_digit 10) t))"
    using hd_dropWhile by blast
  from strtol_digits [OF d this] show "strtol t 10 = (clamp_long (int (digits_value 10 (takeWhile (is_digit 10) t))), dropWhile (is_digit 10) t,
       clamp_long (int (digits_value 10 (takeWhile (is_digit 10) t))) \<noteq> int (digits_value 10 (takeWhile (is_digit 10) t)))"
    by simp
qed

lemma parse_one_complete:
  assumes "denotes_op t sop" "rest = [] \<or> hd rest = CHR '',''"
  shows "parse_one (t @ rest) = Inr sop"
proof -
  obtain num sg val fl where t: "t = num @ [sg] @ val @ fl" "digits num" "digits val" "sg \<in> set ''+-=''" "set fl \<subseteq> set ''nu''"
      "sg = CHR ''='' \<longrightarrow> short_of val = 0"
    and sop: "sop = \<lparr>sem_num = short_of num, sem_op = (if sg = CHR ''-'' then - short_of val else short_of val), sem_flg = flags_of fl\<rparr>"
    using assms(1) unfolding denotes_op_def by blast
  have nd: "\<not> is_digit 10 (CHR ''+'')" "\<not> is_digit 10 (CHR ''-'')" "\<not> is_digit 10 (CHR ''='')" "\<not> is_digit 10 (CHR '','')"
    "\<not> is_digit 10 (CHR ''n'')" "\<not> is_digit 10 (CHR ''u'')" by (simp_all add: is_digit_def digit_val_def)
  have s1: "strtol (num @ sg # val @ fl @ rest) 10 = (clamp_long (int (digits_value 10 num)), sg # val @ fl @ rest,
      clamp_long (int (digits_value 10 num)) \<noteq> int (digits_value 10 num))"
    by (rule strtol_digits [OF t(2)]) (use t(4) nd in auto)
  have s2: "strtol (val @ fl @ rest) 10 = (clamp_long (int (digits_value 10 val)), fl @ rest,
      clamp_long (int (digits_value 10 val)) \<noteq> int (digits_value 10 val))"
    by (rule strtol_digits [OF t(3)]) (use t(5) nd assms(2) in \<open>cases fl; auto\<close>)
  have tw: "takeWhile flag_char (fl @ rest) = fl" "dropWhile flag_char (fl @ rest) = rest"
    using t(5) assms(2) by (cases rest; auto simp: takeWhile_append dropWhile_append takeWhile_eq_Nil_iff)+
  have ne: "num \<noteq> []" "is_digit 10 (hd num)" "val \<noteq> []" "is_digit 10 (hd val)"
    using t(2,3) by (auto simp: digits_def list_all_iff)
  have c: "num @ sg # val @ fl @ rest \<noteq> []" "is_digit 10 (hd (num @ sg # val @ fl @ rest))" "val @ fl @ rest \<noteq> []"
    "is_digit 10 (hd (val @ fl @ rest))" using ne by (simp_all add: hd_append)
  have e: "\<not> (sg = CHR ''='' \<and> (word_of_int (clamp_long (int (digits_value 10 val))) :: 16 word) \<noteq> 0)"
    "\<not> (rest \<noteq> [] \<and> hd rest \<noteq> CHR '','')" using t(6) assms(2) by (auto simp: short_of_def)
  show ?thesis
    unfolding t(1) parse_one_def append_assoc append_Cons append_Nil s1 prod.case list.sel s2 parse_flags_eq tw Let_def sop short_of_def
    by (simp only: c t(4) e not_False_eq_True not_True_eq_False if_False if_True list.distinct de_Morgan_disj simp_thms or.left_neutral)
qed

lemma parse_one_sound:
  assumes "parse_one r = Inr sop"
  obtains t rest where "r = t @ rest" "rest = [] \<or> hd rest = CHR '',''" "denotes_op t sop"
proof -
  have r: "r \<noteq> []" "is_digit 10 (hd r)" using assms by (auto simp: parse_one_def split: if_splits)
  define num q where "num = takeWhile (is_digit 10) r" and "q = dropWhile (is_digit 10) r"
  note s1 = strtol_takeWhile [OF r, folded num_def q_def]
  have q: "q \<noteq> []" "hd q \<in> set ''+-=''" "tl q \<noteq> []" "is_digit 10 (hd (tl q))"
    using assms r s1(2) by (auto simp: parse_one_def split: if_splits)
  define val fl where "val = takeWhile (is_digit 10) (tl q)" and "fl = dropWhile (is_digit 10) (tl q)"
  note s2 = strtol_takeWhile [OF q(3,4), folded val_def fl_def]
  define u rest where "u = takeWhile flag_char fl" and "rest = dropWhile flag_char fl"
  have pf: "parse_flags 0 fl = (flags_of u, rest)" by (simp add: parse_flags_eq u_def rest_def)
  have x: "hd q = CHR ''='' \<longrightarrow> short_of val = 0" "rest = [] \<or> hd rest = CHR '',''"
    "sop = \<lparr>sem_num = short_of num, sem_op = (if hd q = CHR ''-'' then - short_of val else short_of val), sem_flg = flags_of u\<rparr>"
    using assms r q s1(2) s2(2) pf by (auto simp: parse_one_def Let_def short_of_def split: if_splits)
  have "r = num @ q" "q = hd q # tl q" "tl q = val @ fl" "fl = u @ rest"
    using q(1) by (simp_all add: num_def q_def val_def fl_def u_def rest_def)
  then have "r = (num @ [hd q] @ val @ u) @ rest" by (metis append_Cons append_Nil append_assoc)
  moreover have "denotes_op (num @ [hd q] @ val @ u) sop"
    unfolding denotes_op_def
    by (intro exI [of _ num] exI [of _ "hd q"] exI [of _ val] exI [of _ u])
      (use s1(1) s2(1) q(2) x in \<open>auto simp: u_def dest: set_takeWhileD\<close>)
  ultimately show thesis using that x(2) by blast
qed

lemma no_comma: "denotes_op t sop \<Longrightarrow> CHR '','' \<notin> set t"
proof -
  have "\<not> is_digit 10 (CHR '','')" by (simp add: is_digit_def digit_val_def)
  then show "denotes_op t sop \<Longrightarrow> CHR '','' \<notin> set t" by (auto simp: denotes_op_def digits_def list_all_iff)
qed

text \<open>The whole argument: the loop accepts exactly the comma-separated lists.\<close>

definition denotes_ops :: "string \<Rightarrow> sembuf list \<Rightarrow> bool" where
  "denotes_ops arg sops \<longleftrightarrow> (\<exists>ts. ts \<noteq> [] \<and> arg = join ts \<and> list_all2 denotes_op ts sops)"

lemma join_Cons: "ts \<noteq> [] \<Longrightarrow> join (t # ts) = t @ [CHR '',''] @ join ts"
  by (cases ts) auto

lemma denotes_ops_cases:
  assumes "denotes_ops r (sop # sops)"
  obtains t rest where "denotes_op t sop" "r = t @ rest" "sops = [] \<and> rest = [] \<or> (\<exists>q. rest = CHR '','' # q \<and> denotes_ops q sops)"
proof -
  obtain t ts where ts: "r = join (t # ts)" "denotes_op t sop" "list_all2 denotes_op ts sops"
    using assms by (auto simp: denotes_ops_def list_all2_Cons2)
  show thesis
  proof (cases "ts = []")
    case True
    then show thesis using that [of t "[]"] ts by auto
  next
    case False
    then show thesis using that [of t "CHR '','' # join ts"] ts join_Cons [OF False] by (auto simp: denotes_ops_def)
  qed
qed

lemma denotes_ops_Cons:
  "denotes_op t sop \<Longrightarrow> denotes_ops t [sop]"
  "denotes_op t sop \<Longrightarrow> denotes_ops q sops \<Longrightarrow> denotes_ops (t @ CHR '','' # q) (sop # sops)"
proof -
  show "denotes_op t sop \<Longrightarrow> denotes_ops t [sop]" unfolding denotes_ops_def by (intro exI [of _ "[t]"]) simp
  assume t: "denotes_op t sop" and "denotes_ops q sops"
  then obtain ts where "ts \<noteq> []" "q = join ts" "list_all2 denotes_op ts sops" by (auto simp: denotes_ops_def)
  with t join_Cons [of ts t] show "denotes_ops (t @ CHR '','' # q) (sop # sops)"
    unfolding denotes_ops_def by (intro exI [of _ "t # ts"]) auto
qed

lemma strchr_comma: "CHR '','' \<notin> set t \<Longrightarrow> strchr (t @ CHR '','' # q) (CHR '','') = Some (length t)"
  "CHR '','' \<notin> set t \<Longrightarrow> strchr t (CHR '','') = None"
  by (induction t) auto

lemma parseOps_loop_complete:
  "denotes_ops r sops \<Longrightarrow> length acc + length sops \<le> MAX_SEMOPS \<Longrightarrow> parseOps_loop tb arg r acc s = Done (acc @ sops) s"
proof (induction sops arbitrary: r acc)
  case Nil
  then show ?case by (auto simp: denotes_ops_def)
next
  case (Cons sop sops)
  obtain t rest where t: "denotes_op t sop" "r = t @ rest" "sops = [] \<and> rest = [] \<or> (\<exists>q. rest = CHR '','' # q \<and> denotes_ops q sops)"
    using denotes_ops_cases [OF Cons.prems(1)] .
  have p: "parse_one r = Inr sop" unfolding t(2) by (rule parse_one_complete [OF t(1)]) (use t(3) in auto)
  have n: "\<not> length acc \<ge> MAX_SEMOPS" using Cons.prems(2) by simp
  from t(3) show ?case
  proof (elim disjE exE conjE)
    assume "sops = []" "rest = []"
    then show ?thesis using p n strchr_comma(2) [OF no_comma [OF t(1)]] t(2)
      by (subst parseOps_loop.simps) simp
  next
    fix q assume q: "rest = CHR '','' # q" "denotes_ops q sops"
    have "parseOps_loop tb arg r acc s = parseOps_loop tb arg q (acc @ [sop]) s"
      using p n strchr_comma(1) [OF no_comma [OF t(1)], of q] t(2) q(1)
      by (subst parseOps_loop.simps) simp
    then show ?thesis using Cons.IH [OF q(2), of "acc @ [sop]"] Cons.prems(2) by simp
  qed
qed

lemma parse_error_ends: "\<exists>h t. parse_error tb arg e s = Halt h t"
  by (cases e) (auto simp: parse_error_def fatal_def terminate_def cmdLineErr_def do_exit_def)

lemma parseOps_loop_sound:
  "parseOps_loop tb arg r acc s = Done all t \<Longrightarrow>
   \<exists>sops. all = acc @ sops \<and> t = s \<and> denotes_ops r sops \<and> length all \<le> MAX_SEMOPS"
proof (induction tb arg r acc s rule: parseOps_loop.induct)
  case (1 tb arg r acc s)
  note run = "1.prems" [unfolded parseOps_loop.simps [of tb arg r acc s]]
  have n: "\<not> length acc \<ge> MAX_SEMOPS" using run by (auto simp: cmdLineErr_def do_exit_def)
  obtain sop where p: "parse_one r = Inr sop"
  proof (cases "parse_one r")
    case (Inl e)
    then show thesis using run n parse_error_ends [of tb arg e s, where 'a = "sembuf list"] by auto
  qed (rule that)
  obtain w rest where w: "r = w @ rest" "rest = [] \<or> hd rest = CHR '',''" "denotes_op w sop" using parse_one_sound [OF p] .
  show ?case
  proof (cases rest)
    case Nil
    then have "strchr r (CHR '','') = None" using strchr_comma(2) [OF no_comma [OF w(3)]] w(1) by simp
    then have "all = acc @ [sop]" "t = s" using run n p by simp_all
    then show ?thesis using n denotes_ops_Cons(1) [OF w(3)] w(1) Nil by auto
  next
    case (Cons c q)
    then have c: "strchr r (CHR '','') = Some (length w)" "drop (Suc (length w)) r = q"
      using strchr_comma(1) [OF no_comma [OF w(3)], of q] w(1,2) by simp_all
    then have "parseOps_loop tb arg q (acc @ [sop]) s = Done all t" using run n p by simp
    then obtain sops where "all = (acc @ [sop]) @ sops" "t = s" "denotes_ops q sops" "length all \<le> MAX_SEMOPS"
      using "1.IH" [OF n p c(1)] c(2) by auto
    then show ?thesis using denotes_ops_Cons(2) [OF w(3)] w(1,2) Cons by auto
  qed
qed


section \<open>The program\<close>

text \<open>\<^verbatim>\<open>semop()\<close> and the clock are parameters over the state \<open>'k\<close> of the kernel; a call that never returns is \<open>None\<close>.\<close>

record 'k sem_sys =
  k_semop :: "int \<Rightarrow> sembuf list \<Rightarrow> 'k \<Rightarrow> ('k \<times> int option) option"
  k_time :: "'k \<Rightarrow> string"
  k_pid :: int

record 'k semp =
  sm_proc :: proc
  sm_kern :: 'k

definition sm_print :: "string \<Rightarrow> 'k semp \<Rightarrow> 'k semp" where
  "sm_print t s = s\<lparr>sm_proc := (sm_proc s)\<lparr>stdout_buf := stdout_buf (sm_proc s) @ t\<rparr>\<rparr>"

definition sm_lift :: "(proc \<Rightarrow> (proc, 'a) run) \<Rightarrow> 'k semp \<Rightarrow> ('k semp, 'a) run" where
  "sm_lift f s = (case f (sm_proc s) of Done a p \<Rightarrow> Done a (s\<lparr>sm_proc := p\<rparr>) | Halt h p \<Rightarrow> Halt h (s\<lparr>sm_proc := p\<rparr>))"

definition sem_usageError :: "string \<Rightarrow> proc \<Rightarrow> (proc, 'a) run" where
  "sem_usageError progName s =
     do_exit EXIT_FAILURE (fold fputs_stderr
       [''Usage: '' @ progName @ '' semid op[,op...] ...'' @ nl @ nl,
        [CHR 0x27] @ ''op'' @ [CHR 0x27] @ '' is either: <sem#>{+|-}<value>[n][u]'' @ nl,
        ''            or: <sem#>=0[n]'' @ nl,
        ''       '' @ in_quotes ''n'' @ '' means include IPC_NOWAIT in '' @ [CHR 0x27] @ ''op'' @ [CHR 0x27] @ nl,
        ''       '' @ in_quotes ''u'' @ '' means include SEM_UNDO in '' @ [CHR 0x27] @ ''op'' @ [CHR 0x27] @ nl @ nl,
        ''The operations in each argument are performed in a single semop() call'' @ nl @ nl,
        ''e.g.: '' @ progName @ '' 12345 0+1,1-2un'' @ nl,
        ''      '' @ progName @ '' 12345 0=0n 1+1,2-1u 1=0'' @ nl] s)"

definition sem_line :: "'k sem_sys \<Rightarrow> string \<Rightarrow> string \<Rightarrow> 'k semp \<Rightarrow> 'k semp" where
  "sem_line K what arg s =
     (let p = decimal_int (k_pid K)
      in sm_print (replicate (5 - length p) (CHR '' '') @ p @ '', '' @ k_time K (sm_kern s) @ what @ ''['' @ arg @ '']'' @ nl) s)"

definition sem_arg :: "env_tables \<Rightarrow> 'k sem_sys \<Rightarrow> string \<Rightarrow> string \<Rightarrow> 'k semp \<Rightarrow> ('k semp, unit) run" where
  "sem_arg tb K semid arg s =
     andThen (sm_lift (parseOps tb arg) s) (\<lambda>sops s.
     andThen (sm_lift (getInt (Some semid) 0 (Some ''semid'')) (sem_line K '': about to semop()  '' arg s)) (\<lambda>sid s.
       case k_semop K sid sops (sm_kern s) of
         None \<Rightarrow> Halt Blocked s
       | Some (k, Some e) \<Rightarrow>
           sm_lift (errExit tb (''semop (PID='' @ decimal_int (k_pid K) @ '')''))
             (s\<lparr>sm_kern := k, sm_proc := (sm_proc s)\<lparr>errno := e\<rparr>\<rparr>)
       | Some (k, None) \<Rightarrow> Done () (sem_line K '': semop() completed '' arg (s\<lparr>sm_kern := k\<rparr>))))"

definition svsem_op_main :: "env_tables \<Rightarrow> 'k sem_sys \<Rightarrow> string list \<Rightarrow> 'k semp \<Rightarrow> ('k semp, unit) run" where
  "svsem_op_main tb K argv s =
     (if length argv < 2 \<or> argv ! 1 = ''--help'' then sm_lift (sem_usageError (hd argv)) s
      else andThen (forEach (sem_arg tb K (argv ! 1)) (drop 2 argv) s) (\<lambda>_ s. sm_lift (do_exit EXIT_SUCCESS) s))"

text \<open>The kernel after a sequence of successful calls.\<close>

fun semops :: "'k sem_sys \<Rightarrow> int \<Rightarrow> sembuf list list \<Rightarrow> 'k \<Rightarrow> 'k \<Rightarrow> bool" where
  "semops K sid [] k k' = (k' = k)"
| "semops K sid (ops # opss) k k' = (\<exists>k1. k_semop K sid ops k = Some (k1, None) \<and> semops K sid opss k1 k')"

lemma sem_line_kern [simp]: "sm_kern (sem_line K what arg s) = sm_kern s"
  by (simp add: sem_line_def sm_print_def Let_def)

lemma sm_lift_Done: "sm_lift f s = Done a t \<longleftrightarrow> (\<exists>p. f (sm_proc s) = Done a p \<and> t = s\<lparr>sm_proc := p\<rparr>)"
  by (cases "f (sm_proc s)") (auto simp: sm_lift_def)

lemma error_not_done: "errExit tb msg p \<noteq> Done a q"
  by (auto simp: errExit_def terminate_def do_exit_def)

lemma getInt_value:
  assumes "getInt (Some a) 0 nm p = Done v q" "getInt (Some a) 0 nm p' = Done v' q'"
  shows "v = v'"
proof -
  have "\<exists>t. getNum ''getInt'' (Some a) 0 nm p = Done v t" "\<exists>t. getNum ''getInt'' (Some a) 0 nm p' = Done v' t"
    using assms getInt_iff by blast+
  then show ?thesis by (auto simp: getNum_iff)
qed

lemma sem_arg_Done:
  assumes "sem_arg tb K semid arg s = Done () t"
  shows "\<exists>sops sid p q. denotes_ops arg sops \<and> length sops \<le> MAX_SEMOPS \<and> getInt (Some semid) 0 (Some ''semid'') p = Done sid q \<and>
     k_semop K sid sops (sm_kern s) = Some (sm_kern t, None)"
proof -
  obtain sops s1 where 1: "sm_lift (parseOps tb arg) s = Done sops s1"
    and r1: "andThen (sm_lift (getInt (Some semid) 0 (Some ''semid'')) (sem_line K '': about to semop()  '' arg s1)) (\<lambda>sid s.
       case k_semop K sid sops (sm_kern s) of
         None \<Rightarrow> Halt Blocked s
       | Some (k, Some e) \<Rightarrow>
           sm_lift (errExit tb (''semop (PID='' @ decimal_int (k_pid K) @ '')''))
             (s\<lparr>sm_kern := k, sm_proc := (sm_proc s)\<lparr>errno := e\<rparr>\<rparr>)
       | Some (k, None) \<Rightarrow> Done () (sem_line K '': semop() completed '' arg (s\<lparr>sm_kern := k\<rparr>))) = Done () t"
    using assms unfolding sem_arg_def andThen_Done_iff by blast
  obtain sid s2 where 2: "sm_lift (getInt (Some semid) 0 (Some ''semid'')) (sem_line K '': about to semop()  '' arg s1) = Done sid s2"
    and r2: "(case k_semop K sid sops (sm_kern s2) of
         None \<Rightarrow> Halt Blocked s2
       | Some (k, Some e) \<Rightarrow>
           sm_lift (errExit tb (''semop (PID='' @ decimal_int (k_pid K) @ '')''))
             (s2\<lparr>sm_kern := k, sm_proc := (sm_proc s2)\<lparr>errno := e\<rparr>\<rparr>)
       | Some (k, None) \<Rightarrow> Done () (sem_line K '': semop() completed '' arg (s2\<lparr>sm_kern := k\<rparr>))) = Done () t"
    using r1 unfolding andThen_Done_iff by blast
  have k: "sm_kern s1 = sm_kern s" "sm_kern s2 = sm_kern s" using 1 2 by (auto simp: sm_lift_Done)
  have "k_semop K sid sops (sm_kern s) = Some (sm_kern t, None)"
    using r2 k by (auto simp: sm_lift_Done error_not_done split: option.splits)
  moreover have "denotes_ops arg sops \<and> length sops \<le> MAX_SEMOPS"
    using 1 parseOps_loop_sound [of tb arg arg "[]"] by (fastforce simp: sm_lift_Done parseOps_def)
  ultimately show ?thesis using 2 by (auto simp: sm_lift_Done)
qed

lemma sem_args_Done:
  "forEach (sem_arg tb K semid) args s = Done () t \<Longrightarrow>
   \<exists>opss. list_all2 denotes_ops args opss \<and>
     (args = [] \<and> sm_kern t = sm_kern s \<or>
      (\<exists>sid p q. getInt (Some semid) 0 (Some ''semid'') p = Done sid q \<and> semops K sid opss (sm_kern s) (sm_kern t)))"
proof (induction args arbitrary: s)
  case (Cons arg args)
  obtain u where u: "sem_arg tb K semid arg s = Done () u" "forEach (sem_arg tb K semid) args u = Done () t"
    using Cons.prems by (auto simp: andThen_Done_iff)
  obtain sops sid p q where a: "denotes_ops arg sops" "getInt (Some semid) 0 (Some ''semid'') p = Done sid q"
    "k_semop K sid sops (sm_kern s) = Some (sm_kern u, None)" using sem_arg_Done [OF u(1)] by blast
  obtain opss where o: "list_all2 denotes_ops args opss"
    "args = [] \<and> sm_kern t = sm_kern u \<or>
      (\<exists>sid p q. getInt (Some semid) 0 (Some ''semid'') p = Done sid q \<and> semops K sid opss (sm_kern u) (sm_kern t))"
    using Cons.IH [OF u(2)] by blast
  have "semops K sid (sops # opss) (sm_kern s) (sm_kern t)"
    using o a(3) getInt_value [OF a(2)] by auto
  then show ?case using a(1,2) o(1) by (intro exI [of _ "sops # opss"]) auto
qed auto

abbreviation (input) unsuccessful :: "('s, 'a) run \<Rightarrow> bool" where
  "unsuccessful r \<equiv> holds (\<lambda>_ _. True) (\<lambda>h _. h \<noteq> Exit EXIT_SUCCESS) r"

lemma sm_lift_unsuccessful: "unsuccessful (f (sm_proc s)) \<Longrightarrow> unsuccessful (sm_lift f s)"
  by (cases "f (sm_proc s)") (auto simp: sm_lift_def)

lemma parseOps_unsuccessful: "unsuccessful (parseOps_loop tb arg r acc s)"
proof (induction tb arg r acc s rule: parseOps_loop.induct)
  case (1 tb arg r acc s)
  have "unsuccessful (parse_error tb arg e s)" for e
    by (cases e) (simp_all add: parse_error_def fatal_def terminate_def cmdLineErr_def do_exit_def)
  then show ?case using "1.IH"
    by (subst parseOps_loop.simps) (auto simp: cmdLineErr_def do_exit_def split: sum.split option.split)
qed

lemma sem_arg_unsuccessful: "unsuccessful (sem_arg tb K semid arg s)"
proof -
  have g: "unsuccessful (getInt a fl nm x)" for a fl nm x
    using getInt_else_exits [of x a fl nm] by (auto intro: holds_weaken)
  have e: "unsuccessful (errExit tb m x)" for m x by (simp add: errExit_def terminate_def do_exit_def)
  show ?thesis unfolding sem_arg_def
    by (intro holds_andThen [of "\<lambda>_ _. True"] sm_lift_unsuccessful)
      (auto simp: parseOps_def g e parseOps_unsuccessful intro!: sm_lift_unsuccessful split: option.split)
qed

text \<open>A successful svsem_op.c has performed the operations of all its arguments, one call for each argument, in order, each call on
  exactly the operations the argument denotes, and on the semaphore set its first argument names.\<close>
theorem svsem_op_main_success:
  assumes "svsem_op_main tb K argv s = Halt (Exit EXIT_SUCCESS) t" "2 < length argv"
  shows "\<exists>opss sid p q. list_all2 denotes_ops (drop 2 argv) opss \<and> getInt (Some (argv ! 1)) 0 (Some ''semid'') p = Done sid q \<and>
     semops K sid opss (sm_kern s) (sm_kern t)"
proof -
  have "\<not> unsuccessful (svsem_op_main tb K argv s)" using assms(1) by simp
  moreover have "unsuccessful (sm_lift (sem_usageError (hd argv)) s)"
    by (rule sm_lift_unsuccessful) (simp add: sem_usageError_def do_exit_def)
  ultimately have main: "svsem_op_main tb K argv s =
      andThen (forEach (sem_arg tb K (argv ! 1)) (drop 2 argv) s) (\<lambda>_ s. sm_lift (do_exit EXIT_SUCCESS) s)"
    by (auto simp: svsem_op_main_def)
  have "unsuccessful (forEach (sem_arg tb K (argv ! 1)) (drop 2 argv) s)"
    by (rule holds_forEach) (use sem_arg_unsuccessful in auto)
  then obtain u where u: "forEach (sem_arg tb K (argv ! 1)) (drop 2 argv) s = Done () u"
    using main assms(1) by (cases "forEach (sem_arg tb K (argv ! 1)) (drop 2 argv) s") auto
  then have "sm_kern t = sm_kern u" using main assms(1) by (auto simp: sm_lift_def do_exit_def)
  then show ?thesis using sem_args_Done [OF u] assms(2) by auto
qed

definition demo_sem_sys :: "nat sem_sys" where
  "demo_sem_sys = \<lparr>k_semop = (\<lambda>sid sops k. Some (k + length sops, None)), k_time = (\<lambda>_. ''12:00:00''), k_pid = 100\<rparr>"

definition demo_sem_tables :: env_tables where
  "demo_sem_tables = \<lparr>ename = (\<lambda>_. []), MAX_ENAME = 0, strerror = (\<lambda>_. [])\<rparr>"

definition demo_semp :: "nat semp" where
  "demo_semp = \<lparr>sm_proc = \<lparr>stdout_buf = [], stdout_text = [], stderr_text = [], errno = 0, ef_dumpcore = None\<rparr>, sm_kern = 0\<rparr>"

theorem svsem_op_main_success_witness:
  "\<exists>tb t opss sid. svsem_op_main tb demo_sem_sys [''svsem_op'', ''7'', ''0+1,1-2n''] demo_semp = Halt (Exit EXIT_SUCCESS) t \<and>
     list_all2 denotes_ops [''0+1,1-2n''] opss \<and> semops demo_sem_sys sid opss 0 (sm_kern t)"
proof -
  let ?r = "svsem_op_main demo_sem_tables demo_sem_sys [''svsem_op'', ''7'', ''0+1,1-2n''] demo_semp"
  have "case ?r of Halt (Exit v) _ \<Rightarrow> v = 0 | _ \<Rightarrow> False" by code_simp
  then obtain t where t: "svsem_op_main demo_sem_tables demo_sem_sys [''svsem_op'', ''7'', ''0+1,1-2n''] demo_semp = Halt (Exit EXIT_SUCCESS) t"
    by (cases ?r) (auto split: halt.splits)
  from svsem_op_main_success [OF t] t show ?thesis by (auto simp: demo_semp_def)
qed

end
