(* ===== verification/Process_Lib.thy ===== *)
theory Process_Lib
  imports Get_Num
begin

text \<open>
  Functions that manage processes: \<^verbatim>\<open>procexec/system.c\<close>, \<^verbatim>\<open>procexec/print_wait_status.c\<close> and
  \<^verbatim>\<open>daemons/become_daemon.c\<close>.  A process has signal dispositions and a signal mask, a session, and a table of
  descriptors.  The answers of \<^verbatim>\<open>fork()\<close>, \<^verbatim>\<open>waitpid()\<close> and the other calls are parameters.
  The lemmas show that \<^verbatim>\<open>system()\<close> restores the signal state of its caller on every path and gives the
  command the state the standard asks for, that every wait status is described as the event it
  encodes, and what a daemon has and has not when \<^verbatim>\<open>becomeDaemon()\<close> succeeds.
\<close>

section \<open>Signals\<close>

abbreviation (input) SIGINT :: nat where "SIGINT \<equiv> 2"
abbreviation (input) SIGQUIT :: nat where "SIGQUIT \<equiv> 3"
abbreviation (input) SIGCHLD :: nat where "SIGCHLD \<equiv> 17"
abbreviation (input) EINTR :: int where "EINTR \<equiv> 4"

datatype handler = SIG_DFL | SIG_IGN | Handler nat

record sigact =
  sa_handler :: handler
  sa_flags :: int
  sa_mask :: "nat set"

record sigproc =
  acts :: "nat \<Rightarrow> sigact"
  smask :: "nat set"
  serrno :: int

section \<open>system()\<close>

text \<open>
  The parameters: the result of \<^verbatim>\<open>fork()\<close>; the wait status of the child when the program could be executed;
  the answers of the successive \<^verbatim>\<open>waitpid()\<close> calls, errors or the end of the child; and what
  \<^verbatim>\<open>sigprocmask()\<close> and \<^verbatim>\<open>sigaction()\<close> leave in \<^verbatim>\<open>errno\<close>.
\<close>

record sys_calls =
  k_fork :: "int option"
  k_exec :: "string \<Rightarrow> string list \<Rightarrow> sigproc \<Rightarrow> int option"
  k_waits :: "(int + unit) list"
  k_errno :: "int \<Rightarrow> int"

definition set_act :: "sys_calls \<Rightarrow> nat \<Rightarrow> sigact \<Rightarrow> sigproc \<Rightarrow> sigproc" where
  "set_act K sig act s = s\<lparr>acts := (acts s)(sig := act), serrno := k_errno K (serrno s)\<rparr>"

definition set_mask :: "sys_calls \<Rightarrow> nat set \<Rightarrow> sigproc \<Rightarrow> sigproc" where
  "set_mask K m s = s\<lparr>smask := m, serrno := k_errno K (serrno s)\<rparr>"

text \<open>The child: the wait status of what it does; exit status 127 if the shell cannot be executed.\<close>

definition run_child :: "sys_calls \<Rightarrow> sigact \<Rightarrow> sigact \<Rightarrow> nat set \<Rightarrow> string \<Rightarrow> sigproc \<Rightarrow> int" where
  "run_child K saOrigInt saOrigQuit origMask command s =
     (let saDefault = \<lparr>sa_handler = SIG_DFL, sa_flags = 0, sa_mask = {}\<rparr>;
          s = (if sa_handler saOrigInt \<noteq> SIG_IGN then set_act K SIGINT saDefault s else s);
          s = (if sa_handler saOrigQuit \<noteq> SIG_IGN then set_act K SIGQUIT saDefault s else s);
          s = set_mask K origMask s
      in case k_exec K ''/bin/sh'' [''sh'', ''-c'', command] s of Some status \<Rightarrow> status | None \<Rightarrow> 127 * 256)"

fun wait_child :: "int \<Rightarrow> (int + unit) list \<Rightarrow> sigproc \<Rightarrow> (sigproc, int) run" where
  "wait_child status [] s = Halt Blocked s"
| "wait_child status (Inr () # ws) s = Done status s"
| "wait_child status (Inl e # ws) s =
     (if e \<noteq> EINTR then Done (-1) (s\<lparr>serrno := e\<rparr>) else wait_child status ws (s\<lparr>serrno := e\<rparr>))"

definition system_cmd :: "sys_calls \<Rightarrow> string \<Rightarrow> sigproc \<Rightarrow> (sigproc, int) run" where
  "system_cmd K command s =
     (let origMask = smask s; s = set_mask K (insert SIGCHLD (smask s)) s;
          saIgnore = \<lparr>sa_handler = SIG_IGN, sa_flags = 0, sa_mask = {}\<rparr>;
          saOrigInt = acts s SIGINT; s = set_act K SIGINT saIgnore s;
          saOrigQuit = acts s SIGQUIT; s = set_act K SIGQUIT saIgnore s
      in andThen
           (case k_fork K of
              Some e \<Rightarrow> Done (-1) (s\<lparr>serrno := e\<rparr>)
            | None \<Rightarrow> wait_child (run_child K saOrigInt saOrigQuit origMask command s) (k_waits K) s)
           (\<lambda>status s.
             let savedErrno = serrno s;
                 s = set_act K SIGQUIT saOrigQuit (set_act K SIGINT saOrigInt (set_mask K origMask s))
             in Done status (s\<lparr>serrno := savedErrno\<rparr>)))"

definition system_fn :: "sys_calls \<Rightarrow> string option \<Rightarrow> sigproc \<Rightarrow> (sigproc, int) run" where
  "system_fn K command s =
     (case command of
        None \<Rightarrow> andThen (system_cmd K '':'' s) (\<lambda>r s. Done (if r = 0 then 1 else 0) s)
      | Some c \<Rightarrow> system_cmd K c s)"

text \<open>What the standard asks for: the signal state in which the command runs, and the result.\<close>

definition command_state :: "sigproc \<Rightarrow> nat \<Rightarrow> handler" where
  "command_state s sig =
     (if sig = SIGINT \<or> sig = SIGQUIT then (if sa_handler (acts s sig) = SIG_IGN then SIG_IGN else SIG_DFL) else sa_handler (acts s sig))"

fun system_result :: "int \<Rightarrow> (int + unit) list \<Rightarrow> (int \<times> int option) option" where
  "system_result status [] = None"
| "system_result status (Inr () # ws) = Some (status, None)"
| "system_result status (Inl e # ws) = (if e = EINTR then system_result status ws else Some (-1, Some e))"

lemma acts_simps:
  "acts (set_mask K m s) = acts s" "acts (set_act K sig a s) sig' = (if sig' = sig then a else acts s sig')"
  by (simp_all add: set_mask_def set_act_def)

lemma wait_child_spec:
  "case system_result status ws of
     None \<Rightarrow> \<exists>t. wait_child status ws s = Halt Blocked t
   | Some (r, e) \<Rightarrow> \<exists>t. wait_child status ws s = Done r t \<and> acts t = acts s \<and> smask t = smask s \<and>
       (e = None \<or> e = Some (serrno t))"
  by (induction status ws s rule: wait_child.induct) (auto split: option.splits)


section \<open>Wait statuses\<close>

definition WIFEXITED :: "32 word \<Rightarrow> bool" where
  "WIFEXITED status \<longleftrightarrow> status AND 0x7f = 0"

definition WEXITSTATUS :: "32 word \<Rightarrow> int" where
  "WEXITSTATUS status = uint (drop_bit 8 (status AND 0xff00))"

definition WTERMSIG :: "32 word \<Rightarrow> int" where
  "WTERMSIG status = uint (status AND 0x7f)"

text \<open>\<^verbatim>\<open>((signed char) (((status) & 0x7f) + 1) >> 1) > 0\<close>\<close>

definition WIFSIGNALED :: "32 word \<Rightarrow> bool" where
  "WIFSIGNALED status \<longleftrightarrow> (let v = uint (status AND 0x7f) + 1 in (if v \<ge> 128 then v - 256 else v) div 2 > 0)"

definition WCOREDUMP :: "32 word \<Rightarrow> bool" where
  "WCOREDUMP status \<longleftrightarrow> status AND 0x80 \<noteq> 0"

definition WIFSTOPPED :: "32 word \<Rightarrow> bool" where
  "WIFSTOPPED status \<longleftrightarrow> status AND 0xff = 0x7f"

definition WIFCONTINUED :: "32 word \<Rightarrow> bool" where
  "WIFCONTINUED status \<longleftrightarrow> status = 0xffff"

text \<open>\<^verbatim>\<open>strsignal()\<close> and the hexadecimal conversion of \<^verbatim>\<open>printf()\<close> are parameters.\<close>

definition printWaitStatus :: "(int \<Rightarrow> string) \<Rightarrow> (32 word \<Rightarrow> string) \<Rightarrow> string option \<Rightarrow> 32 word \<Rightarrow> string" where
  "printWaitStatus strsignal hex msg status =
     (case msg of None \<Rightarrow> [] | Some m \<Rightarrow> m) @
     (if WIFEXITED status then ''child exited, status='' @ decimal_int (WEXITSTATUS status) @ nl
      else if WIFSIGNALED status then
        ''child killed by signal '' @ decimal_int (WTERMSIG status) @ '' ('' @ strsignal (WTERMSIG status) @ '')'' @
        (if WCOREDUMP status then '' (core dumped)'' else []) @ nl
      else if WIFSTOPPED status then
        ''child stopped by signal '' @ decimal_int (WEXITSTATUS status) @ '' ('' @ strsignal (WEXITSTATUS status) @ '')'' @ nl
      else if WIFCONTINUED status then ''child continued'' @ nl
      else ''what happened to this child? (status='' @ hex status @ '')'' @ nl)"

text \<open>The events the kernel reports, and how it encodes them.\<close>

datatype child_event = Exited nat | Signaled nat bool | Stopped nat | Continued

fun wait_status :: "child_event \<Rightarrow> 32 word" where
  "wait_status (Exited n) = of_nat (n * 256)"
| "wait_status (Signaled sig core) = of_nat (sig + (if core then 128 else 0))"
| "wait_status (Stopped sig) = of_nat (sig * 256 + 127)"
| "wait_status Continued = 0xffff"

fun event_ok :: "child_event \<Rightarrow> bool" where
  "event_ok (Exited n) = (n < 256)"
| "event_ok (Signaled sig core) = (0 < sig \<and> sig < 127)"
| "event_ok (Stopped sig) = (sig < 256)"
| "event_ok Continued = True"

fun event_text :: "(int \<Rightarrow> string) \<Rightarrow> child_event \<Rightarrow> string" where
  "event_text strsignal (Exited n) = ''child exited, status='' @ decimal_int (int n) @ nl"
| "event_text strsignal (Signaled sig core) =
     ''child killed by signal '' @ decimal_int (int sig) @ '' ('' @ strsignal (int sig) @ '')'' @ (if core then '' (core dumped)'' else []) @ nl"
| "event_text strsignal (Stopped sig) = ''child stopped by signal '' @ decimal_int (int sig) @ '' ('' @ strsignal (int sig) @ '')'' @ nl"
| "event_text strsignal Continued = ''child continued'' @ nl"

lemma low_bits:
  fixes w :: "32 word"
  shows "uint (w AND 0x7f) = uint w mod 128" "uint (w AND 0xff) = uint w mod 256" "uint (drop_bit 8 (w AND 0xff00)) = uint w div 256 mod 256"
    "(w AND 0x80 \<noteq> 0) = odd (uint w div 128)"
proof -
  have m: "w AND 0x7f = take_bit 7 w" "w AND 0xff = take_bit 8 w" by (simp_all add: take_bit_eq_mask mask_eq_exp_minus_1)
  show "uint (w AND 0x7f) = uint w mod 128" "uint (w AND 0xff) = uint w mod 256"
    unfolding m unsigned_take_bit_eq by (simp_all add: take_bit_eq_mod)
  have "(0xff00 :: 32 word) = push_bit 8 (mask 8)" by (simp add: mask_eq_exp_minus_1 push_bit_eq_mult)
  then have "drop_bit 8 (w AND 0xff00) = drop_bit 8 (w AND push_bit 8 (mask 8))" by (rule arg_cong)
  also have "\<dots> = take_bit 8 (drop_bit 8 w)" by (rule bit_word_eqI) (auto simp: bit_simps)
  finally have "drop_bit 8 (w AND 0xff00) = take_bit 8 (drop_bit 8 w)" .
  then have "uint (drop_bit 8 (w AND 0xff00)) = uint (take_bit 8 (drop_bit 8 w))" by (rule arg_cong)
  moreover have "uint w mod 4294967296 = uint w" using uint_lt2p [of w] by simp
  ultimately show "uint (drop_bit 8 (w AND 0xff00)) = uint w div 256 mod 256"
    unfolding unsigned_take_bit_eq unsigned_drop_bit_eq by (simp add: take_bit_eq_mod drop_bit_eq_div)
  have e: "w AND 2 ^ 7 = w AND 0x80" by simp
  have "(w AND 0x80 \<noteq> 0) = bit (uint w) 7" using and_exp_eq_0_iff_not_bit [of w 7] unfolding e bit_uint_iff by simp
  then show "(w AND 0x80 \<noteq> 0) = odd (uint w div 128)" by (simp add: bit_iff_odd)
qed

lemma uint_of_small: "n < 4294967296 \<Longrightarrow> uint (of_nat n :: 32 word) = int n"
  unfolding unsigned_of_nat by (simp add: take_bit_nat_eq_self)

lemma wait_status_uint:
  "n < 256 \<Longrightarrow> uint (wait_status (Exited n)) = 256 * int n"
  "sig < 127 \<Longrightarrow> uint (wait_status (Signaled sig core)) = int sig + (if core then 128 else 0)"
  "sig < 256 \<Longrightarrow> uint (wait_status (Stopped sig)) = 256 * int sig + 127"
  unfolding wait_status.simps by (subst uint_of_small; simp)+

lemma wait_macros:
  "WIFEXITED w \<longleftrightarrow> uint w mod 128 = 0"
  "WTERMSIG w = uint w mod 128"
  "WIFSIGNALED w \<longleftrightarrow> uint w mod 128 \<notin> {0, 127}"
  "WCOREDUMP w \<longleftrightarrow> odd (uint w div 128)"
  "WIFSTOPPED w \<longleftrightarrow> uint w mod 256 = 127"
  "WEXITSTATUS w = uint w div 256 mod 256"
proof -
  show "WIFEXITED w \<longleftrightarrow> uint w mod 128 = 0"
    unfolding WIFEXITED_def low_bits(1) [symmetric] by (simp add: uint_0_iff)
  have "uint w mod 128 < 128" "0 \<le> uint w mod 128" by simp_all
  then show "WIFSIGNALED w \<longleftrightarrow> uint w mod 128 \<notin> {0, 127}"
    unfolding WIFSIGNALED_def low_bits(1) Let_def by (auto simp: pos_imp_zdiv_pos_iff)
  have "w AND 0xff = 0x7f \<longleftrightarrow> uint (w AND 0xff) = uint (0x7f :: 32 word)" by (rule word_uint_eq_iff)
  then show "WIFSTOPPED w \<longleftrightarrow> uint w mod 256 = 127" by (simp add: WIFSTOPPED_def low_bits(2))
  show "WTERMSIG w = uint w mod 128" "WCOREDUMP w \<longleftrightarrow> odd (uint w div 128)" "WEXITSTATUS w = uint w div 256 mod 256"
    unfolding WTERMSIG_def WCOREDUMP_def WEXITSTATUS_def low_bits by (rule refl)+
qed

text \<open>
  \<^verbatim>\<open>printWaitStatus()\<close> describes every wait status as the event the kernel encoded in it: the exit
  status of a child that exited, the signal and the core dump of one that was killed, the signal of
  one that was stopped, or that it continued; with the caller's message, if any, in front.
\<close>

theorem printWaitStatus_roundtrip:
  assumes "event_ok ev"
  shows "printWaitStatus strsignal hex msg (wait_status ev) = (case msg of None \<Rightarrow> [] | Some m \<Rightarrow> m) @ event_text strsignal ev"
proof (cases ev)
  case (Exited n)
  then have u: "uint (wait_status ev) = 256 * int n" and n: "n < 256" using assms by (simp_all add: wait_status_uint del: wait_status.simps)
  have "256 * int n mod 128 = 0" "256 * int n div 256 mod 256 = int n" using n by simp_all
  then have m: "WIFEXITED (wait_status ev)" "WEXITSTATUS (wait_status ev) = int n" unfolding wait_macros u .
  show ?thesis by (simp only: printWaitStatus_def m if_True) (simp only: Exited event_text.simps)
next
  case (Signaled sig core)
  then have u: "uint (wait_status ev) = int sig + (if core then 128 else 0)" and n: "0 < sig" "sig < 127"
    using assms by (simp_all add: wait_status_uint del: wait_status.simps)
  have "(int sig + (if core then 128 else 0)) mod 128 = int sig" "odd ((int sig + (if core then 128 else 0)) div 128) = core"
    using n by (simp_all add: div_add1_eq)
  then have m: "\<not> WIFEXITED (wait_status ev)" "WIFSIGNALED (wait_status ev)" "WTERMSIG (wait_status ev) = int sig" "WCOREDUMP (wait_status ev) = core"
    unfolding wait_macros u using n by simp_all
  show ?thesis by (simp only: printWaitStatus_def m if_True if_False simp_thms) (simp only: Signaled event_text.simps)
next
  case (Stopped sig)
  then have u: "uint (wait_status ev) = 256 * int sig + 127" and n: "sig < 256"
    using assms by (simp_all add: wait_status_uint del: wait_status.simps)
  have "(256 * int sig + 127) mod 128 = 127" "(256 * int sig + 127) mod 256 = 127" "(256 * int sig + 127) div 256 mod 256 = int sig"
    using n by (simp_all add: mod_add_eq [symmetric] div_add1_eq)
  then have m: "\<not> WIFEXITED (wait_status ev)" "\<not> WIFSIGNALED (wait_status ev)" "WIFSTOPPED (wait_status ev)" "WEXITSTATUS (wait_status ev) = int sig"
    unfolding wait_macros u by simp_all
  show ?thesis by (simp only: printWaitStatus_def m if_True if_False simp_thms) (simp only: Stopped event_text.simps)
next
  case Continued
  then have u: "uint (wait_status ev) = 65535" by simp
  have m: "\<not> WIFEXITED (wait_status ev)" "\<not> WIFSIGNALED (wait_status ev)" "\<not> WIFSTOPPED (wait_status ev)" "WIFCONTINUED (wait_status ev)"
    unfolding wait_macros u WIFCONTINUED_def by (simp_all add: Continued)
  show ?thesis by (simp only: printWaitStatus_def m if_True if_False simp_thms) (simp only: Continued event_text.simps)
qed

theorem printWaitStatus_roundtrip_witness:
  "event_ok (Signaled 11 True) \<and>
   printWaitStatus (\<lambda>_. ''Segmentation fault'') (\<lambda>_. ''?'') (Some ''1: '') (wait_status (Signaled 11 True))
     = ''1: '' @ event_text (\<lambda>_. ''Segmentation fault'') (Signaled 11 True)"
proof -
  have ok: "event_ok (Signaled 11 True)" by simp
  show ?thesis
    using ok printWaitStatus_roundtrip [OF ok, of "\<lambda>_. ''Segmentation fault''" "\<lambda>_. ''?''" "Some ''1: ''"]
    unfolding option.case by (rule conjI)
qed

section \<open>Daemons\<close>

text \<open>
  A process: its identifiers, its controlling terminal, the file mode creation mask, the working directory, and its table of
  descriptors, in which \<^verbatim>\<open>open()\<close> takes the lowest free one.  \<open>gone\<close> lists the parents that called
  \<^verbatim>\<open>_exit()\<close>.
\<close>

record daemon =
  d_pid :: int
  d_pgid :: int
  d_sid :: int
  d_tty :: "string option"
  d_umask :: "32 word"
  d_cwd :: string
  d_fds :: "string option list"
  d_gone :: "int list"

text \<open>
  What the kernel answers: the process ID of each child (\<open>None\<close> when \<^verbatim>\<open>fork()\<close> fails), whether
  \<^verbatim>\<open>chdir("/")\<close> and the opening of \<^verbatim>\<open>/dev/null\<close> work, the limit on descriptors, and which
  \<^verbatim>\<open>dup2()\<close> fail.
\<close>

record daemon_calls =
  c_fork :: "nat \<Rightarrow> int option"
  c_chdir :: bool
  c_open_max :: int
  c_null :: bool
  c_dup2 :: "nat \<Rightarrow> bool"

abbreviation (input) BD_NO_CHDIR :: "32 word" where "BD_NO_CHDIR \<equiv> 1"
abbreviation (input) BD_NO_CLOSE_FILES :: "32 word" where "BD_NO_CLOSE_FILES \<equiv> 2"
abbreviation (input) BD_NO_REOPEN_STD_FDS :: "32 word" where "BD_NO_REOPEN_STD_FDS \<equiv> 4"
abbreviation (input) BD_NO_UMASK0 :: "32 word" where "BD_NO_UMASK0 \<equiv> 8"
abbreviation (input) BD_MAX_CLOSE :: int where "BD_MAX_CLOSE \<equiv> 8192"

definition fd_get :: "string option list \<Rightarrow> nat \<Rightarrow> string option" where
  "fd_get fds n = (if n < length fds then fds ! n else None)"

definition fd_put :: "nat \<Rightarrow> string option \<Rightarrow> string option list \<Rightarrow> string option list" where
  "fd_put n v fds = (fds @ replicate (Suc n - length fds) None)[n := v]"

definition lowest_free :: "string option list \<Rightarrow> nat" where
  "lowest_free fds = length (takeWhile (\<lambda>x. x \<noteq> None) fds)"

definition d_close :: "nat \<Rightarrow> daemon \<Rightarrow> daemon" where
  "d_close n s = s\<lparr>d_fds := fd_put n None (d_fds s)\<rparr>"

text \<open>The child goes on as the program, its parent is gone.\<close>

definition d_fork :: "daemon_calls \<Rightarrow> nat \<Rightarrow> daemon \<Rightarrow> daemon option" where
  "d_fork K k s = (case c_fork K k of None \<Rightarrow> None | Some pid \<Rightarrow> Some (s\<lparr>d_pid := pid, d_gone := d_gone s @ [d_pid s]\<rparr>))"

definition d_setsid :: "daemon \<Rightarrow> daemon option" where
  "d_setsid s = (if d_pgid s = d_pid s then None else Some (s\<lparr>d_pgid := d_pid s, d_sid := d_pid s, d_tty := None\<rparr>))"

definition d_open_null :: "daemon_calls \<Rightarrow> daemon \<Rightarrow> int \<times> daemon" where
  "d_open_null K s = (if c_null K then (int (lowest_free (d_fds s)), s\<lparr>d_fds := fd_put (lowest_free (d_fds s)) (Some ''/dev/null'') (d_fds s)\<rparr>)
                      else (- 1, s))"

definition d_dup2 :: "daemon_calls \<Rightarrow> nat \<Rightarrow> nat \<Rightarrow> daemon \<Rightarrow> int \<times> daemon" where
  "d_dup2 K old new s = (if c_dup2 K new \<or> fd_get (d_fds s) old = None then (- 1, s)
                         else (int new, s\<lparr>d_fds := fd_put new (fd_get (d_fds s) old) (d_fds s)\<rparr>))"

definition close_files :: "daemon_calls \<Rightarrow> daemon \<Rightarrow> daemon" where
  "close_files K s = (let maxfd = sint (word_of_int (c_open_max K) :: 32 word);
                          maxfd = (if maxfd = - 1 then BD_MAX_CLOSE else maxfd) in
                      foldl (\<lambda>s fd. d_close fd s) s [0..<nat maxfd])"

definition reopen_std_fds :: "daemon_calls \<Rightarrow> daemon \<Rightarrow> int \<times> daemon" where
  "reopen_std_fds K s =
     (let s = d_close 0 s; (fd, s) = d_open_null K s in
      if fd \<noteq> 0 then (- 1, s)
      else let (r, s) = d_dup2 K 0 1 s in
           if r \<noteq> 1 then (- 1, s)
           else let (r, s) = d_dup2 K 0 2 s in
                if r \<noteq> 2 then (- 1, s) else (0, s))"

definition becomeDaemon :: "daemon_calls \<Rightarrow> 32 word \<Rightarrow> daemon \<Rightarrow> int \<times> daemon" where
  "becomeDaemon K flags s =
     (case d_fork K 0 s of
        None \<Rightarrow> (- 1, s)
      | Some s \<Rightarrow>
        (case d_setsid s of
           None \<Rightarrow> (- 1, s)
         | Some s \<Rightarrow>
           (case d_fork K 1 s of
              None \<Rightarrow> (- 1, s)
            | Some s \<Rightarrow>
              let s = (if flags AND BD_NO_UMASK0 = 0 then s\<lparr>d_umask := 0\<rparr> else s);
                  s = (if flags AND BD_NO_CHDIR = 0 \<and> c_chdir K then s\<lparr>d_cwd := ''/''\<rparr> else s);
                  s = (if flags AND BD_NO_CLOSE_FILES = 0 then close_files K s else s)
              in if flags AND BD_NO_REOPEN_STD_FDS = 0 then reopen_std_fds K s else (0, s))))"

subsection \<open>Descriptors\<close>

lemma fd_get_put [simp]: "fd_get (fd_put n v fds) m = (if m = n then v else fd_get fds m)"
  by (auto simp: fd_get_def fd_put_def nth_append nth_list_update)

lemma lowest_free_0: "fd_get fds 0 = None \<Longrightarrow> lowest_free fds = 0"
  by (cases fds) (auto simp: fd_get_def lowest_free_def)

lemma d_close_more [simp]:
  "d_pid (d_close n s) = d_pid s" "d_pgid (d_close n s) = d_pgid s" "d_sid (d_close n s) = d_sid s" "d_tty (d_close n s) = d_tty s"
  "d_umask (d_close n s) = d_umask s" "d_cwd (d_close n s) = d_cwd s" "d_gone (d_close n s) = d_gone s"
  "fd_get (d_fds (d_close n s)) m = (if m = n then None else fd_get (d_fds s) m)"
  by (simp_all add: d_close_def)

definition same_ids :: "daemon \<Rightarrow> daemon \<Rightarrow> bool" where
  "same_ids s t \<longleftrightarrow> d_pid t = d_pid s \<and> d_pgid t = d_pgid s \<and> d_sid t = d_sid s \<and> d_tty t = d_tty s \<and> d_umask t = d_umask s
     \<and> d_cwd t = d_cwd s \<and> d_gone t = d_gone s"

lemma close_many:
  "same_ids s (foldl (\<lambda>s fd. d_close fd s) s [0..<n]) \<and>
   fd_get (d_fds (foldl (\<lambda>s fd. d_close fd s) s [0..<n])) m = (if m < n then None else fd_get (d_fds s) m)"
  by (induction n) (auto simp: same_ids_def)

definition close_limit :: "daemon_calls \<Rightarrow> nat" where
  "close_limit K = nat (if sint (word_of_int (c_open_max K) :: 32 word) = - 1 then BD_MAX_CLOSE else sint (word_of_int (c_open_max K) :: 32 word))"

lemma close_files_correct:
  "same_ids s (close_files K s)" "fd_get (d_fds (close_files K s)) m = (if m < close_limit K then None else fd_get (d_fds s) m)"
  using close_many [of s "close_limit K" m] by (simp_all add: close_files_def close_limit_def Let_def)

lemma reopen_std_fds_correct:
  "case reopen_std_fds K s of (r, t) \<Rightarrow> same_ids s t \<and>
     (if c_null K \<and> \<not> c_dup2 K 1 \<and> \<not> c_dup2 K 2
      then r = 0 \<and> (\<forall>m. fd_get (d_fds t) m = (if m < 3 then Some ''/dev/null'' else fd_get (d_fds s) m))
      else r = - 1)"
proof -
  have "lowest_free (d_fds (d_close 0 s)) = 0" by (rule lowest_free_0) simp
  then show ?thesis
    by (auto simp: reopen_std_fds_def d_open_null_def d_dup2_def Let_def same_ids_def)
qed

text \<open>What a daemon is: the contract of the header of \<^verbatim>\<open>become_daemon.c\<close>, flag by flag.\<close>

definition is_daemon :: "daemon_calls \<Rightarrow> 32 word \<Rightarrow> daemon \<Rightarrow> daemon \<Rightarrow> bool" where
  "is_daemon K flags s t \<longleftrightarrow>
     Some (d_sid t) = c_fork K 0 \<and> Some (d_pid t) = c_fork K 1 \<and> d_sid t \<noteq> d_pid t \<and> d_tty t = None \<and>
     d_gone t = d_gone s @ [d_pid s, d_sid t] \<and>
     d_umask t = (if flags AND BD_NO_UMASK0 = 0 then 0 else d_umask s) \<and>
     d_cwd t = (if flags AND BD_NO_CHDIR = 0 \<and> c_chdir K then ''/'' else d_cwd s) \<and>
     (\<forall>m. fd_get (d_fds t) m =
        (if flags AND BD_NO_REOPEN_STD_FDS = 0 \<and> m < 3 then Some ''/dev/null''
         else if flags AND BD_NO_CLOSE_FILES = 0 \<and> m < close_limit K then None
         else fd_get (d_fds s) m))"

text \<open>The kernel gives a new process no identifier that a process or a process group has.\<close>

definition fresh_pids :: "daemon_calls \<Rightarrow> daemon \<Rightarrow> bool" where
  "fresh_pids K s \<longleftrightarrow> c_fork K 0 \<noteq> Some (d_pgid s) \<and> (c_fork K 0 = None \<or> c_fork K 1 \<noteq> c_fork K 0)"

text \<open>
  C33: \<^verbatim>\<open>becomeDaemon()\<close> returns 0 exactly when both \<^verbatim>\<open>fork()\<close> succeed and, unless
  \<^verbatim>\<open>BD_NO_REOPEN_STD_FDS\<close> is given, \<^verbatim>\<open>/dev/null\<close> can be opened and duplicated; otherwise it returns -1.
  The process that returns 0 is the grandchild of the caller: it has no controlling terminal, is
  in the session of its terminated parent and so not a session leader, has the mask 0
  and the root as its directory (when \<^verbatim>\<open>chdir()\<close> worked: its failure goes unnoticed), descriptors 0, 1 and 2 are
  \<^verbatim>\<open>/dev/null\<close> whatever was open before, every other descriptor below the limit is closed, and
  each flag suppresses its step and no other.
\<close>

theorem becomeDaemon_correct:
  assumes "fresh_pids K s"
  shows "case becomeDaemon K flags s of (r, t) \<Rightarrow>
    (if c_fork K 0 \<noteq> None \<and> c_fork K 1 \<noteq> None \<and> (flags AND BD_NO_REOPEN_STD_FDS = 0 \<longrightarrow> c_null K \<and> \<not> c_dup2 K 1 \<and> \<not> c_dup2 K 2)
     then r = 0 \<and> is_daemon K flags s t else r = - 1)"
proof (cases "c_fork K 0 = None \<or> c_fork K 1 = None")
  case True
  then show ?thesis by (auto simp: becomeDaemon_def d_fork_def d_setsid_def split: option.split)
next
  case False
  then obtain p q where f: "c_fork K 0 = Some p" "c_fork K 1 = Some q" by auto
  then have n: "d_pgid s \<noteq> p" "q \<noteq> p" using assms by (auto simp: fresh_pids_def)
  define u where "u = s\<lparr>d_pid := q, d_gone := d_gone s @ [d_pid s, p], d_pgid := p, d_sid := p, d_tty := None,
    d_umask := if flags AND BD_NO_UMASK0 = 0 then 0 else d_umask s,
    d_cwd := if flags AND BD_NO_CHDIR = 0 \<and> c_chdir K then ''/'' else d_cwd s\<rparr>"
  define v where "v = (if flags AND BD_NO_CLOSE_FILES = 0 then close_files K u else u)"
  have b: "becomeDaemon K flags s = (if flags AND BD_NO_REOPEN_STD_FDS = 0 then reopen_std_fds K v else (0, v))"
    unfolding becomeDaemon_def d_fork_def d_setsid_def f v_def u_def Let_def using n by (cases s) simp
  have v: "same_ids u v" "fd_get (d_fds v) m = (if flags AND BD_NO_CLOSE_FILES = 0 \<and> m < close_limit K then None else fd_get (d_fds s) m)" for m
    using close_files_correct(1) [of u K] close_files_correct(2) [of K u] by (auto simp: v_def u_def same_ids_def)
  have d: "is_daemon K flags s t" if "same_ids v t"
    "\<And>m. fd_get (d_fds t) m = (if flags AND BD_NO_REOPEN_STD_FDS = 0 \<and> m < 3 then Some ''/dev/null'' else fd_get (d_fds v) m)" for t
    using that v n f by (simp add: is_daemon_def same_ids_def u_def)
  show ?thesis
  proof (cases "flags AND BD_NO_REOPEN_STD_FDS = 0")
    case True
    obtain r t where rt: "reopen_std_fds K v = (r, t)" by force
    show ?thesis using reopen_std_fds_correct [of v K] d [of t] f True unfolding b rt by simp
  next
    case False
    then show ?thesis using d [of v] f unfolding b by (simp add: same_ids_def)
  qed
qed

definition daemon_ok :: daemon_calls where
  "daemon_ok = \<lparr>c_fork = (\<lambda>k. Some (101 + int k)), c_chdir = True, c_open_max = 4, c_null = True, c_dup2 = (\<lambda>_. False)\<rparr>"

definition shell_job :: daemon where
  "shell_job = \<lparr>d_pid = 100, d_pgid = 100, d_sid = 50, d_tty = Some ''tty1'', d_umask = 18, d_cwd = ''/home'',
                d_fds = [Some ''tty1'', None, Some ''tty1'', Some ''log''], d_gone = []\<rparr>"

theorem becomeDaemon_correct_witness:
  "fresh_pids daemon_ok shell_job \<and> fst (becomeDaemon daemon_ok 0 shell_job) = 0 \<and>
   is_daemon daemon_ok 0 shell_job (snd (becomeDaemon daemon_ok 0 shell_job))"
proof -
  have f: "fresh_pids daemon_ok shell_job" by (simp add: fresh_pids_def daemon_ok_def shell_job_def)
  show ?thesis using f becomeDaemon_correct [OF f, of 0] by (simp add: daemon_ok_def split: prod.splits)
qed

end
