(* ===== verification/Msg_File.thy ===== *)
theory Msg_File
  imports Bounded_System Get_Num
begin

text \<open>
  The file server over System V message queues: \<^verbatim>\<open>svmsg/svmsg_file_server.c\<close>,
  \<^verbatim>\<open>svmsg/svmsg_file_client.c\<close> and \<^verbatim>\<open>svmsg/svmsg_file.h\<close>.
  The server, the child it forks for every request, and any number of clients run
  interleaved, a system call at a time.  The queues have bounded room, and every call can fail.
  The lemmas show that a client which reports success has received the whole file, and that nobody
  waits for ever unless the server stopped or a response could not be sent.
\<close>

section \<open>Messages and queues\<close>

datatype msg = Failure string | Data string | End

definition RESP_MSG_SIZE :: nat where "RESP_MSG_SIZE = 8192"
definition REQ_MSG_SIZE :: nat where "REQ_MSG_SIZE = 4 + PATH_MAX"

fun msg_size :: "msg \<Rightarrow> nat" where
  "msg_size (Failure d) = Suc (length d)"
| "msg_size (Data d) = length d"
| "msg_size End = 0"

text \<open>A queue takes a message when neither its bytes nor its messages exceed \<^verbatim>\<open>msg_qbytes\<close>.\<close>

definition fits :: "nat \<Rightarrow> nat list \<Rightarrow> nat \<Rightarrow> bool" where
  "fits qbytes sizes n \<longleftrightarrow> sum_list sizes + n \<le> qbytes \<and> Suc (length sizes) \<le> qbytes"

section \<open>The programs\<close>

text \<open>
  A client has the queue it created, which it removes when it exits, and the child of the server that handles its request.
  \<open>c_got\<close> is the data it received so far, of which the program keeps only the length; \<open>k_err\<close> tells that the
  child could not read the file or could not send.
\<close>

datatype outcome = Received nat nat | Refused string | Failed
datatype client_at = CSend | CFirst | CLoop nat nat | CDone outcome
datatype kid_at = KNone | KOpen string | KFail | KRead string | KSend string string | KEnd | KExit int
datatype server_at = SRun | SFork nat string | SRm | SExit int

record session =
  c_path :: string
  c_at :: client_at
  c_queue :: "msg list option"
  c_got :: string
  k_at :: kid_at
  k_err :: bool

record mf =
  sess :: "session list"
  squeue :: "(nat \<times> string) list option"
  server :: server_at

definition Couldnt_open :: string where "Couldnt_open = ''Couldn't open''"

text \<open>\<^verbatim>\<open>msgsnd()\<close> of the child: \<open>None\<close> while it blocks, else whether the message was sent.\<close>

definition respond :: "nat \<Rightarrow> bool \<Rightarrow> msg \<Rightarrow> session \<Rightarrow> (session \<times> bool) option" where
  "respond qb ok m x =
     (case c_queue x of
        None \<Rightarrow> Some (x\<lparr>k_err := True\<rparr>, False)
      | Some ms \<Rightarrow>
          if \<not> ok then Some (x\<lparr>k_err := True\<rparr>, False)
          else if fits qb (map msg_size ms) (msg_size m) then Some (x\<lparr>c_queue := Some (ms @ [m])\<rparr>, True)
          else None)"

text \<open>
  The child, one system call at a time.  \<open>F\<close> are the files that can be opened, \<open>ok\<close> is whether the call works, and
  \<open>n\<close> is the number of bytes that \<^verbatim>\<open>read()\<close> returns.
\<close>

fun serveRequest :: "(string \<Rightarrow> string option) \<Rightarrow> nat \<Rightarrow> bool \<Rightarrow> nat \<Rightarrow> kid_at \<Rightarrow> session \<Rightarrow> session option" where
  "serveRequest F qb ok n (KOpen p) x = Some (x\<lparr>k_at := (case F p of None \<Rightarrow> KFail | Some c \<Rightarrow> KRead c)\<rparr>)"
| "serveRequest F qb ok n KFail x =
     (case respond qb ok (Failure Couldnt_open) x of None \<Rightarrow> None | Some (x, _) \<Rightarrow> Some (x\<lparr>k_at := KExit EXIT_FAILURE\<rparr>))"
| "serveRequest F qb ok n (KRead r) x =
     (if \<not> ok then Some (x\<lparr>k_at := KEnd, k_err := True\<rparr>)
      else if r = [] then Some (x\<lparr>k_at := KEnd\<rparr>)
      else if 0 < n \<and> n \<le> RESP_MSG_SIZE \<and> n \<le> length r then Some (x\<lparr>k_at := KSend (take n r) (drop n r)\<rparr>)
      else None)"
| "serveRequest F qb ok n (KSend d r) x =
     (case respond qb ok (Data d) x of None \<Rightarrow> None | Some (x, sent) \<Rightarrow> Some (x\<lparr>k_at := (if sent then KRead r else KEnd)\<rparr>))"
| "serveRequest F qb ok n KEnd x =
     (case respond qb ok End x of None \<Rightarrow> None | Some (x, _) \<Rightarrow> Some (x\<lparr>k_at := KExit EXIT_SUCCESS\<rparr>))"
| "serveRequest F qb ok n KNone x = None"
| "serveRequest F qb ok n (KExit st) x = None"

text \<open>The client.  Every exit runs \<^verbatim>\<open>removeQueue()\<close>.\<close>

definition client_exit :: "outcome \<Rightarrow> session \<Rightarrow> session" where
  "client_exit r x = x\<lparr>c_at := CDone r, c_queue := None\<rparr>"

definition count_msg :: "nat \<Rightarrow> nat \<Rightarrow> msg \<Rightarrow> session \<Rightarrow> session" where
  "count_msg tot num m x =
     (case m of
        Data d \<Rightarrow> x\<lparr>c_at := CLoop (tot + msg_size m) (Suc num), c_got := c_got x @ d\<rparr>
      | _ \<Rightarrow> client_exit (Received (tot + msg_size m) (Suc num)) x)"

fun client_recv :: "bool \<Rightarrow> client_at \<Rightarrow> session \<Rightarrow> session option" where
  "client_recv ok CFirst x =
     (if \<not> ok then Some (client_exit Failed x)
      else case c_queue x of
        Some (m # ms) \<Rightarrow>
          (case m of Failure d \<Rightarrow> Some (client_exit (Refused d) x) | _ \<Rightarrow> Some (count_msg 0 0 m (x\<lparr>c_queue := Some ms\<rparr>)))
      | _ \<Rightarrow> None)"
| "client_recv ok (CLoop tot num) x =
     (if \<not> ok then Some (client_exit Failed x)
      else case c_queue x of Some (m # ms) \<Rightarrow> Some (count_msg tot num m (x\<lparr>c_queue := Some ms\<rparr>)) | _ \<Rightarrow> None)"
| "client_recv ok _ x = None"

definition client_request :: "nat \<Rightarrow> bool \<Rightarrow> nat \<Rightarrow> mf \<Rightarrow> mf option" where
  "client_request qb ok i s =
     (case squeue s of
        None \<Rightarrow> Some (s\<lparr>sess := (sess s)[i := client_exit Failed (sess s ! i)]\<rparr>)
      | Some rs \<Rightarrow>
          if \<not> ok then Some (s\<lparr>sess := (sess s)[i := client_exit Failed (sess s ! i)]\<rparr>)
          else if fits qb (map (\<lambda>_. REQ_MSG_SIZE) rs) REQ_MSG_SIZE
          then Some (s\<lparr>squeue := Some (rs @ [(i, c_path (sess s ! i))]), sess := (sess s)[i := (sess s ! i)\<lparr>c_at := CFirst\<rparr>]\<rparr>)
          else None)"

text \<open>The server.\<close>

fun server_main :: "bool \<Rightarrow> server_at \<Rightarrow> mf \<Rightarrow> mf option" where
  "server_main ok SRun s =
     (if \<not> ok then Some (s\<lparr>server := SRm\<rparr>)
      else case squeue s of Some ((j, p) # rs) \<Rightarrow> Some (s\<lparr>squeue := Some rs, server := SFork j p\<rparr>) | _ \<Rightarrow> None)"
| "server_main ok (SFork j p) s =
     Some (if \<not> ok then s\<lparr>server := SRm\<rparr>
           else s\<lparr>server := SRun, sess := (sess s)[j := (sess s ! j)\<lparr>k_at := KOpen p\<rparr>]\<rparr>)"
| "server_main ok SRm s =
     Some (if \<not> ok then s\<lparr>server := SExit EXIT_FAILURE\<rparr> else s\<lparr>server := SExit EXIT_SUCCESS, squeue := None\<rparr>)"
| "server_main ok (SExit st) s = None"

inductive mf_step :: "(string \<Rightarrow> string option) \<Rightarrow> nat \<Rightarrow> bool \<Rightarrow> mf \<Rightarrow> mf \<Rightarrow> bool" for F qb ok where
  kid: "i < length (sess s) \<Longrightarrow> serveRequest F qb ok n (k_at (sess s ! i)) (sess s ! i) = Some x \<Longrightarrow>
        mf_step F qb ok s (s\<lparr>sess := (sess s)[i := x]\<rparr>)"
| recv: "i < length (sess s) \<Longrightarrow> client_recv ok (c_at (sess s ! i)) (sess s ! i) = Some x \<Longrightarrow>
        mf_step F qb ok s (s\<lparr>sess := (sess s)[i := x]\<rparr>)"
| request: "i < length (sess s) \<Longrightarrow> c_at (sess s ! i) = CSend \<Longrightarrow> client_request qb ok i s = Some t \<Longrightarrow> mf_step F qb ok s t"
| serve: "server_main ok (server s) s = Some t \<Longrightarrow> mf_step F qb ok s t"

text \<open>The environment lets a call fail, or interrupts \<^verbatim>\<open>msgrcv()\<close> with \<^verbatim>\<open>SIGCHLD\<close>, after which the server calls it again.\<close>

inductive mf_env :: "(string \<Rightarrow> string option) \<Rightarrow> nat \<Rightarrow> mf \<Rightarrow> mf \<Rightarrow> bool" for F qb where
  failure: "mf_step F qb False s t \<Longrightarrow> mf_env F qb s t"
| eintr: "server s = SRun \<Longrightarrow> mf_env F qb s s"

definition mf_client :: "string \<Rightarrow> session" where
  "mf_client p = \<lparr>c_path = p, c_at = CSend, c_queue = Some [], c_got = [], k_at = KNone, k_err = False\<rparr>"

definition mf_start :: "string list \<Rightarrow> mf" where
  "mf_start ps = \<lparr>sess = map mf_client ps, squeue = Some [], server = SRun\<rparr>"

section \<open>Before and after\<close>

text \<open>What the programs do before they communicate, given the errors of the calls.\<close>

definition server_setup :: "env_tables \<Rightarrow> int option \<Rightarrow> int option \<Rightarrow> proc \<Rightarrow> (proc, unit) run" where
  "server_setup tb get act s =
     (case get of
        Some e \<Rightarrow> errExit tb ''msgget'' (s\<lparr>errno := e\<rparr>)
      | None \<Rightarrow> (case act of Some e \<Rightarrow> errExit tb ''sigaction'' (s\<lparr>errno := e\<rparr>) | None \<Rightarrow> Done () s))"

definition client_setup :: "env_tables \<Rightarrow> string list \<Rightarrow> int option \<Rightarrow> int option \<Rightarrow> bool \<Rightarrow> proc \<Rightarrow> (proc, session) run" where
  "client_setup tb argv srv priv atexit_fails s =
     (if length argv \<noteq> 2 \<or> argv ! 1 = ''--help'' then usageErr (hd argv @ '' pathname'' @ nl) s
      else if length (argv ! 1) > PATH_MAX - 1
      then cmdLineErr (''pathname too long (max: '' @ decimal (PATH_MAX - 1) @ '' bytes)'' @ nl) s
      else case srv of
        Some e \<Rightarrow> errExit tb ''msgget - server message queue'' (s\<lparr>errno := e\<rparr>)
      | None \<Rightarrow>
          (case priv of
             Some e \<Rightarrow> errExit tb ''msgget - client message queue'' (s\<lparr>errno := e\<rparr>)
           | None \<Rightarrow> if atexit_fails then errExit tb ''atexit'' s else Done (mf_client (take (PATH_MAX - 1) (argv ! 1))) s))"

text \<open>The handler of \<^verbatim>\<open>SIGCHLD\<close>: the children it reaps, given the results of \<^verbatim>\<open>waitpid()\<close>, and \<^verbatim>\<open>errno\<close>.\<close>

fun grimReaper :: "int list \<Rightarrow> int \<Rightarrow> int list \<times> int" where
  "grimReaper [] e = ([], e)"
| "grimReaper (pid # ws) e = (if pid > 0 then (pid # fst (grimReaper ws e), e) else ([], e))"

text \<open>What a client prints when it exits.\<close>

fun client_report :: "outcome \<Rightarrow> string" where
  "client_report (Received tot num) = ''Received '' @ decimal tot @ '' bytes ('' @ decimal num @ '' messages)'' @ nl"
| "client_report (Refused d) = d @ nl"
| "client_report Failed = []"

section \<open>Sessions\<close>

fun msg_data :: "msg \<Rightarrow> string" where
  "msg_data (Data d) = d" | "msg_data _ = []"

definition datas :: "msg list \<Rightarrow> string" where
  "datas q = concat (map msg_data q)"

fun data_msg :: "msg \<Rightarrow> bool" where
  "data_msg (Data d) = (0 < length d \<and> length d \<le> RESP_MSG_SIZE)" | "data_msg _ = False"

definition sends :: "(string \<Rightarrow> string option) \<Rightarrow> string \<Rightarrow> bool \<Rightarrow> string \<Rightarrow> bool" where
  "sends F p err d \<longleftrightarrow> (\<exists>r. F p = Some (d @ r) \<and> (err \<or> r = []))"

text \<open>What is received, in the queue and still to be sent makes up the file.\<close>

fun transfer :: "(string \<Rightarrow> string option) \<Rightarrow> string \<Rightarrow> bool \<Rightarrow> string \<Rightarrow> msg list \<Rightarrow> kid_at \<Rightarrow> bool" where
  "transfer F p err got q KNone = (q = [] \<and> got = [])"
| "transfer F p err got q (KOpen p') = (q = [] \<and> got = [] \<and> p' = p)"
| "transfer F p err got q KFail = (q = [] \<and> got = [] \<and> F p = None)"
| "transfer F p err got q (KRead r) = (list_all data_msg q \<and> F p = Some (got @ datas q @ r))"
| "transfer F p err got q (KSend d r) = (list_all data_msg q \<and> data_msg (Data d) \<and> F p = Some (got @ datas q @ d @ r))"
| "transfer F p err got q KEnd = (list_all data_msg q \<and> sends F p err (got @ datas q))"
| "transfer F p err got q (KExit st) =
     (list_all data_msg q \<and> err \<or>
      (\<exists>q'. q = q' @ [End] \<and> list_all data_msg q' \<and> sends F p err (got @ datas q')) \<or>
      q = [Failure Couldnt_open] \<and> got = [] \<and> F p = None)"

fun is_exit :: "kid_at \<Rightarrow> bool" where
  "is_exit (KExit st) = True" | "is_exit _ = False"

fun client_ok :: "(string \<Rightarrow> string option) \<Rightarrow> session \<Rightarrow> client_at \<Rightarrow> bool" where
  "client_ok F x CSend = (c_queue x \<noteq> None \<and> k_at x = KNone)"
| "client_ok F x CFirst = (c_queue x \<noteq> None \<and> c_got x = [])"
| "client_ok F x (CLoop tot num) = (c_queue x \<noteq> None \<and> tot = length (c_got x) \<and> 0 < num \<and> num \<le> tot \<and> tot \<le> RESP_MSG_SIZE * num)"
| "client_ok F x (CDone (Received tot num)) =
     (c_queue x = None \<and> is_exit (k_at x) \<and> sends F (c_path x) (k_err x) (c_got x) \<and> tot = length (c_got x) \<and>
      0 < num \<and> num - 1 \<le> tot \<and> tot \<le> RESP_MSG_SIZE * (num - 1))"
| "client_ok F x (CDone (Refused d)) = (c_queue x = None \<and> is_exit (k_at x) \<and> F (c_path x) = None \<and> d = Couldnt_open)"
| "client_ok F x (CDone Failed) = (c_queue x = None)"

definition session_ok :: "(string \<Rightarrow> string option) \<Rightarrow> session \<Rightarrow> bool" where
  "session_ok F x \<longleftrightarrow> client_ok F x (c_at x) \<and>
     (case c_queue x of None \<Rightarrow> True | Some q \<Rightarrow> transfer F (c_path x) (k_err x) (c_got x) q (k_at x))"

lemma datas_simps [simp]: "datas [] = []" "datas (m # q) = msg_data m @ datas q" "datas (q @ q') = datas q @ datas q'"
  by (simp_all add: datas_def)

lemma data_msgE: "data_msg m \<Longrightarrow> (\<And>d. m = Data d \<Longrightarrow> 0 < length d \<Longrightarrow> length d \<le> RESP_MSG_SIZE \<Longrightarrow> P) \<Longrightarrow> P"
  by (cases m) auto

lemma sends_mono: "sends F p err d \<Longrightarrow> sends F p True d"
  by (auto simp: sends_def)

lemma sends_all: "F p = Some d \<Longrightarrow> sends F p err d"
  by (simp add: sends_def)

lemma respond_cases:
  assumes "respond qb ok m x = Some (y, sent)"
  obtains "sent = False" "y = x\<lparr>k_err := True\<rparr>"
  | q where "sent" "c_queue x = Some q" "y = x\<lparr>c_queue := Some (q @ [m])\<rparr>"
  using assms by (auto simp: respond_def split: option.splits if_splits)

lemma client_ok_err: "client_ok F x a \<Longrightarrow> client_ok F (x\<lparr>k_err := True\<rparr>) a"
  by (cases "(F, x, a)" rule: client_ok.cases) (auto intro: sends_mono)

lemma client_ok_kid:
  "k_at x \<noteq> KNone \<Longrightarrow> \<not> is_exit (k_at x) \<Longrightarrow> client_ok F x a \<Longrightarrow> client_ok F (x\<lparr>k_at := k\<rparr>) a"
  "k_at x \<noteq> KNone \<Longrightarrow> \<not> is_exit (k_at x) \<Longrightarrow> c_queue x = Some q \<Longrightarrow> client_ok F x a \<Longrightarrow> client_ok F (x\<lparr>c_queue := Some q', k_at := k\<rparr>) a"
  by (cases "(F, x, a)" rule: client_ok.cases; auto)+

lemma session_kid:
  assumes ok: "session_ok F x" and run: "serveRequest F qb b n (k_at x) x = Some y"
  shows "session_ok F y \<and> c_path y = c_path x \<and> c_at y = c_at x \<and> k_at x \<noteq> KNone \<and> k_at y \<noteq> KNone"
proof (cases "k_at x")
  case (KOpen p)
  then have y: "y = x\<lparr>k_at := (case F p of None \<Rightarrow> KFail | Some c \<Rightarrow> KRead c)\<rparr>" using run by simp
  show ?thesis using ok KOpen client_ok_kid(1) [of x F "c_at x"]
    by (auto simp: y session_ok_def split: option.splits)
next
  case KFail
  then obtain z sent where z: "respond qb b (Failure Couldnt_open) x = Some (z, sent)" and y: "y = z\<lparr>k_at := KExit EXIT_FAILURE\<rparr>"
    using run by (auto split: option.splits)
  from z show ?thesis
  proof (cases rule: respond_cases)
    case 1
    then show ?thesis using ok KFail client_ok_kid(1) [OF _ _ client_ok_err, of x F "c_at x"]
      by (auto simp: y session_ok_def split: option.splits)
  next
    case (2 q)
    then show ?thesis using ok KFail client_ok_kid(2) [of x q F "c_at x"] by (auto simp: y session_ok_def)
  qed
next
  case (KRead r)
  then show ?thesis using ok run client_ok_kid(1) [of x F "c_at x"] client_ok_err [OF client_ok_kid(1), of x F "c_at x"]
    by (auto simp: session_ok_def sends_def split: option.splits if_splits)
next
  case (KSend d r)
  then obtain z sent where z: "respond qb b (Data d) x = Some (z, sent)" and y: "y = z\<lparr>k_at := if sent then KRead r else KEnd\<rparr>"
    using run by (auto split: option.splits)
  from z show ?thesis
  proof (cases rule: respond_cases)
    case 1
    then show ?thesis using ok KSend client_ok_kid(1) [OF _ _ client_ok_err, of x F "c_at x"]
      by (auto simp: y session_ok_def sends_def split: option.splits)
  next
    case (2 q)
    then show ?thesis using ok KSend client_ok_kid(2) [of x q F "c_at x"] by (auto simp: y session_ok_def)
  qed
next
  case KEnd
  then obtain z sent where z: "respond qb b End x = Some (z, sent)" and y: "y = z\<lparr>k_at := KExit EXIT_SUCCESS\<rparr>"
    using run by (auto split: option.splits)
  from z show ?thesis
  proof (cases rule: respond_cases)
    case 1
    then show ?thesis using ok KEnd client_ok_kid(1) [OF _ _ client_ok_err, of x F "c_at x"]
      by (auto simp: y session_ok_def split: option.splits)
  next
    case (2 q)
    then show ?thesis using ok KEnd client_ok_kid(2) [of x q F "c_at x"] by (auto simp: y session_ok_def)
  qed
qed (use run in auto)

lemma transfer_head:
  assumes "transfer F p err got (m # q) k"
  shows "data_msg m \<and> transfer F p err (got @ msg_data m) q k \<or>
    is_exit k \<and> (m = End \<and> sends F p err got \<or> m = Failure Couldnt_open \<and> got = [] \<and> F p = None)"
  using assms
proof (cases k)
  case (KExit st)
  from assms have "list_all data_msg (m # q) \<and> err \<or>
      (\<exists>q'. m # q = q' @ [End] \<and> list_all data_msg q' \<and> sends F p err (got @ datas q')) \<or>
      m # q = [Failure Couldnt_open] \<and> got = [] \<and> F p = None" by (simp add: KExit)
  then show ?thesis by (auto simp: KExit Cons_eq_append_conv)
qed auto

lemma session_recv:
  assumes ok: "session_ok F x" and run: "client_recv b (c_at x) x = Some y"
  shows "session_ok F y \<and> c_path y = c_path x \<and> k_at y = k_at x \<and> c_at x \<noteq> CSend \<and> c_at y \<noteq> CSend"
proof -
  have live: "c_queue x \<noteq> None" using ok run by (cases "c_at x") (auto simp: session_ok_def)
  have count: "session_ok F (count_msg tot num m (x\<lparr>c_queue := Some q\<rparr>)) \<and> c_at (count_msg tot num m (x\<lparr>c_queue := Some q\<rparr>)) \<noteq> CSend"
    if q: "c_queue x = Some (m # q)" and n: "tot = length (c_got x)" "num \<le> tot" "tot \<le> RESP_MSG_SIZE * num"
      and m: "m \<noteq> Failure Couldnt_open" for tot num m q
  proof -
    have "transfer F (c_path x) (k_err x) (c_got x) (m # q) (k_at x)" using ok q by (simp add: session_ok_def)
    from transfer_head [OF this] m have h: "data_msg m \<and> transfer F (c_path x) (k_err x) (c_got x @ msg_data m) q (k_at x) \<or>
      m = End \<and> is_exit (k_at x) \<and> sends F (c_path x) (k_err x) (c_got x)" by blast
    consider d where "m = Data d" "0 < length d" "length d \<le> RESP_MSG_SIZE" "transfer F (c_path x) (k_err x) (c_got x @ d) q (k_at x)"
      | "m = End" "is_exit (k_at x)" "sends F (c_path x) (k_err x) (c_got x)" using h by (cases m) auto
    then show ?thesis
    proof cases
      case 1
      have "Suc num \<le> tot + length d" using n(2) 1(2) by linarith
      moreover have "tot + length d \<le> RESP_MSG_SIZE * Suc num" using n(3) 1(3) by simp
      ultimately show ?thesis using 1 n(1) by (simp add: count_msg_def session_ok_def)
    next
      case 2
      then show ?thesis using n by (simp add: count_msg_def session_ok_def client_exit_def)
    qed
  qed
  have same: "c_path (count_msg tot num m z) = c_path z" "k_at (count_msg tot num m z) = k_at z" for tot num m z
    by (simp_all add: count_msg_def client_exit_def split: msg.split)
  show ?thesis
  proof (cases "c_at x")
    case CFirst
    show ?thesis
    proof (cases b)
      case True
      with run CFirst obtain m q where q: "c_queue x = Some (m # q)" by (auto split: option.splits list.splits)
      have t: "transfer F (c_path x) (k_err x) (c_got x) (m # q) (k_at x)" using ok q by (simp add: session_ok_def)
      have g: "c_got x = []" using ok CFirst by (simp add: session_ok_def)
      show ?thesis
      proof (cases "\<exists>d. m = Failure d")
        case f: True
        then have "m = Failure Couldnt_open" "F (c_path x) = None" "is_exit (k_at x)" using transfer_head [OF t] by auto
        then show ?thesis using run CFirst q True by (auto simp: client_exit_def session_ok_def)
      next
        case False
        then have "y = count_msg 0 0 m (x\<lparr>c_queue := Some q\<rparr>)" using run CFirst q True by (auto split: msg.splits)
        then show ?thesis using count [OF q, of 0 0] g same False CFirst by auto
      qed
    qed (use run CFirst in \<open>auto simp: client_exit_def session_ok_def\<close>)
  next
    case (CLoop tot num)
    show ?thesis
    proof (cases b)
      case True
      with run CLoop obtain m q where q: "c_queue x = Some (m # q)" and y: "y = count_msg tot num m (x\<lparr>c_queue := Some q\<rparr>)"
        by (auto split: option.splits list.splits)
      have "transfer F (c_path x) (k_err x) (c_got x) (m # q) (k_at x)" "c_got x \<noteq> []" using ok q CLoop by (auto simp: session_ok_def)
      from transfer_head [OF this(1)] this(2) have "m \<noteq> Failure Couldnt_open" by auto
      then show ?thesis using count [OF q, of tot num] ok CLoop same unfolding y by (auto simp: session_ok_def)
    qed (use run CLoop in \<open>auto simp: client_exit_def session_ok_def\<close>)
  qed (use run in auto)
qed

section \<open>Invariant\<close>

definition pending :: "mf \<Rightarrow> (nat \<times> string) list" where
  "pending s = (case server s of SFork j p \<Rightarrow> [(j, p)] | _ \<Rightarrow> []) @ (case squeue s of None \<Rightarrow> [] | Some rs \<Rightarrow> rs)"

fun stopped :: "server_at \<Rightarrow> bool" where
  "stopped (SExit st) = True" | "stopped _ = False"

fun ended :: "client_at \<Rightarrow> bool" where
  "ended (CDone r) = True" | "ended _ = False"

definition asks :: "mf \<Rightarrow> nat \<times> string \<Rightarrow> bool" where
  "asks s r \<longleftrightarrow> fst r < length (sess s) \<and> snd r = c_path (sess s ! fst r) \<and> k_at (sess s ! fst r) = KNone \<and> c_at (sess s ! fst r) \<noteq> CSend"

definition linked :: "mf \<Rightarrow> bool" where
  "linked s \<longleftrightarrow> distinct (map fst (pending s)) \<and> (\<forall>r\<in>set (pending s). asks s r)"

definition waits :: "session \<Rightarrow> bool" where
  "waits x \<longleftrightarrow> c_at x \<noteq> CSend \<and> k_at x = KNone \<and> \<not> ended (c_at x)"

fun alive :: "server_at \<Rightarrow> bool" where
  "alive SRm = False" | "alive (SExit st) = False" | "alive _ = True"

definition answered :: "mf \<Rightarrow> bool" where
  "answered s \<longleftrightarrow> (squeue s = None \<longrightarrow> stopped (server s)) \<and>
     (alive (server s) \<longrightarrow> (\<forall>i<length (sess s). waits (sess s ! i) \<longrightarrow> i \<in> fst ` set (pending s)))"

definition mf_inv :: "(string \<Rightarrow> string option) \<Rightarrow> mf \<Rightarrow> bool" where
  "mf_inv F s \<longleftrightarrow> list_all (session_ok F) (sess s) \<and> linked s \<and> answered s"

lemma answered_update:
  assumes a: "answered s" and t: "sess t = (sess s)[i := x]" and q: "squeue t = None \<Longrightarrow> stopped (server t)"
    and live: "alive (server t) \<Longrightarrow> alive (server s)" and p: "fst ` set (pending s) \<subseteq> insert i (fst ` set (pending t))"
    and x: "alive (server t) \<Longrightarrow> waits x \<Longrightarrow> i \<in> fst ` set (pending t)"
  shows "answered t"
proof -
  have "j \<in> fst ` set (pending t)" if "alive (server t)" "j < length (sess s)" "waits (sess t ! j)" for j
  proof (cases "j = i")
    case True
    then show ?thesis using that x by (simp add: t)
  next
    case False
    then have "j \<in> fst ` set (pending s)" using that a live by (simp add: answered_def t)
    then show ?thesis using p False by blast
  qed
  then show ?thesis using q by (simp add: answered_def t)
qed

text \<open>A step that changes one session and neither the pending requests nor the server.\<close>

lemma mf_inv_session:
  assumes inv: "mf_inv F s" and i: "i < length (sess s)" and ok: "session_ok F x" and p: "c_path x = c_path (sess s ! i)"
    and k: "k_at x = KNone \<longleftrightarrow> k_at (sess s ! i) = KNone" and c: "c_at x = CSend \<longleftrightarrow> c_at (sess s ! i) = CSend"
    and d: "ended (c_at (sess s ! i)) \<Longrightarrow> ended (c_at x)"
  shows "mf_inv F (s\<lparr>sess := (sess s)[i := x]\<rparr>)"
proof -
  let ?t = "s\<lparr>sess := (sess s)[i := x]\<rparr>"
  have pend: "pending ?t = pending s" by (simp add: pending_def)
  have "asks ?t r = asks s r" for r using p k c by (cases "fst r = i") (simp_all add: asks_def i)
  then have "linked ?t" using inv by (simp add: mf_inv_def linked_def pend)
  moreover have a: "answered s" using inv by (simp add: mf_inv_def)
  have "i \<in> fst ` set (pending s)" if "alive (server s)" "waits x"
    using that a i k c d by (auto simp: answered_def waits_def)
  then have "answered ?t" using a by (intro answered_update [OF a, of _ i x]) (auto simp: answered_def pend)
  moreover have "list_all (session_ok F) (sess ?t)"
    using inv ok by (auto simp: mf_inv_def list_all_iff dest: set_update_subset_insert [THEN subsetD])
  ultimately show ?thesis by (simp add: mf_inv_def)
qed

lemma session_at: "mf_inv F s \<Longrightarrow> i < length (sess s) \<Longrightarrow> session_ok F (sess s ! i)"
  by (simp add: mf_inv_def list_all_length)

lemma failed_session: "session_ok F (client_exit Failed x)"
  by (simp add: session_ok_def client_exit_def)

lemma client_exit_simps [simp]:
  "c_path (client_exit r x) = c_path x" "k_at (client_exit r x) = k_at x" "c_at (client_exit r x) = CDone r" "k_err (client_exit r x) = k_err x"
  "c_queue (client_exit r x) = None" "c_got (client_exit r x) = c_got x"
  by (simp_all add: client_exit_def)

lemma sess_update_all: "list_all (session_ok F) (sess s) \<Longrightarrow> session_ok F x \<Longrightarrow> list_all (session_ok F) ((sess s)[i := x])"
  by (auto simp: list_all_iff dest: set_update_subset_insert [THEN subsetD])

text \<open>A client at its start has no request pending.\<close>

lemma not_pending:
  assumes "linked s" "c_at (sess s ! i) = CSend \<or> k_at (sess s ! i) \<noteq> KNone"
  shows "i \<notin> fst ` set (pending s)"
  using assms by (force simp: linked_def asks_def)

lemma request_failed_inv:
  assumes inv: "mf_inv F s" and i: "i < length (sess s)" and c: "c_at (sess s ! i) = CSend"
  shows "mf_inv F (s\<lparr>sess := (sess s)[i := client_exit Failed (sess s ! i)]\<rparr>)"
proof -
  let ?t = "s\<lparr>sess := (sess s)[i := client_exit Failed (sess s ! i)]\<rparr>"
  have pend: "pending ?t = pending s" by (simp add: pending_def)
  have l: "linked s" and n: "i \<notin> fst ` set (pending s)" using inv not_pending c by (simp_all add: mf_inv_def)
  have "asks ?t r" if "r \<in> set (pending s)" for r
    using that l n by (cases "fst r = i") (auto simp: linked_def asks_def)
  then have "linked ?t" using l by (simp add: linked_def pend)
  moreover have a: "answered s" using inv by (simp add: mf_inv_def)
  then have "answered ?t" by (intro answered_update [OF a]) (auto simp: answered_def waits_def pend)
  ultimately show ?thesis using inv by (simp add: mf_inv_def sess_update_all failed_session)
qed

lemma request_inv:
  assumes inv: "mf_inv F s" and i: "i < length (sess s)" and c: "c_at (sess s ! i) = CSend" and run: "client_request qb b i s = Some t"
  shows "mf_inv F t"
proof (cases "t = s\<lparr>sess := (sess s)[i := client_exit Failed (sess s ! i)]\<rparr>")
  case True
  then show ?thesis using request_failed_inv [OF inv i c] by simp
next
  case False
  let ?x = "(sess s ! i)\<lparr>c_at := CFirst\<rparr>"
  from False run obtain rs where q: "squeue s = Some rs" and t: "t = s\<lparr>squeue := Some (rs @ [(i, c_path (sess s ! i))]), sess := (sess s)[i := ?x]\<rparr>"
    by (auto simp: client_request_def split: option.splits if_splits)
  have pend: "pending t = pending s @ [(i, c_path (sess s ! i))]" by (simp add: pending_def t q)
  have ok: "session_ok F (sess s ! i)" by (rule session_at [OF inv i])
  then have k: "k_at (sess s ! i) = KNone" "session_ok F ?x" using c by (auto simp: session_ok_def)
  have l: "linked s" and n: "i \<notin> fst ` set (pending s)" using inv not_pending c by (simp_all add: mf_inv_def)
  have "asks t r" if "r \<in> set (pending s)" for r
    using that l n by (cases "fst r = i") (auto simp: linked_def asks_def t)
  moreover have "asks t (i, c_path (sess s ! i))" using i k by (simp add: asks_def t)
  ultimately have "linked t" using l n unfolding linked_def pend by simp
  moreover have a: "answered s" using inv by (simp add: mf_inv_def)
  have "answered t" by (rule answered_update [OF a, of t i ?x]) (auto simp: pend, simp_all add: t)
  ultimately show ?thesis using inv k by (simp add: mf_inv_def t sess_update_all)
qed

lemma server_inv:
  assumes inv: "mf_inv F s" and run: "server_main b (server s) s = Some t"
  shows "mf_inv F t"
proof -
  have l: "linked s" and a: "answered s" and all: "list_all (session_ok F) (sess s)" using inv by (simp_all add: mf_inv_def)
  have sub: "linked u" if "sess u = sess s" "distinct (map fst (pending u))" "set (pending u) \<subseteq> set (pending s)" for u
    using that l by (auto simp: linked_def asks_def)
  show ?thesis
  proof (cases "server s")
    case SRun
    show ?thesis
    proof (cases b)
      case True
      with run SRun obtain j p rs where q: "squeue s = Some ((j, p) # rs)" and t: "t = s\<lparr>squeue := Some rs, server := SFork j p\<rparr>"
        by (auto split: option.splits list.splits)
      have "pending t = pending s" by (simp add: pending_def SRun q t)
      then show ?thesis using l a all SRun q by (simp add: mf_inv_def linked_def answered_def asks_def t)
    next
      case False
      with run SRun have t: "t = s\<lparr>server := SRm\<rparr>" by simp
      have "pending t = pending s" by (simp add: pending_def SRun t)
      then show ?thesis using l a all SRun by (simp add: mf_inv_def linked_def answered_def asks_def t)
    qed
  next
    case (SFork j p)
    obtain rs where q: "squeue s = Some rs" using a SFork by (auto simp: answered_def)
    have pend: "pending s = (j, p) # rs" by (simp add: pending_def SFork q)
    then have j: "asks s (j, p)" "j \<notin> fst ` set rs" "distinct (map fst rs)" using l by (simp_all add: linked_def)
    show ?thesis
    proof (cases b)
      case True
      let ?x = "(sess s ! j)\<lparr>k_at := KOpen p\<rparr>"
      from run SFork True have t: "t = s\<lparr>server := SRun, sess := (sess s)[j := ?x]\<rparr>" by simp
      have "session_ok F (sess s ! j)" using j by (intro session_at [OF inv]) (simp add: asks_def)
      moreover have "client_ok F ?x (c_at (sess s ! j))" if "client_ok F (sess s ! j) (c_at (sess s ! j))"
        using that j by (cases "(F, sess s ! j, c_at (sess s ! j))" rule: client_ok.cases) (auto simp: asks_def)
      ultimately have x: "session_ok F ?x" using j by (auto simp: session_ok_def asks_def split: option.splits)
      have pt: "pending t = rs" by (simp add: pending_def q t)
      have "asks t r" if "r \<in> set rs" for r
        using that l j(2) by (cases "fst r = j") (auto simp: linked_def pend asks_def t)
      then have "linked t" using j by (simp add: linked_def pt)
      moreover have "answered t" by (rule answered_update [OF a, of t j ?x]) (auto simp: pt pend SFork waits_def, simp_all add: t q)
      ultimately show ?thesis using all x by (simp add: mf_inv_def t sess_update_all)
    next
      case False
      with run SFork have t: "t = s\<lparr>server := SRm\<rparr>" by simp
      have "linked t" using j pend by (intro sub) (auto simp: pending_def t q)
      then show ?thesis using a all q by (simp add: mf_inv_def answered_def t)
    qed
  next
    case SRm
    have "distinct (map fst (pending s))" using l by (simp add: linked_def)
    with run SRm have "linked t" by (intro sub) (auto simp: pending_def split: option.splits if_splits)
    then show ?thesis using run SRm a all by (auto simp: mf_inv_def answered_def split: if_splits)
  qed (use run in simp)
qed

lemma mf_step_inv:
  assumes inv: "mf_inv F s" and step: "mf_step F qb b s t"
  shows "mf_inv F t"
  using step
proof (cases rule: mf_step.cases)
  case (kid i n x)
  have x: "session_ok F x \<and> c_path x = c_path (sess s ! i) \<and> c_at x = c_at (sess s ! i) \<and> k_at (sess s ! i) \<noteq> KNone \<and> k_at x \<noteq> KNone"
    by (rule session_kid [OF session_at [OF inv kid(2)] kid(3)])
  show ?thesis unfolding kid(1) by (rule mf_inv_session [OF inv kid(2)]) (use x in auto)
next
  case (recv i x)
  have x: "session_ok F x \<and> c_path x = c_path (sess s ! i) \<and> k_at x = k_at (sess s ! i) \<and> c_at (sess s ! i) \<noteq> CSend \<and> c_at x \<noteq> CSend"
    by (rule session_recv [OF session_at [OF inv recv(2)] recv(3)])
  have "\<not> ended (c_at (sess s ! i))" using recv(3) by (cases "c_at (sess s ! i)") auto
  with x show ?thesis unfolding recv(1) by (intro mf_inv_session [OF inv recv(2)]) auto
next
  case (request i)
  then show ?thesis using request_inv [OF inv] by blast
next
  case serve
  then show ?thesis using server_inv [OF inv] by blast
qed

lemma mf_env_inv: "mf_inv F s \<Longrightarrow> mf_env F qb s t \<Longrightarrow> mf_inv F t"
  by (erule mf_env.cases) (auto intro: mf_step_inv)

lemma mf_start_inv: "mf_inv F (mf_start ps)"
  by (auto simp: mf_inv_def mf_start_def mf_client_def session_ok_def linked_def answered_def pending_def waits_def list_all_iff)

section \<open>Termination\<close>

definition bytes :: "(string \<Rightarrow> string option) \<Rightarrow> string \<Rightarrow> int" where
  "bytes F p = (case F p of None \<Rightarrow> 0 | Some c \<Rightarrow> int (length c))"

fun k_left :: "(string \<Rightarrow> string option) \<Rightarrow> kid_at \<Rightarrow> int" where
  "k_left F KNone = 0"
| "k_left F (KOpen p) = 3 * bytes F p + 6"
| "k_left F KFail = 3"
| "k_left F (KRead r) = 3 * int (length r) + 5"
| "k_left F (KSend d r) = 3 * int (length d + length r) + 4"
| "k_left F KEnd = 3"
| "k_left F (KExit st) = 0"

fun c_left :: "(string \<Rightarrow> string option) \<Rightarrow> string \<Rightarrow> client_at \<Rightarrow> int" where
  "c_left F p CSend = 3 * bytes F p + 12"
| "c_left F p (CDone r) = 0"
| "c_left F p _ = 1"

fun s_left :: "(string \<Rightarrow> string option) \<Rightarrow> server_at \<Rightarrow> int" where
  "s_left F SRun = 3"
| "s_left F (SFork j p) = 3 * bytes F p + 11"
| "s_left F SRm = 2"
| "s_left F (SExit st) = 0"

definition x_left :: "(string \<Rightarrow> string option) \<Rightarrow> session \<Rightarrow> int" where
  "x_left F x = k_left F (k_at x) + c_left F (c_path x) (c_at x) + (case c_queue x of None \<Rightarrow> 0 | Some q \<Rightarrow> int (length q))"

definition q_left :: "(string \<Rightarrow> string option) \<Rightarrow> (nat \<times> string) list option \<Rightarrow> int" where
  "q_left F q = (case q of None \<Rightarrow> 0 | Some rs \<Rightarrow> sumw (\<lambda>r. 3 * bytes F (snd r) + 10) rs)"

definition mf_left :: "(string \<Rightarrow> string option) \<Rightarrow> mf \<Rightarrow> int" where
  "mf_left F s = sumw (x_left F) (sess s) + q_left F (squeue s) + s_left F (server s)"

lemma bytes_nonneg: "0 \<le> bytes F p"
  by (simp add: bytes_def split: option.split)

lemma mf_left_nonneg: "0 \<le> k_left F k" "0 \<le> c_left F p c" "0 \<le> s_left F a" "0 \<le> x_left F x" "0 \<le> q_left F q"
proof -
  show k: "0 \<le> k_left F k" for k by (cases k) (auto intro!: add_nonneg_nonneg bytes_nonneg)
  show c: "0 \<le> c_left F p c" for p c by (cases c) (auto intro!: add_nonneg_nonneg bytes_nonneg)
  show "0 \<le> s_left F a" by (cases a) (auto intro!: add_nonneg_nonneg bytes_nonneg)
  show "0 \<le> x_left F x" using k [of "k_at x"] c [of "c_path x" "c_at x"] by (simp add: x_left_def split: option.split)
  show "0 \<le> q_left F q" by (auto simp: q_left_def split: option.split intro!: sumw_nonneg add_nonneg_nonneg bytes_nonneg)
qed

lemma kid_left:
  assumes "session_ok F x" "serveRequest F qb b n (k_at x) x = Some y"
  shows "x_left F y < x_left F x"
proof (cases "k_at x")
  case (KOpen p)
  then show ?thesis using assms(2) by (auto simp: x_left_def bytes_def split: option.splits)
next
  case (KSend d r)
  then obtain z sent where z: "respond qb b (Data d) x = Some (z, sent)" and y: "y = z\<lparr>k_at := if sent then KRead r else KEnd\<rparr>"
    using assms(2) by (auto split: option.splits)
  from z show ?thesis
  proof (cases rule: respond_cases)
    case 1
    then show ?thesis by (simp add: y KSend x_left_def)
  next
    case (2 q)
    then have "0 < length d" using assms(1) KSend by (simp add: session_ok_def)
    then have "1 \<le> int (length d)" by linarith
    then show ?thesis using 2 by (simp add: y KSend x_left_def)
  qed
qed (use assms(2) in \<open>auto simp: x_left_def split: option.splits if_splits elim!: respond_cases\<close>)

lemma recv_left:
  assumes "client_recv b (c_at x) x = Some y"
  shows "x_left F y < x_left F x"
  using assms
  by (cases "c_at x") (auto simp: x_left_def count_msg_def client_exit_def split: option.splits list.splits msg.splits if_splits)

lemma request_left:
  assumes i: "i < length (sess s)" and c: "c_at (sess s ! i) = CSend" and run: "client_request qb b i s = Some t"
  shows "mf_left F t < mf_left F s"
proof -
  have "x_left F (client_exit Failed (sess s ! i)) < x_left F (sess s ! i)"
    using c bytes_nonneg [of F "c_path (sess s ! i)"] by (auto simp: x_left_def split: option.split)
  moreover have "x_left F ((sess s ! i)\<lparr>c_at := CFirst\<rparr>) + 3 * bytes F (c_path (sess s ! i)) + 10 < x_left F (sess s ! i)"
    using c by (simp add: x_left_def)
  ultimately show ?thesis using run
    by (auto simp: client_request_def mf_left_def q_left_def sumw_update [OF i] split: option.splits if_splits)
qed

lemma serve_left:
  assumes inv: "mf_inv F s" and run: "server_main b (server s) s = Some t"
  shows "mf_left F t < mf_left F s"
proof (cases "server s")
  case (SFork j p)
  then have "asks s (j, p)" using inv by (simp add: mf_inv_def linked_def pending_def)
  then have j: "j < length (sess s)" "k_at (sess s ! j) = KNone" by (simp_all add: asks_def)
  then have "x_left F ((sess s ! j)\<lparr>k_at := KOpen p\<rparr>) = x_left F (sess s ! j) + 3 * bytes F p + 6" by (simp add: x_left_def)
  then show ?thesis using run SFork bytes_nonneg [of F p] by (auto simp: mf_left_def sumw_update [OF j(1)] split: if_splits)
next
  case SRm
  then show ?thesis using run mf_left_nonneg(5) [of F "squeue s"] by (auto simp: mf_left_def q_left_def split: if_splits)
qed (use run in \<open>auto simp: mf_left_def q_left_def split: option.splits list.splits if_splits\<close>)

lemma mf_step_left:
  assumes inv: "mf_inv F s" and step: "mf_step F qb b s t"
  shows "mf_left F t < mf_left F s"
  using step
proof (cases rule: mf_step.cases)
  case (kid i n x)
  then show ?thesis using kid_left [OF session_at [OF inv kid(2)] kid(3)] by (simp add: mf_left_def sumw_update)
next
  case (recv i x)
  then show ?thesis using recv_left [OF recv(3), of F] by (simp add: mf_left_def sumw_update)
next
  case (request i)
  then show ?thesis using request_left by blast
next
  case serve
  then show ?thesis using serve_left [OF inv] by blast
qed

section \<open>Progress\<close>

text \<open>A client has finished, or it will never get an answer: the server stopped, or the child could not send.\<close>

definition at_rest :: "mf \<Rightarrow> session \<Rightarrow> bool" where
  "at_rest s x \<longleftrightarrow> ended (c_at x) \<or> k_at x = KNone \<and> stopped (server s) \<or> is_exit (k_at x) \<and> k_err x \<and> c_queue x = Some []"

definition mf_finished :: "mf \<Rightarrow> bool" where
  "mf_finished s \<longleftrightarrow> list_all (at_rest s) (sess s)"

lemma recv_possible:
  assumes "c_queue x = Some (m # q)" "c_at x \<noteq> CSend" "\<not> ended (c_at x)"
  shows "\<exists>y. client_recv True (c_at x) x = Some y"
  using assms by (cases "c_at x") (auto split: msg.splits)

lemma respond_possible:
  assumes "c_queue x = Some []" "msg_size m \<le> RESP_MSG_SIZE" "RESP_MSG_SIZE \<le> qb"
  shows "respond qb True m x = Some (x\<lparr>c_queue := Some [m]\<rparr>, True)"
  using assms by (simp add: respond_def fits_def RESP_MSG_SIZE_def)

lemma Couldnt_open_size: "msg_size (Failure Couldnt_open) \<le> RESP_MSG_SIZE"
  by (simp add: Couldnt_open_def RESP_MSG_SIZE_def)

lemma kid_possible:
  assumes ok: "session_ok F x" and q: "c_queue x = Some []" and k: "k_at x \<noteq> KNone" "\<not> is_exit (k_at x)" and qb: "RESP_MSG_SIZE \<le> qb"
  shows "\<exists>n y. serveRequest F qb True n (k_at x) x = Some y"
proof (cases "k_at x")
  case KFail
  then show ?thesis using respond_possible [OF q Couldnt_open_size qb] by auto
next
  case (KRead r)
  then show ?thesis by (cases "r = []") (auto simp: RESP_MSG_SIZE_def intro: exI [of _ 1] simp: Suc_le_eq)
next
  case (KSend d r)
  then have "msg_size (Data d) \<le> RESP_MSG_SIZE" using ok q by (simp add: session_ok_def)
  from respond_possible [OF q this qb] KSend show ?thesis by auto
next
  case KEnd
  have "msg_size End \<le> RESP_MSG_SIZE" by simp
  from respond_possible [OF q this qb] KEnd show ?thesis by auto
qed (use k in auto)

lemma server_possible:
  assumes "server s = SRun \<Longrightarrow> pending s \<noteq> []" "\<not> stopped (server s)"
  shows "\<exists>t. mf_step F qb True s t"
proof -
  have "\<exists>t. server_main True (server s) s = Some t"
    using assms by (cases "server s") (auto simp: pending_def split: option.splits list.splits)
  then show ?thesis using mf_step.serve by blast
qed

lemma request_possible:
  assumes "squeue s = Some []" "i < length (sess s)" "c_at (sess s ! i) = CSend" "RESP_MSG_SIZE \<le> qb"
  shows "\<exists>t. mf_step F qb True s t"
proof -
  have "\<exists>t. client_request qb True i s = Some t"
    using assms by (simp add: client_request_def fits_def REQ_MSG_SIZE_def RESP_MSG_SIZE_def)
  then show ?thesis using mf_step.request assms by blast
qed

lemma mf_progress:
  assumes inv: "mf_inv F s" and nf: "\<not> mf_finished s" and qb: "RESP_MSG_SIZE \<le> qb"
  shows "\<exists>t. mf_step F qb True s t"
proof -
  obtain i where i: "i < length (sess s)" and nr: "\<not> at_rest s (sess s ! i)"
    using nf by (auto simp: mf_finished_def list_all_length)
  let ?x = "sess s ! i"
  have ok: "session_ok F ?x" by (rule session_at [OF inv i])
  have live: "\<not> ended (c_at ?x)" using nr by (simp add: at_rest_def)
  then obtain q where q: "c_queue ?x = Some q" using ok by (cases "c_at ?x") (auto simp: session_ok_def)
  show ?thesis
  proof (cases "k_at ?x = KNone")
    case True
    then have ns: "\<not> stopped (server s)" using nr by (simp add: at_rest_def)
    then obtain rs where rs: "squeue s = Some rs" using inv by (auto simp: mf_inv_def answered_def)
    show ?thesis
    proof (cases "server s = SRun \<and> pending s = []")
      case idle: True
      then have "rs = []" by (simp add: pending_def rs)
      moreover have "c_at ?x = CSend"
        using inv idle i live True by (auto simp: mf_inv_def answered_def waits_def)
      ultimately show ?thesis using request_possible i qb rs by blast
    qed (use server_possible ns in blast)
  next
    case k: False
    then have cs: "c_at ?x \<noteq> CSend" using ok by (auto simp: session_ok_def)
    show ?thesis
    proof (cases q)
      case (Cons m q')
      then show ?thesis using recv_possible [of ?x m q'] q cs live mf_step.recv [OF i] by blast
    next
      case Nil
      have "\<not> is_exit (k_at ?x)"
      proof
        assume e: "is_exit (k_at ?x)"
        then obtain st where "k_at ?x = KExit st" by (cases "k_at ?x") auto
        then have "k_err ?x" using ok q Nil by (simp add: session_ok_def)
        then show False using nr e q Nil by (simp add: at_rest_def)
      qed
      then show ?thesis using kid_possible [OF ok _ k _ qb] q Nil mf_step.kid [OF i] by blast
    qed
  qed
qed

interpretation mfs: bounded_system "mf_step F qb True" "mf_env F qb" "\<lambda>s. mf_inv F s \<and> RESP_MSG_SIZE \<le> qb" "mf_left F" 0 mf_finished
proof unfold_locales
  fix s t
  show "mf_inv F s \<and> RESP_MSG_SIZE \<le> qb \<Longrightarrow> 0 \<le> mf_left F s"
    unfolding mf_left_def by (intro add_nonneg_nonneg sumw_nonneg mf_left_nonneg)
  show "mf_inv F s \<and> RESP_MSG_SIZE \<le> qb \<Longrightarrow> mf_env F qb s t \<Longrightarrow> mf_left F t \<le> mf_left F s + 0"
    by (auto elim!: mf_env.cases dest: mf_step_left)
qed (auto intro: mf_step_inv mf_env_inv mf_step_left mf_progress)

section \<open>Runs without failures\<close>

definition healthy :: "mf \<Rightarrow> bool" where
  "healthy s \<longleftrightarrow> alive (server s) \<and> squeue s \<noteq> None \<and> (\<forall>x\<in>set (sess s). \<not> k_err x \<and> c_at x \<noteq> CDone Failed)"

lemma healthy_update:
  "healthy s \<Longrightarrow> \<not> k_err x \<Longrightarrow> c_at x \<noteq> CDone Failed \<Longrightarrow> healthy (s\<lparr>sess := (sess s)[i := x]\<rparr>)"
  by (auto simp: healthy_def dest!: set_update_subset_insert [THEN subsetD])

lemma kid_healthy:
  assumes ok: "session_ok F x" and h: "\<not> k_err x" "c_at x \<noteq> CDone Failed" and run: "serveRequest F qb True n (k_at x) x = Some y"
  shows "\<not> k_err y \<and> c_at y = c_at x"
proof -
  have "is_exit (k_at x)" if "c_queue x = None"
    using ok h that by (cases "(F, x, c_at x)" rule: client_ok.cases) (auto simp: session_ok_def)
  moreover have "\<not> is_exit (k_at x)" using run by (cases "k_at x") auto
  ultimately obtain q where "c_queue x = Some q" by blast
  with run h show ?thesis by (cases "k_at x") (auto simp: respond_def split: option.splits if_splits)
qed

lemma recv_healthy: "client_recv True (c_at x) x = Some y \<Longrightarrow> k_err y = k_err x \<and> c_at y \<noteq> CDone Failed"
  by (cases "c_at x") (auto simp: count_msg_def split: option.splits list.splits msg.splits)

lemma mf_step_healthy:
  assumes inv: "mf_inv F s" and h: "healthy s" and step: "mf_step F qb True s t"
  shows "healthy t"
proof -
  have at: "\<not> k_err (sess s ! i)" "c_at (sess s ! i) \<noteq> CDone Failed" if "i < length (sess s)" for i
    using h that by (auto simp: healthy_def)
  from step show ?thesis
  proof (cases rule: mf_step.cases)
    case (kid i n x)
    then show ?thesis using kid_healthy [OF session_at [OF inv kid(2)] at [OF kid(2)] kid(3)] at [OF kid(2)] healthy_update [OF h] by simp
  next
    case (recv i x)
    then show ?thesis using recv_healthy [OF recv(3)] at [OF recv(2)] healthy_update [OF h] by simp
  next
    case (request i)
    then show ?thesis using h at [OF request(1)] healthy_update [OF h, of "(sess s ! i)\<lparr>c_at := CFirst\<rparr>" i]
      by (auto simp: client_request_def healthy_def split: option.splits if_splits)
  next
    case serve
    show ?thesis
    proof (cases "server s")
      case (SFork j p)
      have "healthy (s\<lparr>sess := (sess s)[j := (sess s ! j)\<lparr>k_at := KOpen p\<rparr>]\<rparr>)" if "j < length (sess s)"
        by (rule healthy_update [OF h]) (use at [OF that] in auto)
      moreover have "j < length (sess s)" using inv SFork by (simp add: mf_inv_def linked_def pending_def asks_def)
      ultimately show ?thesis using serve SFork by (auto simp: healthy_def)
    qed (use serve h in \<open>auto simp: healthy_def split: option.splits list.splits\<close>)
  qed
qed

lemma mf_start_healthy: "healthy (mf_start ps)"
  by (auto simp: healthy_def mf_start_def mf_client_def)

interpretation mfh: transition_system "mf_step F qb True" "\<lambda>_ _. False" "\<lambda>s. mf_inv F s \<and> healthy s"
  by unfold_locales (auto intro: mf_step_inv mf_step_healthy)

lemma map_update_same: "(i < length xs \<Longrightarrow> f y = f (xs ! i)) \<Longrightarrow> map f (xs[i := y]) = map f xs"
  by (cases "i < length xs") (simp_all add: map_update list_update_same_conv list_update_beyond)

lemma same_paths:
  assumes "run_of (mf_step F qb True) (mf_env F qb) n k s t"
  shows "map c_path (sess t) = map c_path (sess s)"
proof -
  have kid: "c_path y = c_path x" if "serveRequest F qb b m a x = Some y" for m a x y b
    using that by (cases a) (auto simp: respond_def split: option.splits if_splits)
  have recv: "c_path y = c_path x" if "client_recv b a x = Some y" for b a x y
    using that by (cases a) (auto simp: count_msg_def split: option.splits list.splits msg.splits if_splits)
  have step: "map c_path (sess u) = map c_path (sess t)" if "mf_step F qb b t u" for b t u
    using that
  proof (cases rule: mf_step.cases)
    case serve
    then show ?thesis by (cases "server t") (auto simp: map_update_same split: option.splits list.splits if_splits)
  qed (auto simp: client_request_def map_update_same dest: kid recv split: option.splits if_splits)
  from assms show ?thesis by (induction rule: run_of.induct) (auto simp: step elim!: mf_env.cases)
qed

section \<open>Properties\<close>

lemma client_setup_path:
  "client_setup tb argv srv priv bad s = Done x t \<Longrightarrow> x = mf_client (argv ! 1)"
  by (auto simp: client_setup_def usageErr_def cmdLineErr_def errExit_def outputError_def terminate_def do_exit_def Let_def
      split: if_splits option.splits)

lemma run_client_ok:
  assumes run: "run_of (mf_step F qb True) (mf_env F qb) n k (mf_start ps) t" and qb: "RESP_MSG_SIZE \<le> qb" and i: "i < length ps"
  shows "i < length (sess t)" "c_path (sess t ! i) = ps ! i" "session_ok F (sess t ! i)" "mf_inv F t"
proof -
  show inv: "mf_inv F t" using mfs.run_inv [OF run] mf_start_inv qb by blast
  have p: "map c_path (sess t) = ps" using same_paths [OF run] by (simp add: mf_start_def mf_client_def comp_def)
  then have "length (sess t) = length ps" by (metis length_map)
  then show l: "i < length (sess t)" using i by simp
  have "map c_path (sess t) ! i = ps ! i" by (simp only: p)
  then show "c_path (sess t ! i) = ps ! i" using l by simp
  show "session_ok F (sess t ! i)" by (rule session_at [OF inv l])
qed

text \<open>
  C36: In every interleaving of the server, its children and the clients, and with any failures of their calls, a client that
  reports \<^verbatim>\<open>Received tot bytes (num messages)\<close> has received a beginning of the file it named, \<open>tot\<close> bytes long, in
  \<open>num - 1\<close> messages of 1 to 8192 bytes; it is the whole file unless the child could not read it or
  could not send.  A client prints the server's refusal only if the file cannot be opened.
\<close>

theorem svmsg_file_transfer:
  assumes "run_of (mf_step F qb True) (mf_env F qb) n k (mf_start ps) t" "RESP_MSG_SIZE \<le> qb" "i < length ps"
  shows "case c_at (sess t ! i) of
      CDone (Received tot num) \<Rightarrow>
        (\<exists>c. F (ps ! i) = Some c \<and> c_got (sess t ! i) = take tot c \<and> tot \<le> length c \<and> (k_err (sess t ! i) \<or> tot = length c) \<and>
             0 < num \<and> num - 1 \<le> tot \<and> tot \<le> RESP_MSG_SIZE * (num - 1))
    | CDone (Refused d) \<Rightarrow> F (ps ! i) = None \<and> d = Couldnt_open
    | _ \<Rightarrow> True"
proof -
  note r = run_client_ok [OF assms]
  have "client_ok F (sess t ! i) (c_at (sess t ! i))" using r(3) by (simp add: session_ok_def)
  then show ?thesis
    using r(2) by (cases "(F, sess t ! i, c_at (sess t ! i))" rule: client_ok.cases) (auto simp: sends_def)
qed


section \<open>A run\<close>

datatype act = AKid nat | ARecv | AReq | ASrv

text \<open>A step of the only session, or of the server.\<close>

fun act_step :: "(string \<Rightarrow> string option) \<Rightarrow> act \<Rightarrow> mf \<Rightarrow> mf option" where
  "act_step F (AKid n) s = map_option (\<lambda>x. s\<lparr>sess := (sess s)[0 := x]\<rparr>) (serveRequest F 8192 True n (k_at (sess s ! 0)) (sess s ! 0))"
| "act_step F ARecv s = map_option (\<lambda>x. s\<lparr>sess := (sess s)[0 := x]\<rparr>) (client_recv True (c_at (sess s ! 0)) (sess s ! 0))"
| "act_step F AReq s = (if c_at (sess s ! 0) = CSend then client_request 8192 True 0 s else None)"
| "act_step F ASrv s = server_main True (server s) s"

fun act_run :: "(string \<Rightarrow> string option) \<Rightarrow> act list \<Rightarrow> mf \<Rightarrow> mf option" where
  "act_run F [] s = Some s"
| "act_run F (a # as) s = (case act_run F as s of None \<Rightarrow> None | Some t \<Rightarrow> act_step F a t)"

lemma act_step_length: "act_step F a s = Some t \<Longrightarrow> length (sess t) = length (sess s)"
  by (cases a; cases "server s") (auto simp: client_request_def split: option.splits list.splits if_splits)

lemma act_run_run:
  "act_run F as s = Some t \<Longrightarrow> length (sess s) = 1 \<Longrightarrow>
     run_of (mf_step F 8192 True) (mf_env F 8192) (length as) 0 s t \<and> length (sess t) = 1"
proof (induction as arbitrary: t)
  case (Cons a as)
  then obtain u where u: "act_run F as s = Some u" "act_step F a u = Some t" by (auto split: option.splits)
  then have r: "run_of (mf_step F 8192 True) (mf_env F 8192) (length as) 0 s u" "length (sess u) = 1" using Cons by auto
  have "mf_step F 8192 True u t" using u(2) r(2) by (cases a) (auto intro: mf_step.intros split: if_splits)
  then show ?case using r run_own act_step_length [OF u(2)] by fastforce
qed (simp add: run_nil)

definition two_bytes :: "string \<Rightarrow> string option" where
  "two_bytes p = (if p = ''f'' then Some ''ab'' else None)"

definition transferred :: mf where
  "transferred = \<lparr>sess = [\<lparr>c_path = ''f'', c_at = CDone (Received 2 2), c_queue = None, c_got = ''ab'', k_at = KExit 0, k_err = False\<rparr>],
                  squeue = Some [], server = SRun\<rparr>"

definition transferring :: "act list" where
  "transferring = [ARecv, AKid 0, AKid 0, ARecv, AKid 0, AKid 2, AKid 0, ASrv, ASrv, AReq]"

lemma transferred_run:
  "run_of (mf_step two_bytes 8192 True) (mf_env two_bytes 8192) 10 0 (mf_start [''f'']) transferred"
proof -
  have "act_run two_bytes transferring (mf_start [''f'']) = Some transferred"
    by (simp add: mf_start_def mf_client_def client_request_def fits_def REQ_MSG_SIZE_def RESP_MSG_SIZE_def two_bytes_def respond_def
        count_msg_def client_exit_def transferred_def transferring_def)
  moreover have "length transferring = 10" "length (sess (mf_start [''f''])) = 1" by (simp_all add: transferring_def mf_start_def)
  ultimately show ?thesis using act_run_run by metis
qed

theorem svmsg_file_transfer_witness:
  "c_at (sess transferred ! 0) = CDone (Received 2 2) \<and> two_bytes ''f'' = Some ''ab'' \<and> c_got (sess transferred ! 0) = take 2 ''ab''"
  using svmsg_file_transfer [OF transferred_run, of 0] by (simp add: transferred_def RESP_MSG_SIZE_def two_bytes_def)

lemma transferred_stuck: "\<not> mf_step F qb True transferred u"
  by (auto simp: transferred_def elim!: mf_step.cases)


end
