(* ===== verification/Pipe_Case.thy ===== *)
theory Pipe_Case
  imports Bounded_System Get_Num "HOL-Library.Sublist"
begin

text \<open>
  Two processes that talk through two pipes: \<^verbatim>\<open>pipes/change_case.c\<close>.  The parent sends what it reads to the child, which sends it
  back in upper case.  Parent and child run interleaved, a system call at a time; a pipe
  holds a bounded number of bytes, a \<^verbatim>\<open>write()\<close> of at most \<^verbatim>\<open>PIPE_BUF\<close> bytes is atomic, and a \<^verbatim>\<open>read()\<close> returns all that
  fits into the buffer.
  The lemmas show that the output is the input in upper case, that nobody blocks for ever, and what happens when a call fails.
\<close>

section \<open>The program\<close>

definition CC_BUF_SIZE :: nat where "CC_BUF_SIZE = 100"

definition toupper :: "char \<Rightarrow> char" where
  "toupper c = (if 97 \<le> (of_char c :: nat) \<and> of_char c \<le> (122 :: nat) then char_of (of_char c - 32 :: nat) else c)"

text \<open>How a process ends: with a status, or by \<^verbatim>\<open>SIGPIPE\<close>.\<close>

datatype ending = Ended int | Killed

datatype cparent_at = PRead | PWrite string | PReply | PEcho string | PExit ending
datatype cchild_at = CRead | CWrite string | CExit ending

record cc =
  stdin :: string
  stdout :: string
  outbound :: string
  inbound :: string
  parent :: cparent_at
  child :: cchild_at

fun parent_ended :: "cparent_at \<Rightarrow> bool" where
  "parent_ended (PExit e) = True" | "parent_ended _ = False"

fun child_ended :: "cchild_at \<Rightarrow> bool" where
  "child_ended (CExit e) = True" | "child_ended _ = False"

text \<open>Setting up, given the errors of the calls: two \<^verbatim>\<open>pipe()\<close>, \<^verbatim>\<open>fork()\<close>, and in each process two \<^verbatim>\<open>close()\<close>.\<close>

fun first_error :: "(string \<times> int option) list \<Rightarrow> (string \<times> int) option" where
  "first_error [] = None"
| "first_error ((what, Some e) # cs) = Some (what, e)"
| "first_error ((what, None) # cs) = first_error cs"

definition cc_setup :: "env_tables \<Rightarrow> int option \<Rightarrow> int option \<Rightarrow> int option \<Rightarrow> proc \<Rightarrow> (proc, unit) run" where
  "cc_setup tb pipe1 pipe2 fork s =
     (case first_error [(''pipe'', pipe1), (''pipe'', pipe2), (''fork'', fork)] of
        Some (what, e) \<Rightarrow> errExit tb what (s\<lparr>errno := e\<rparr>)
      | None \<Rightarrow> Done () s)"

definition cc_close :: "env_tables \<Rightarrow> int option \<Rightarrow> int option \<Rightarrow> proc \<Rightarrow> (proc, unit) run" where
  "cc_close tb close1 close2 s =
     (case first_error [(''close'', close1), (''close'', close2)] of
        Some (what, e) \<Rightarrow> errExit tb what (s\<lparr>errno := e\<rparr>)
      | None \<Rightarrow> Done () s)"

text \<open>
  The loops.  \<open>ok\<close> is whether the call works, \<open>n\<close> the number of bytes it transfers from standard input or, if it
  fails, to standard output, and \<open>cap\<close> the capacity of a pipe.
\<close>

fun cc_child :: "nat \<Rightarrow> bool \<Rightarrow> cchild_at \<Rightarrow> cc \<Rightarrow> cc option" where
  "cc_child cap ok CRead s =
     (if \<not> ok then Some (s\<lparr>child := CExit (Ended EXIT_FAILURE)\<rparr>)
      else if outbound s \<noteq> [] then
        Some (s\<lparr>outbound := drop CC_BUF_SIZE (outbound s), child := CWrite (map toupper (take CC_BUF_SIZE (outbound s)))\<rparr>)
      else if parent_ended (parent s) then Some (s\<lparr>child := CExit (Ended EXIT_SUCCESS)\<rparr>)
      else None)"
| "cc_child cap ok (CWrite buf) s =
     (if parent_ended (parent s) then Some (s\<lparr>child := CExit Killed\<rparr>)
      else if \<not> ok then Some (s\<lparr>child := CExit (Ended EXIT_FAILURE)\<rparr>)
      else if length (inbound s) + length buf \<le> cap then Some (s\<lparr>inbound := inbound s @ buf, child := CRead\<rparr>)
      else None)"
| "cc_child cap ok (CExit e) s = None"

fun cc_parent :: "nat \<Rightarrow> bool \<Rightarrow> nat \<Rightarrow> cparent_at \<Rightarrow> cc \<Rightarrow> cc option" where
  "cc_parent cap ok n PRead s =
     (if \<not> ok then Some (s\<lparr>parent := PExit (Ended EXIT_FAILURE)\<rparr>)
      else if stdin s = [] then Some (s\<lparr>parent := PExit (Ended EXIT_SUCCESS)\<rparr>)
      else if 0 < n \<and> n \<le> CC_BUF_SIZE \<and> n \<le> length (stdin s)
      then Some (s\<lparr>stdin := drop n (stdin s), parent := PWrite (take n (stdin s))\<rparr>)
      else None)"
| "cc_parent cap ok n (PWrite buf) s =
     (if child_ended (child s) then Some (s\<lparr>parent := PExit Killed\<rparr>)
      else if \<not> ok then Some (s\<lparr>parent := PExit (Ended EXIT_FAILURE)\<rparr>)
      else if length (outbound s) + length buf \<le> cap then Some (s\<lparr>outbound := outbound s @ buf, parent := PReply\<rparr>)
      else None)"
| "cc_parent cap ok n PReply s =
     (if \<not> ok then Some (s\<lparr>parent := PExit (Ended EXIT_FAILURE)\<rparr>)
      else if inbound s \<noteq> [] then
        Some (s\<lparr>inbound := drop CC_BUF_SIZE (inbound s), parent := PEcho (take CC_BUF_SIZE (inbound s))\<rparr>)
      else if child_ended (child s) then Some (s\<lparr>parent := PRead\<rparr>)
      else None)"
| "cc_parent cap ok n (PEcho buf) s =
     (if \<not> ok then Some (s\<lparr>stdout := stdout s @ take n buf, parent := PExit (Ended EXIT_FAILURE)\<rparr>)
      else Some (s\<lparr>stdout := stdout s @ buf, parent := PRead\<rparr>))"
| "cc_parent cap ok n (PExit e) s = None"

inductive cc_step :: "nat \<Rightarrow> bool \<Rightarrow> cc \<Rightarrow> cc \<Rightarrow> bool" for cap ok where
  parent: "cc_parent cap ok n (parent s) s = Some t \<Longrightarrow> cc_step cap ok s t"
| child: "cc_child cap ok (child s) s = Some t \<Longrightarrow> cc_step cap ok s t"

definition cc_start :: "string \<Rightarrow> cc" where
  "cc_start inp = \<lparr>stdin = inp, stdout = [], outbound = [], inbound = [], parent = PRead, child = CRead\<rparr>"

section \<open>Invariant\<close>

abbreviation up :: "string \<Rightarrow> string" where "up \<equiv> map toupper"

definition chunk :: "string \<Rightarrow> bool" where
  "chunk b \<longleftrightarrow> 0 < length b \<and> length b \<le> CC_BUF_SIZE"

text \<open>At any time one chunk is under way.  The last component is what is still to be printed of it.\<close>

fun under_way :: "cc \<Rightarrow> cparent_at \<Rightarrow> cchild_at \<Rightarrow> string \<Rightarrow> bool" where
  "under_way s (PWrite b) CRead r = (chunk b \<and> outbound s = [] \<and> inbound s = [] \<and> r = up b)"
| "under_way s PReply CRead r =
     (chunk (outbound s) \<and> inbound s = [] \<and> r = up (outbound s) \<or> outbound s = [] \<and> chunk (inbound s) \<and> r = inbound s)"
| "under_way s PReply (CWrite b) r = (outbound s = [] \<and> inbound s = [] \<and> chunk b \<and> r = b)"
| "under_way s (PEcho b) CRead r = (outbound s = [] \<and> inbound s = [] \<and> chunk b \<and> r = b)"
| "under_way s PRead CRead r = (outbound s = [] \<and> inbound s = [] \<and> r = [])"
| "under_way s _ _ r = False"

text \<open>What the parent has received of the output.\<close>

fun received :: "cc \<Rightarrow> cparent_at \<Rightarrow> string" where
  "received s (PEcho b) = stdout s @ b" | "received s PReply = stdout s @ inbound s" | "received s _ = stdout s"

definition cc_inv :: "string \<Rightarrow> cc \<Rightarrow> bool" where
  "cc_inv inp s \<longleftrightarrow>
     prefix (received s (parent s)) (up inp) \<and> length (outbound s) \<le> CC_BUF_SIZE \<and>
     (child_ended (child s) \<or> parent_ended (parent s) \<or> (\<exists>r. under_way s (parent s) (child s) r \<and> up inp = stdout s @ r @ up (stdin s))) \<and>
     (\<not> parent_ended (parent s) \<and> child_ended (child s) \<longrightarrow> child s = CExit (Ended EXIT_FAILURE) \<and> length (inbound s) \<le> CC_BUF_SIZE \<and> (parent s = PReply \<or> inbound s = [])) \<and>
     (parent s = PExit (Ended EXIT_SUCCESS) \<longrightarrow> stdout s = up inp \<and> outbound s = [] \<and> (child s = CRead \<or> child s = CExit (Ended EXIT_SUCCESS)) \<or> child s = CExit (Ended EXIT_FAILURE))"

lemma cc_start_inv: "cc_inv inp (cc_start inp)"
  by (simp add: cc_inv_def cc_start_def)

lemma chunk_take: "chunk b \<Longrightarrow> take CC_BUF_SIZE b = b" "chunk b \<Longrightarrow> drop CC_BUF_SIZE b = []" "chunk b \<Longrightarrow> b \<noteq> []" "chunk b \<Longrightarrow> chunk (up b)"
  by (auto simp: chunk_def)

lemma chunk_length: "chunk b \<Longrightarrow> length b \<le> CC_BUF_SIZE"
  by (simp add: chunk_def)

lemma cc_child_inv:
  assumes inv: "cc_inv inp s" and run: "cc_child cap b (child s) s = Some t"
  shows "cc_inv inp t"
proof (cases "parent_ended (parent s)")
  case True
  with inv run show ?thesis
    by (cases "child s"; cases "parent s") (auto simp: cc_inv_def split: if_splits)
next
  case False
  have ne: "\<not> child_ended (child s)" using run by (cases "child s") auto
  then obtain r where r: "under_way s (parent s) (child s) r" "up inp = stdout s @ r @ up (stdin s)" using inv False by (auto simp: cc_inv_def)
  show ?thesis
    using inv run r False ne
    by (cases "(s, parent s, child s, r)" rule: under_way.cases)
       (auto simp: cc_inv_def chunk_take chunk_length split: if_splits)
qed

lemma cc_parent_inv:
  assumes inv: "cc_inv inp s" and run: "cc_parent cap b n (parent s) s = Some t"
  shows "cc_inv inp t"
proof (cases "child_ended (child s)")
  case True
  have np: "\<not> parent_ended (parent s)" using run by (cases "parent s") auto
  have pre: "prefix (stdout s @ take n x) (up inp)" if "prefix (stdout s @ x) (up inp)" for x
    using that by (metis append_assoc append_take_drop_id prefix_def)
  show ?thesis using inv run True np
    by (cases "parent s") (auto simp: cc_inv_def intro: pre append_prefixD split: if_splits)
next
  case False
  have np: "\<not> parent_ended (parent s)" using run by (cases "parent s") auto
  then obtain r where r: "under_way s (parent s) (child s) r" "up inp = stdout s @ r @ up (stdin s)" using inv False by (auto simp: cc_inv_def)
  have pre: "prefix (stdout s @ take n x) (stdout s @ x @ y)" for x y
    by (simp add: prefix_def) (metis append_assoc append_take_drop_id)
  have dis: "up (take n (stdin s)) @ up (drop n (stdin s)) = up (stdin s)" by (simp flip: map_append)
  show ?thesis
  proof (cases "parent s")
    case PRead
    then have c: "child s = CRead" "outbound s = []" "inbound s = []" "r = []" using r(1) by (cases "child s"; simp)+
    then show ?thesis using run PRead r(2) dis by (auto simp: cc_inv_def chunk_def split: if_splits)
  next
    case (PWrite d)
    then have c: "child s = CRead" "outbound s = []" "inbound s = []" "r = up d" "chunk d" using r(1) by (cases "child s"; simp)+
    then show ?thesis using run PWrite r(2) chunk_length [of d] by (auto simp: cc_inv_def split: if_splits)
  next
    case PReply
    show ?thesis
    proof (cases "inbound s = []")
      case True
      moreover have "length (outbound s) \<le> CC_BUF_SIZE" using inv by (simp add: cc_inv_def)
      ultimately show ?thesis using run PReply False r(2) by (auto simp: cc_inv_def split: if_splits)
    next
      case ne: False
      then have c: "child s = CRead" "outbound s = []" "r = inbound s" "chunk (inbound s)" using r(1) PReply by (cases "child s"; auto)+
      then show ?thesis using run PReply r(2) ne by (auto simp: cc_inv_def chunk_take split: if_splits)
    qed
  next
    case (PEcho d)
    then have c: "child s = CRead" "outbound s = []" "inbound s = []" "r = d" using r(1) by (cases "child s"; simp)+
    then show ?thesis using run PEcho r(2) pre by (auto simp: cc_inv_def split: if_splits)
  qed (use np in simp)
qed

lemma cc_step_inv: "cc_inv inp s \<Longrightarrow> cc_step cap b s t \<Longrightarrow> cc_inv inp t"
  by (auto elim!: cc_step.cases intro: cc_parent_inv cc_child_inv)

section \<open>Termination\<close>

fun p_left :: "cparent_at \<Rightarrow> int" where
  "p_left PRead = 1" | "p_left (PWrite b) = 6" | "p_left PReply = 3" | "p_left (PEcho b) = 2" | "p_left (PExit e) = 0"

fun h_left :: "cchild_at \<Rightarrow> int" where
  "h_left CRead = 1" | "h_left (CWrite b) = 2" | "h_left (CExit e) = 0"

definition cc_left :: "cc \<Rightarrow> int" where
  "cc_left s = 6 * int (length (stdin s)) + p_left (parent s) + h_left (child s) + (if outbound s = [] then 0 else 2)"

lemma cc_left_nonneg: "0 \<le> cc_left s"
proof -
  have "0 \<le> p_left (parent s)" by (cases "parent s") auto
  moreover have "0 \<le> h_left (child s)" by (cases "child s") auto
  ultimately show ?thesis by (simp add: cc_left_def)
qed

lemma cc_step_left:
  assumes inv: "cc_inv inp s" and step: "cc_step cap b s t"
  shows "cc_left t < cc_left s"
  using step
proof (cases rule: cc_step.cases)
  case (parent n)
  then show ?thesis by (cases "parent s") (auto simp: cc_left_def of_nat_diff split: if_splits)
next
  case child
  have "length (outbound s) \<le> CC_BUF_SIZE" using inv by (simp add: cc_inv_def)
  with child show ?thesis by (cases "child s") (auto simp: cc_left_def split: if_splits)
qed

definition cc_finished :: "cc \<Rightarrow> bool" where
  "cc_finished s \<longleftrightarrow> parent_ended (parent s) \<and> child_ended (child s)"

lemma parent_possible:
  assumes "\<not> parent_ended (parent s)" "parent s = PReply \<Longrightarrow> inbound s \<noteq> [] \<or> child_ended (child s)"
    "\<And>b. parent s = PWrite b \<Longrightarrow> child_ended (child s) \<or> length (outbound s) + length b \<le> cap"
  shows "\<exists>t. cc_step cap True s t"
proof -
  have "1 \<le> CC_BUF_SIZE" by (simp add: CC_BUF_SIZE_def)
  then have "\<exists>n t. cc_parent cap True n (parent s) s = Some t"
    using assms by (cases "parent s"; cases "stdin s") (auto intro: exI [of _ 1])
  then show ?thesis using cc_step.parent by blast
qed

lemma child_possible:
  assumes "\<not> child_ended (child s)" "child s = CRead \<Longrightarrow> outbound s \<noteq> [] \<or> parent_ended (parent s)"
    "\<And>b. child s = CWrite b \<Longrightarrow> parent_ended (parent s) \<or> length (inbound s) + length b \<le> cap"
  shows "\<exists>t. cc_step cap True s t"
proof -
  have "\<exists>t. cc_child cap True (child s) s = Some t" using assms by (cases "child s") auto
  then show ?thesis using cc_step.child by blast
qed

lemma cc_progress:
  assumes inv: "cc_inv inp s" and nf: "\<not> cc_finished s" and cap: "CC_BUF_SIZE \<le> cap"
  shows "\<exists>t. cc_step cap True s t"
proof (cases "parent_ended (parent s)")
  case True
  then show ?thesis using nf by (intro child_possible) (auto simp: cc_finished_def)
next
  case np: False
  show ?thesis
  proof (cases "child_ended (child s)")
    case True
    then show ?thesis using np by (intro parent_possible) auto
  next
    case False
    then obtain r where r: "under_way s (parent s) (child s) r" using inv np by (auto simp: cc_inv_def)
    consider "parent s = PReply" "inbound s = []" | "parent s = PReply \<Longrightarrow> inbound s \<noteq> []" by blast
    then show ?thesis
    proof cases
      case 1
      have "outbound s \<noteq> []" if "child s = CRead" using r 1 that by (auto simp: chunk_def)
      moreover have "length (inbound s) + length b \<le> cap" if "child s = CWrite b" for b
        using r 1 that cap chunk_length [of b] by auto
      ultimately show ?thesis using False by (intro child_possible) auto
    next
      case 2
      have "length (outbound s) + length b \<le> cap" if "parent s = PWrite b" for b
        using r that cap chunk_length [of b] by (cases "child s") auto
      then show ?thesis using np 2 by (intro parent_possible) auto
    qed
  qed
qed

interpretation ccs: bounded_system "cc_step cap True" "cc_step cap False" "\<lambda>s. cc_inv inp s \<and> CC_BUF_SIZE \<le> cap" cc_left 0 cc_finished
  by unfold_locales (auto intro: cc_step_inv cc_step_left less_imp_le cc_progress cc_left_nonneg)

section \<open>Runs without failures\<close>

definition cc_fine :: "cc \<Rightarrow> bool" where
  "cc_fine s \<longleftrightarrow> (parent_ended (parent s) \<longrightarrow> parent s = PExit (Ended EXIT_SUCCESS)) \<and>
     (child_ended (child s) \<longrightarrow> child s = CExit (Ended EXIT_SUCCESS))"

lemma cc_step_fine:
  assumes inv: "cc_inv inp s" and fine: "cc_fine s" and step: "cc_step cap True s t"
  shows "cc_fine t"
  using step
proof (cases rule: cc_step.cases)
  case (parent n)
  then show ?thesis using inv fine by (cases "parent s") (auto simp: cc_fine_def cc_inv_def split: if_splits)
next
  case child
  then show ?thesis using inv fine by (cases "child s") (auto simp: cc_fine_def cc_inv_def split: if_splits)
qed

interpretation ccf: transition_system "cc_step cap True" "\<lambda>_ _. False" "\<lambda>s. cc_inv inp s \<and> cc_fine s"
  by unfold_locales (auto intro: cc_step_inv cc_step_fine)

text \<open>
  C38: However parent and child are interleaved and whichever calls fail, what \<^verbatim>\<open>change_case.c\<close> has printed is a beginning of the input in
  upper case; a parent that exits successfully has printed all of it, unless the child failed.  If a pipe holds one buffer, the two
  processes stop after a bounded number of steps, and neither waits for ever; without a failure both exit successfully
  and the output is the whole input in upper case.
\<close>

theorem change_case_correct:
  assumes "run_of (cc_step cap True) (cc_step cap False) n k (cc_start inp) t" "CC_BUF_SIZE \<le> cap"
  shows "prefix (stdout t) (map toupper inp) \<and>
    (parent t = PExit (Ended EXIT_SUCCESS) \<longrightarrow> stdout t = map toupper inp \<or> child t = CExit (Ended EXIT_FAILURE)) \<and>
    int n \<le> 6 * int (length inp) + 2 \<and>
    ((\<exists>u. cc_step cap True t u) \<or> cc_finished t \<and>
      (k \<noteq> 0 \<or> stdout t = map toupper inp \<and> parent t = PExit (Ended EXIT_SUCCESS) \<and> child t = CExit (Ended EXIT_SUCCESS)))"
proof -
  have st: "cc_inv inp (cc_start inp) \<and> CC_BUF_SIZE \<le> cap" using cc_start_inv assms(2) by blast
  have inv: "cc_inv inp t" using ccs.run_inv [OF assms(1) st] by blast
  have "prefix (stdout t) (received t (parent t))" by (cases "parent t") auto
  then have pre: "prefix (stdout t) (map toupper inp)" using inv prefix_order.trans by (auto simp: cc_inv_def)
  have succ: "stdout t = map toupper inp \<or> child t = CExit (Ended EXIT_FAILURE)" if "parent t = PExit (Ended EXIT_SUCCESS)"
    using inv that by (auto simp: cc_inv_def)
  have bound: "int n \<le> 6 * int (length inp) + 2" using ccs.run_bounded [OF st assms(1)] by (simp add: cc_left_def cc_start_def)
  have fin: "cc_finished t" if "\<not> (\<exists>u. cc_step cap True t u)" using ccs.stuck_finished [OF st assms(1) that] .
  have "cc_fine (cc_start inp)" by (simp add: cc_fine_def cc_start_def)
  then have "cc_fine t" if "k = 0" using ccf.run_inv [OF run_no_env [OF assms(1) that]] cc_start_inv by blast
  then have "stdout t = map toupper inp \<and> parent t = PExit (Ended EXIT_SUCCESS) \<and> child t = CExit (Ended EXIT_SUCCESS)"
    if "k = 0" "cc_finished t" using that succ by (auto simp: cc_fine_def cc_finished_def)
  with pre succ bound fin show ?thesis by blast
qed

section \<open>Runs\<close>

datatype cc_act = P nat | C | Fails

text \<open>A step of the parent, of the child, or a step of the child that fails.\<close>

fun cc_act_step :: "cc_act \<Rightarrow> cc \<Rightarrow> cc option" where
  "cc_act_step (P n) s = cc_parent 100 True n (parent s) s"
| "cc_act_step C s = cc_child 100 True (child s) s"
| "cc_act_step Fails s = cc_child 100 False (child s) s"

fun cc_act_run :: "cc_act list \<Rightarrow> cc \<Rightarrow> cc option" where
  "cc_act_run [] s = Some s"
| "cc_act_run (a # as) s = (case cc_act_run as s of None \<Rightarrow> None | Some t \<Rightarrow> cc_act_step a t)"

lemma cc_act_run_run:
  "cc_act_run as s = Some t \<Longrightarrow>
     run_of (cc_step 100 True) (cc_step 100 False) (length (filter (\<lambda>a. a \<noteq> Fails) as)) (length (filter (\<lambda>a. a = Fails) as)) s t"
proof (induction as arbitrary: t)
  case (Cons a as)
  then obtain u where u: "cc_act_run as s = Some u" "cc_act_step a u = Some t" by (auto split: option.splits)
  note r = Cons.IH [OF u(1)]
  show ?case
  proof (cases a)
    case (P n)
    then show ?thesis using run_own [OF r cc_step.parent [of 100 True n u t]] u(2) by simp
  next
    case C
    then show ?thesis using run_own [OF r cc_step.child [of 100 True u t]] u(2) by simp
  next
    case Fails
    then show ?thesis using run_env [OF r cc_step.child [of 100 False u t]] u(2) by simp
  qed
qed (simp add: run_nil)

definition cc_demo :: cc where
  "cc_demo = \<lparr>stdin = [], stdout = ''A1'', outbound = [], inbound = [], parent = PExit (Ended 0), child = CExit (Ended 0)\<rparr>"

definition cc_demo_acts :: "cc_act list" where
  "cc_demo_acts = [C, P 0, P 0, P 0, C, C, P 0, P 2]"

lemma toupper_demo: "map toupper ''a1'' = ''A1''"
  by code_simp

lemma cc_demo_run: "run_of (cc_step 100 True) (cc_step 100 False) 8 0 (cc_start ''a1'') cc_demo"
proof -
  have t: "toupper (CHR ''a'') = CHR ''A''" "toupper (CHR ''1'') = CHR ''1''" using toupper_demo by simp_all
  have "cc_act_run cc_demo_acts (cc_start ''a1'') = Some cc_demo"
    by (simp add: cc_demo_acts_def cc_start_def cc_demo_def CC_BUF_SIZE_def t)
  moreover have "length (filter (\<lambda>a. a \<noteq> Fails) cc_demo_acts) = 8" "length (filter (\<lambda>a. a = Fails) cc_demo_acts) = 0"
    by (simp_all add: cc_demo_acts_def)
  ultimately show ?thesis using cc_act_run_run by metis
qed

theorem change_case_correct_witness:
  "stdout cc_demo = map toupper ''a1'' \<and> prefix (stdout cc_demo) (map toupper ''a1'') \<and> cc_finished cc_demo"
proof -
  have "\<not> cc_step 100 True cc_demo u" for u by (auto simp: cc_demo_def elim!: cc_step.cases)
  then show ?thesis using change_case_correct [OF cc_demo_run] by (auto simp: CC_BUF_SIZE_def)
qed

text \<open>When the child fails at the last chunk, the parent reads an end-of-file, prints nothing and exits successfully.\<close>

lemma change_case_silent_loss:
  "\<exists>t. run_of (cc_step 100 True) (cc_step 100 False) 5 1 (cc_start ''a'') t \<and> parent t = PExit (Ended EXIT_SUCCESS) \<and> stdout t = []"
proof -
  define as where "as = [P 0, P 0, Fails, C, P 0, P 1]"
  have "\<exists>t. cc_act_run as (cc_start ''a'') = Some t \<and> parent t = PExit (Ended EXIT_SUCCESS) \<and> stdout t = []"
    by (simp add: as_def cc_start_def CC_BUF_SIZE_def)
  moreover have "length (filter (\<lambda>a. a \<noteq> Fails) as) = 5" "length (filter (\<lambda>a. a = Fails) as) = 1"
    by (simp_all add: as_def)
  ultimately show ?thesis using cc_act_run_run by metis
qed

end
