(* ===== verification/Userns_Exec.thy ===== *)
theory Userns_Exec
  imports Bounded_System Get_Num
begin

text \<open>
  A command in new namespaces: \<^verbatim>\<open>namespaces/userns_child_exec.c\<close> with \<^verbatim>\<open>update_map()\<close>,
  \<^verbatim>\<open>proc_setgroups_write()\<close> and \<^verbatim>\<open>display_creds_and_caps()\<close> of \<^verbatim>\<open>namespaces/userns_functions.c\<close>.
  The parent writes the ID maps of its child and then closes a pipe on which the child waits before
  it changes its credentials and executes the command.  Parent and child run interleaved.
  The lemmas show which command lines are accepted, that the command runs only after the maps
  have been written completely and in order unless the parent failed, and that neither process waits
  for ever.
\<close>

section \<open>Options\<close>

abbreviation (input) CLONE_NEWCGROUP :: "32 word" where "CLONE_NEWCGROUP \<equiv> 0x02000000"
abbreviation (input) CLONE_NEWIPC :: "32 word" where "CLONE_NEWIPC \<equiv> 0x08000000"
abbreviation (input) CLONE_NEWNS :: "32 word" where "CLONE_NEWNS \<equiv> 0x00020000"
abbreviation (input) CLONE_NEWNET :: "32 word" where "CLONE_NEWNET \<equiv> 0x40000000"
abbreviation (input) CLONE_NEWPID :: "32 word" where "CLONE_NEWPID \<equiv> 0x20000000"
abbreviation (input) CLONE_NEWUTS :: "32 word" where "CLONE_NEWUTS \<equiv> 0x04000000"
abbreviation (input) CLONE_NEWUSER :: "32 word" where "CLONE_NEWUSER \<equiv> 0x10000000"
abbreviation (input) SECBIT_NOROOT :: "32 word" where "SECBIT_NOROOT \<equiv> 1"
abbreviation (input) SECBIT_NO_SETUID_FIXUP :: "32 word" where "SECBIT_NO_SETUID_FIXUP \<equiv> 4"

record settings =
  flags :: "32 word"
  uid_map :: "string option"
  gid_map :: "string option"
  create_root_mappings :: bool
  deny_setgroups :: bool
  verbose :: bool
  useAmbient :: bool
  newuid :: int
  secbits :: "32 word"

definition default_settings :: settings where
  "default_settings = \<lparr>flags = 0, uid_map = None, gid_map = None, create_root_mappings = False, deny_setgroups = True,
                       verbose = False, useAmbient = False, newuid = - 1, secbits = 0\<rparr>"

fun parse_secbits :: "32 word \<Rightarrow> string \<Rightarrow> 32 word option" where
  "parse_secbits b [] = Some b"
| "parse_secbits b (c # cs) =
     (if c = CHR ''r'' then parse_secbits (b OR SECBIT_NOROOT) cs
      else if c = CHR ''s'' then parse_secbits (b OR SECBIT_NO_SETUID_FIXUP) cs
      else None)"

text \<open>One iteration of the \<^verbatim>\<open>getopt()\<close> loop, on the option character and \<^verbatim>\<open>optarg\<close>; \<open>None\<close> is \<^verbatim>\<open>usage()\<close>.\<close>

definition userns_option :: "char \<times> string \<Rightarrow> settings \<Rightarrow> settings option" where
  "userns_option opt s =
     (case opt of (c, optarg) \<Rightarrow>
        if c = CHR ''C'' then Some (s\<lparr>flags := flags s OR CLONE_NEWCGROUP\<rparr>)
        else if c = CHR ''i'' then Some (s\<lparr>flags := flags s OR CLONE_NEWIPC\<rparr>)
        else if c = CHR ''m'' then Some (s\<lparr>flags := flags s OR CLONE_NEWNS\<rparr>)
        else if c = CHR ''n'' then Some (s\<lparr>flags := flags s OR CLONE_NEWNET\<rparr>)
        else if c = CHR ''p'' then Some (s\<lparr>flags := flags s OR CLONE_NEWPID\<rparr>)
        else if c = CHR ''u'' then Some (s\<lparr>flags := flags s OR CLONE_NEWUTS\<rparr>)
        else if c = CHR ''U'' then Some (s\<lparr>flags := flags s OR CLONE_NEWUSER\<rparr>)
        else if c = CHR ''M'' then Some (s\<lparr>uid_map := Some optarg\<rparr>)
        else if c = CHR ''G'' then Some (s\<lparr>gid_map := Some optarg\<rparr>)
        else if c = CHR ''r'' \<or> c = CHR ''z'' then Some (s\<lparr>create_root_mappings := True\<rparr>)
        else if c = CHR ''D'' then Some (s\<lparr>deny_setgroups := False\<rparr>)
        else if c = CHR ''v'' then Some (s\<lparr>verbose := True\<rparr>)
        else if c = CHR ''a'' then Some (s\<lparr>useAmbient := True\<rparr>)
        else if c = CHR ''s'' then Some (s\<lparr>newuid := atoi optarg\<rparr>)
        else if c = CHR ''b'' then map_option (\<lambda>b. s\<lparr>secbits := b\<rparr>) (parse_secbits 0 optarg)
        else None)"

fun userns_options :: "(char \<times> string) list \<Rightarrow> settings \<Rightarrow> settings option" where
  "userns_options [] s = Some s"
| "userns_options (opt # opts) s = (case userns_option opt s of None \<Rightarrow> None | Some s \<Rightarrow> userns_options opts s)"

text \<open>The settings of a command line, given as the options and the rest, if it is accepted.\<close>

definition userns_args :: "(char \<times> string) list \<Rightarrow> string list \<Rightarrow> settings option" where
  "userns_args opts args =
     (case userns_options opts default_settings of
        None \<Rightarrow> None
      | Some s \<Rightarrow>
          if (uid_map s \<noteq> None \<or> gid_map s \<noteq> None \<or> create_root_mappings s) \<and> flags s AND CLONE_NEWUSER = 0 \<or>
             create_root_mappings s \<and> (uid_map s \<noteq> None \<or> gid_map s \<noteq> None)
          then None
          else if args = [] then None
          else Some s)"

definition userns_usage_lines :: "string list" where
  "userns_usage_lines =
     [''-C          New cgroup namespace'',
      ''-i          New IPC namespace'',
      ''-m          New mount namespace'',
      ''-n          New network namespace'',
      ''-p          New PID namespace'',
      ''-u          New UTS namespace'',
      ''-U          New user namespace'',
      ''-M uid_map  Specify UID map for user namespace'',
      ''-G gid_map  Specify GID map for user namespace'',
      ''-D          Do not write '' @ [CHR 0x22] @ ''deny'' @ [CHR 0x22] @ '' to /proc/PID/setgroups before'',
      ''            updating GID map'',
      ''-r          Create '' @ [CHR 0x27] @ ''root'' @ [CHR 0x27] @ '' mappings: map user'' @ [CHR 0x27] @ ''s UID and GID to 0 in user'',
      ''            namespace (equivalent to: -M '' @ [CHR 0x27] @ ''0 <uid> 1'' @ [CHR 0x27] @ '' -G '' @ [CHR 0x27] @ ''0 <gid> 1'' @ [CHR 0x27] @ '')'',
      ''-z          Synonym for '' @ [CHR 0x27] @ ''-r'' @ [CHR 0x27],
      ''-a          Use ambient capability set to preserve all possible'',
      ''            capabilities across execve()'',
      ''-s <uid>    Set process UIDs to <uid> before exec()'',
      ''            (useful for some experiments with user namespaces)'',
      ''-b <bits>   Set securebits flags before modifying process UIDs ('' @ [CHR 0x27] @ ''-s'' @ [CHR 0x27] @ ''):'',
      ''                '' @ [CHR 0x27] @ ''r'' @ [CHR 0x27] @ '' - SECBIT_NOROOT'',
      ''                '' @ [CHR 0x27] @ ''s'' @ [CHR 0x27] @ '' - SECBIT_NO_SETUID_FIXUP'',
      ''-v          Display verbose messages'',
      [],
      ''If -r, -M, or -G is specified, -U is required.'',
      ''It is not permitted to specify both -r and either -M or -G.'',
      [],
      ''Map strings for -M and -G consist of records of the form:'',
      [],
      ''    ID-inside-ns   ID-outside-ns   len'',
      [],
      ''A map string can contain multiple records, separated by commas;'',
      ''the commas are replaced by newlines before writing to map files.'']"

definition userns_usage :: "string \<Rightarrow> proc \<Rightarrow> (proc, 'a) run" where
  "userns_usage pname s =
     do_exit EXIT_FAILURE (fold fputs_stderr
       ([''Usage: '' @ pname @ '' [options] cmd [arg...]'' @ nl @ nl,
         ''Create a child process that executes a shell command in a new user namespace,'' @ nl @
         ''and possibly also other new namespaces.'' @ nl @ nl,
         ''Options can be:'' @ nl @ nl] @
        map (\<lambda>l. ''    '' @ l @ nl) userns_usage_lines) s)"

section \<open>The processes\<close>

text \<open>
  The system calls: the error of opening a file, the result of writing to it, and the errors of the calls of the child; the
  capabilities that can be raised; the credentials as text, \<open>None\<close> if they cannot be had.
\<close>

record userns_calls =
  u_open :: "string \<Rightarrow> int option"
  u_write :: "string \<Rightarrow> string \<Rightarrow> int + nat"
  u_uid :: int
  u_gid :: int
  u_child :: int
  u_securebits :: "int option"
  u_setresuid :: "int option"
  u_ambient :: "nat \<Rightarrow> bool"
  u_creds :: "string option"
  u_exec :: "int option"

datatype par_at = NUid | NDeny | NGid | NClose | NWait | NExit int
datatype sub_at = XClose | XRead | XSec | XUid | XAmb | XExec | XRun "string list" | XExit int

text \<open>
  The writes to files that were carried out, the descriptors of the write end of the pipe in both processes, and the credentials of the child.
\<close>

record ue =
  writes :: "(string \<times> string) list"
  par_end :: bool
  sub_end :: bool
  par :: par_at
  sub :: sub_at
  par_proc :: proc
  sub_proc :: proc
  x_secbits :: "32 word"
  x_uid :: "int option"
  x_ambient :: nat

definition perror :: "env_tables \<Rightarrow> string \<Rightarrow> int \<Rightarrow> proc \<Rightarrow> proc" where
  "perror tb what e s = fputs_stderr (what @ '': '' @ strerror tb e @ nl) s"

definition file_error :: "env_tables \<Rightarrow> string \<Rightarrow> string \<Rightarrow> int \<Rightarrow> ue \<Rightarrow> ue" where
  "file_error tb what f e s = s\<lparr>par_proc := fputs_stderr (''ERROR: '' @ what @ f @ '': '' @ strerror tb e @ nl) (par_proc s)\<rparr>"

definition newlines :: "string \<Rightarrow> string" where
  "newlines = map (\<lambda>c. if c = CHR '','' then CHR 0x0A else c)"

definition update_map :: "env_tables \<Rightarrow> userns_calls \<Rightarrow> string \<Rightarrow> string \<Rightarrow> ue \<Rightarrow> int \<times> ue" where
  "update_map tb K mapping map_file s =
     (let m = newlines mapping in
      case u_open K map_file of
        Some e \<Rightarrow> (- 1, file_error tb ''open '' map_file e s)
      | None \<Rightarrow>
          (case u_write K map_file m of
             Inl e \<Rightarrow> (- 1, file_error tb ''writing to '' map_file e s)
           | Inr n \<Rightarrow>
               let t = s\<lparr>writes := writes s @ [(map_file, take n m)]\<rparr>
               in if n \<noteq> length m then (- 1, file_error tb ''writing to '' map_file (errno (par_proc s)) t) else (0, t)))"

definition proc_file :: "userns_calls \<Rightarrow> string \<Rightarrow> string" where
  "proc_file K name = snprintf_str PATH_MAX (''/proc/'' @ decimal_int (u_child K) @ ''/'' @ name)"

abbreviation (input) ENOENT :: int where "ENOENT \<equiv> 2"

definition proc_setgroups_write :: "env_tables \<Rightarrow> userns_calls \<Rightarrow> string \<Rightarrow> ue \<Rightarrow> int \<times> ue" where
  "proc_setgroups_write tb K str s =
     (let f = proc_file K ''setgroups'' in
      case u_open K f of
        Some e \<Rightarrow> if e = ENOENT then (0, s) else (- 1, file_error tb ''open '' f e s)
      | None \<Rightarrow>
          (case u_write K f str of
             Inl e \<Rightarrow> (- 1, file_error tb ''writing to '' f e s)
           | Inr n \<Rightarrow> (0, s\<lparr>writes := writes s @ [(f, take n str)]\<rparr>)))"

definition root_map :: "int \<Rightarrow> string" where
  "root_map i = snprintf_str 100 (''0 '' @ decimal_int i @ '' 1'')"

definition the_map :: "settings \<Rightarrow> string option \<Rightarrow> int \<Rightarrow> string option" where
  "the_map cfg m i = (if create_root_mappings cfg then Some (root_map i) else m)"

text \<open>Exiting closes the write end of the pipe.\<close>

definition par_exit :: "int \<Rightarrow> ue \<Rightarrow> ue" where
  "par_exit st s = s\<lparr>par := NExit st, par_end := False, par_proc := fflush_stdout (par_proc s)\<rparr>"

definition par_fails :: "env_tables \<Rightarrow> string \<Rightarrow> int \<Rightarrow> ue \<Rightarrow> ue" where
  "par_fails tb what e s = par_exit EXIT_FAILURE (s\<lparr>par_proc := perror tb what e (par_proc s)\<rparr>)"

text \<open>The parent, after \<^verbatim>\<open>clone()\<close>; \<open>ok\<close> is whether \<^verbatim>\<open>waitpid()\<close> works.\<close>

fun userns_parent :: "env_tables \<Rightarrow> userns_calls \<Rightarrow> settings \<Rightarrow> string \<Rightarrow> bool \<Rightarrow> par_at \<Rightarrow> ue \<Rightarrow> ue option" where
  "userns_parent tb K cfg pname ok NUid s =
     (case the_map cfg (uid_map cfg) (u_uid K) of
        None \<Rightarrow> Some (s\<lparr>par := NDeny\<rparr>)
      | Some m \<Rightarrow>
          (case update_map tb K m (proc_file K ''uid_map'') s of
             (r, t) \<Rightarrow> if r = - 1 then Some (par_fails tb ''update_map: uid_map'' (errno (par_proc t)) t) else Some (t\<lparr>par := NDeny\<rparr>)))"
| "userns_parent tb K cfg pname ok NDeny s =
     (case the_map cfg (gid_map cfg) (u_gid K) of
        None \<Rightarrow> Some (s\<lparr>par := NClose\<rparr>)
      | Some m \<Rightarrow>
          if deny_setgroups cfg then
            (case proc_setgroups_write tb K ''deny'' s of
               (r, t) \<Rightarrow> if r = - 1 then Some (par_fails tb ''proc_setgroups_write'' (errno (par_proc t)) t) else Some (t\<lparr>par := NGid\<rparr>))
          else Some (s\<lparr>par := NGid\<rparr>))"
| "userns_parent tb K cfg pname ok NGid s =
     (case the_map cfg (gid_map cfg) (u_gid K) of
        None \<Rightarrow> Some (s\<lparr>par := NClose\<rparr>)
      | Some m \<Rightarrow>
          (case update_map tb K m (proc_file K ''gid_map'') s of
             (r, t) \<Rightarrow> if r = - 1 then Some (par_fails tb ''update_map: gid_map'' (errno (par_proc t)) t) else Some (t\<lparr>par := NClose\<rparr>)))"
| "userns_parent tb K cfg pname ok NClose s = Some (s\<lparr>par_end := False, par := NWait\<rparr>)"
| "userns_parent tb K cfg pname ok NWait s =
     (if \<not> ok then Some (par_fails tb ''waitpid'' 4 s)
      else case sub s of
        XExit st \<Rightarrow>
          Some (par_exit EXIT_SUCCESS
            (if verbose cfg then s\<lparr>par_proc := (par_proc s)\<lparr>stdout_buf := stdout_buf (par_proc s) @ pname @ '': terminating'' @ nl\<rparr>\<rparr> else s))
      | _ \<Rightarrow> None)"
| "userns_parent tb K cfg pname ok (NExit st) s = None"

abbreviation (input) CAP_LAST_CAP :: nat where "CAP_LAST_CAP \<equiv> 40"

fun raise_from :: "userns_calls \<Rightarrow> nat list \<Rightarrow> nat \<Rightarrow> nat" where
  "raise_from K [] k = k"
| "raise_from K (cap # caps) k = raise_from K caps (if u_ambient K cap then Suc k else k)"

definition raiseAmbientCaps :: "userns_calls \<Rightarrow> nat" where
  "raiseAmbientCaps K = raise_from K [0..<Suc CAP_LAST_CAP] 0"

definition sub_fails :: "string \<Rightarrow> ue \<Rightarrow> ue" where
  "sub_fails msg s = s\<lparr>sub := XExit EXIT_FAILURE, sub_end := False, sub_proc := fflush_stdout (fputs_stderr msg (sub_proc s))\<rparr>"

definition display_creds_and_caps :: "userns_calls \<Rightarrow> string \<Rightarrow> proc \<Rightarrow> proc option" where
  "display_creds_and_caps K str s =
     (case u_creds K of None \<Rightarrow> None | Some t \<Rightarrow> Some (s\<lparr>stdout_buf := stdout_buf s @ str @ t @ nl\<rparr>))"

text \<open>The child; \<open>ok\<close> is whether \<^verbatim>\<open>read()\<close> works, \<open>n\<close> the status with which the command ends.\<close>

fun childFunc :: "env_tables \<Rightarrow> userns_calls \<Rightarrow> settings \<Rightarrow> string list \<Rightarrow> bool \<Rightarrow> int \<Rightarrow> sub_at \<Rightarrow> ue \<Rightarrow> ue option" where
  "childFunc tb K cfg argv ok n XClose s = Some (s\<lparr>sub_end := False, sub := XRead\<rparr>)"
| "childFunc tb K cfg argv ok n XRead s =
     (if \<not> ok then Some (sub_fails (''Failure in child: read from pipe returned != 0'' @ nl) s)
      else if par_end s \<or> sub_end s then None
      else Some (s\<lparr>sub := XSec\<rparr>))"
| "childFunc tb K cfg argv ok n XSec s =
     Some (if secbits cfg \<noteq> 0 then
             (case u_securebits K of
                Some e \<Rightarrow> sub_fails (''prctl: '' @ strerror tb e @ nl) s
              | None \<Rightarrow> s\<lparr>x_secbits := secbits cfg, sub := XUid\<rparr>)
           else s\<lparr>sub := XUid\<rparr>)"
| "childFunc tb K cfg argv ok n XUid s =
     Some (if newuid cfg \<ge> 0 then
             (case u_setresuid K of
                Some e \<Rightarrow> sub_fails (''setresuid: '' @ strerror tb e @ nl) s
              | None \<Rightarrow>
                  if verbose cfg then
                    (case display_creds_and_caps K (CHR 0x09 # ''[child after setresuid()] '') (sub_proc s) of
                       None \<Rightarrow> sub_fails [] (s\<lparr>x_uid := Some (newuid cfg)\<rparr>)
                     | Some p \<Rightarrow> s\<lparr>x_uid := Some (newuid cfg), sub_proc := p, sub := XAmb\<rparr>)
                  else s\<lparr>x_uid := Some (newuid cfg), sub := XAmb\<rparr>)
           else s\<lparr>sub := XAmb\<rparr>)"
| "childFunc tb K cfg argv ok n XAmb s =
     Some (if useAmbient cfg then s\<lparr>x_ambient := raiseAmbientCaps K, sub := XExec\<rparr> else s\<lparr>sub := XExec\<rparr>)"
| "childFunc tb K cfg argv ok n XExec s =
     (let s = (if verbose cfg then s\<lparr>sub_proc := (sub_proc s)\<lparr>stdout_buf := stdout_buf (sub_proc s) @ ''About to exec: '' @ hd argv @ nl\<rparr>\<rparr> else s)
      in Some (case u_exec K of
           None \<Rightarrow> s\<lparr>sub := XRun argv\<rparr>
         | Some e \<Rightarrow> sub_fails (''execvp: '' @ strerror tb e @ nl) s))"
| "childFunc tb K cfg argv ok n (XRun cmd) s = Some (s\<lparr>sub := XExit n\<rparr>)"
| "childFunc tb K cfg argv ok n (XExit st) s = None"

inductive ue_step :: "env_tables \<Rightarrow> userns_calls \<Rightarrow> settings \<Rightarrow> string \<Rightarrow> string list \<Rightarrow> bool \<Rightarrow> ue \<Rightarrow> ue \<Rightarrow> bool"
  for tb K cfg pname argv ok where
  parent: "userns_parent tb K cfg pname ok (par s) s = Some t \<Longrightarrow> ue_step tb K cfg pname argv ok s t"
| child: "childFunc tb K cfg argv ok n (sub s) s = Some t \<Longrightarrow> ue_step tb K cfg pname argv ok s t"

definition ue_start :: "settings \<Rightarrow> userns_calls \<Rightarrow> string \<Rightarrow> proc \<Rightarrow> ue" where
  "ue_start cfg K pname p =
     \<lparr>writes = [], par_end = True, sub_end = True, par = NUid, sub = XClose,
      par_proc = (if verbose cfg then p\<lparr>stdout_buf := stdout_buf p @ pname @ '': PID of child created by clone() is '' @ decimal_int (u_child K) @ nl\<rparr> else p),
      sub_proc = p, x_secbits = 0, x_uid = None, x_ambient = 0\<rparr>"

text \<open>The program until the child has been created, given the errors of \<^verbatim>\<open>pipe()\<close>, \<^verbatim>\<open>malloc()\<close> and \<^verbatim>\<open>clone()\<close>.\<close>

definition userns_main ::
  "env_tables \<Rightarrow> userns_calls \<Rightarrow> int option \<Rightarrow> int option \<Rightarrow> int option \<Rightarrow> string \<Rightarrow> (char \<times> string) list \<Rightarrow> string list \<Rightarrow> proc
    \<Rightarrow> (proc, settings \<times> ue) run" where
  "userns_main tb K pipe malloc clone pname opts args s =
     (case userns_args opts args of
        None \<Rightarrow> userns_usage pname s
      | Some cfg \<Rightarrow>
          (case pipe of Some e \<Rightarrow> do_exit EXIT_FAILURE (perror tb ''pipe'' e s) | None \<Rightarrow>
          (case malloc of Some e \<Rightarrow> do_exit EXIT_FAILURE (perror tb ''malloc'' e s) | None \<Rightarrow>
          (case clone of Some e \<Rightarrow> do_exit EXIT_FAILURE (perror tb ''clone'' e s) | None \<Rightarrow>
             Done (cfg, ue_start cfg K pname s) s))))"

section \<open>What must be written\<close>

definition uid_writes :: "userns_calls \<Rightarrow> settings \<Rightarrow> (string \<times> string) list" where
  "uid_writes K cfg = (case the_map cfg (uid_map cfg) (u_uid K) of None \<Rightarrow> [] | Some m \<Rightarrow> [(proc_file K ''uid_map'', newlines m)])"

definition deny_writes :: "userns_calls \<Rightarrow> settings \<Rightarrow> (string \<times> string) list" where
  "deny_writes K cfg =
     (if the_map cfg (gid_map cfg) (u_gid K) \<noteq> None \<and> deny_setgroups cfg \<and> u_open K (proc_file K ''setgroups'') = None
      then (case u_write K (proc_file K ''setgroups'') ''deny'' of Inl e \<Rightarrow> [] | Inr n \<Rightarrow> [(proc_file K ''setgroups'', take n ''deny'')])
      else [])"

definition gid_writes :: "userns_calls \<Rightarrow> settings \<Rightarrow> (string \<times> string) list" where
  "gid_writes K cfg = (case the_map cfg (gid_map cfg) (u_gid K) of None \<Rightarrow> [] | Some m \<Rightarrow> [(proc_file K ''gid_map'', newlines m)])"

definition map_writes :: "userns_calls \<Rightarrow> settings \<Rightarrow> (string \<times> string) list" where
  "map_writes K cfg = uid_writes K cfg @ deny_writes K cfg @ gid_writes K cfg"

lemma update_map_cases:
  assumes "update_map tb K m f s = (r, t)"
  obtains "r = - 1" "par t = par s" "sub t = sub s" "par_end t = par_end s" "sub_end t = sub_end s"
      "x_secbits t = x_secbits s" "x_uid t = x_uid s" "x_ambient t = x_ambient s"
  | "r = 0" "t = s\<lparr>writes := writes s @ [(f, newlines m)]\<rparr>"
  using assms by (auto simp: update_map_def file_error_def Let_def split: option.splits sum.splits if_splits)

lemma setgroups_cases:
  assumes "proc_setgroups_write tb K d s = (r, t)"
  obtains "r = - 1" "par t = par s" "sub t = sub s" "par_end t = par_end s" "sub_end t = sub_end s"
      "x_secbits t = x_secbits s" "x_uid t = x_uid s" "x_ambient t = x_ambient s"
  | "r = 0" "t = s\<lparr>writes := writes s @ (if u_open K (proc_file K ''setgroups'') = None
        then (case u_write K (proc_file K ''setgroups'') d of Inl e \<Rightarrow> [] | Inr n \<Rightarrow> [(proc_file K ''setgroups'', take n d)]) else [])\<rparr>"
  using assms by (auto simp: proc_setgroups_write_def file_error_def Let_def split: option.splits sum.splits if_splits)

lemma root_map_text:
  assumes "0 \<le> i" "i < 2 ^ 32"
  shows "root_map i = ''0 '' @ decimal_int i @ '' 1''"
proof -
  have "length (decimal (nat i)) \<le> Suc 9" using assms by (intro decimal_length) simp
  then show ?thesis using assms by (simp add: root_map_def snprintf_str_def decimal_int_def)
qed

section \<open>Invariant\<close>

fun par_ok :: "userns_calls \<Rightarrow> settings \<Rightarrow> ue \<Rightarrow> par_at \<Rightarrow> bool" where
  "par_ok K cfg s NUid = (par_end s \<and> writes s = [])"
| "par_ok K cfg s NDeny = (par_end s \<and> writes s = uid_writes K cfg)"
| "par_ok K cfg s NGid = (par_end s \<and> writes s = uid_writes K cfg @ deny_writes K cfg)"
| "par_ok K cfg s NClose = (par_end s \<and> writes s = map_writes K cfg)"
| "par_ok K cfg s NWait = (\<not> par_end s \<and> writes s = map_writes K cfg)"
| "par_ok K cfg s (NExit st) =
     (\<not> par_end s \<and> (st = EXIT_FAILURE \<or> st = EXIT_SUCCESS \<and> writes s = map_writes K cfg \<and> (\<exists>e. sub s = XExit e)))"

text \<open>The credentials of the child after each of its steps.\<close>

fun sub_ok :: "userns_calls \<Rightarrow> settings \<Rightarrow> string list \<Rightarrow> ue \<Rightarrow> sub_at \<Rightarrow> bool" where
  "sub_ok K cfg argv s XClose = (sub_end s \<and> x_secbits s = 0 \<and> x_uid s = None \<and> x_ambient s = 0)"
| "sub_ok K cfg argv s XRead = (\<not> sub_end s \<and> x_secbits s = 0 \<and> x_uid s = None \<and> x_ambient s = 0)"
| "sub_ok K cfg argv s XSec = (\<not> par_end s \<and> x_secbits s = 0 \<and> x_uid s = None \<and> x_ambient s = 0)"
| "sub_ok K cfg argv s XUid = (\<not> par_end s \<and> x_secbits s = secbits cfg \<and> x_uid s = None \<and> x_ambient s = 0)"
| "sub_ok K cfg argv s XAmb =
     (\<not> par_end s \<and> x_secbits s = secbits cfg \<and> x_uid s = (if newuid cfg \<ge> 0 then Some (newuid cfg) else None) \<and> x_ambient s = 0)"
| "sub_ok K cfg argv s XExec =
     (\<not> par_end s \<and> x_secbits s = secbits cfg \<and> x_uid s = (if newuid cfg \<ge> 0 then Some (newuid cfg) else None) \<and>
      x_ambient s = (if useAmbient cfg then raiseAmbientCaps K else 0))"
| "sub_ok K cfg argv s (XRun cmd) =
     (\<not> par_end s \<and> x_secbits s = secbits cfg \<and> x_uid s = (if newuid cfg \<ge> 0 then Some (newuid cfg) else None) \<and>
      x_ambient s = (if useAmbient cfg then raiseAmbientCaps K else 0) \<and> cmd = argv)"
| "sub_ok K cfg argv s (XExit st) = True"

definition ue_inv :: "userns_calls \<Rightarrow> settings \<Rightarrow> string list \<Rightarrow> ue \<Rightarrow> bool" where
  "ue_inv K cfg argv s \<longleftrightarrow> par_ok K cfg s (par s) \<and> sub_ok K cfg argv s (sub s)"

lemma ue_start_inv: "ue_inv K cfg argv (ue_start cfg K pname p)"
  by (simp add: ue_inv_def ue_start_def)

text \<open>The invariant of the child depends on few fields, and only asks that the parent has closed its end.\<close>

lemma sub_ok_cong:
  assumes "sub_ok K cfg argv s a" "par_end t \<Longrightarrow> par_end s" "sub_end t = sub_end s" "x_secbits t = x_secbits s" "x_uid t = x_uid s"
    "x_ambient t = x_ambient s"
  shows "sub_ok K cfg argv t a"
  using assms by (cases a) auto

lemma par_ok_cong:
  assumes "par_ok K cfg s a" "par_end t = par_end s" "writes t = writes s" "sub t = sub s \<or> (\<forall>e. sub s \<noteq> XExit e)"
  shows "par_ok K cfg t a"
  using assms by (cases a) auto

lemma par_fails_inv:
  assumes "sub_ok K cfg argv s (sub s)"
  shows "ue_inv K cfg argv (par_fails tb what e s)"
  using sub_ok_cong [OF assms, of "par_fails tb what e s"] by (simp add: ue_inv_def par_fails_def par_exit_def)

lemma update_step_inv:
  assumes u: "update_map tb K m f s = (r, t)" and ok: "sub_ok K cfg argv s (sub s)"
    and next_ok: "par_ok K cfg (s\<lparr>writes := writes s @ [(f, newlines m)], par := a\<rparr>) a"
  shows "ue_inv K cfg argv (if r = - 1 then par_fails tb what (errno (par_proc t)) t else t\<lparr>par := a\<rparr>)"
  using u
proof (cases rule: update_map_cases)
  case 1
  then have "sub_ok K cfg argv t (sub t)" using sub_ok_cong [OF ok, of t] by simp
  then show ?thesis using 1 par_fails_inv by simp
next
  case 2
  have "sub_ok K cfg argv (t\<lparr>par := a\<rparr>) (sub s)" using sub_ok_cong [OF ok, of "t\<lparr>par := a\<rparr>"] 2 by simp
  then show ?thesis using 2 next_ok by (simp add: ue_inv_def)
qed

lemma userns_parent_inv:
  assumes inv: "ue_inv K cfg argv s" and run: "userns_parent tb K cfg pname b (par s) s = Some t"
  shows "ue_inv K cfg argv t"
proof -
  have p: "par_ok K cfg s (par s)" and ok: "sub_ok K cfg argv s (sub s)" using inv by (simp_all add: ue_inv_def)
  have same: "ue_inv K cfg argv (s\<lparr>par := a\<rparr>)" if "par_ok K cfg (s\<lparr>par := a\<rparr>) a" for a
    using that sub_ok_cong [OF ok, of "s\<lparr>par := a\<rparr>"] by (simp add: ue_inv_def)
  show ?thesis
  proof (cases "par s")
    case NUid
    show ?thesis
    proof (cases "the_map cfg (uid_map cfg) (u_uid K)")
      case None
      then show ?thesis using run NUid p same [of NDeny] by (auto simp: uid_writes_def)
    next
      case (Some m)
      obtain r u where u: "update_map tb K m (proc_file K ''uid_map'') s = (r, u)" by force
      have "t = (if r = - 1 then par_fails tb ''update_map: uid_map'' (errno (par_proc u)) u else u\<lparr>par := NDeny\<rparr>)"
        using run NUid Some u by (simp split: if_splits)
      then show ?thesis using update_step_inv [OF u ok, of NDeny] p NUid Some by (simp add: uid_writes_def)
    qed
  next
    case NDeny
    show ?thesis
    proof (cases "the_map cfg (gid_map cfg) (u_gid K)")
      case None
      then show ?thesis using run NDeny p same [of NClose] by (auto simp: map_writes_def deny_writes_def gid_writes_def)
    next
      case (Some m)
      show ?thesis
      proof (cases "deny_setgroups cfg")
        case True
        obtain r u where u: "proc_setgroups_write tb K ''deny'' s = (r, u)" by force
        have t: "t = (if r = - 1 then par_fails tb ''proc_setgroups_write'' (errno (par_proc u)) u else u\<lparr>par := NGid\<rparr>)"
          using run NDeny Some True u by (simp split: if_splits)
        from u show ?thesis
        proof (cases rule: setgroups_cases)
          case 1
          then show ?thesis using t sub_ok_cong [OF ok, of u] par_fails_inv by simp
        next
          case 2
          then have "par_ok K cfg (u\<lparr>par := NGid\<rparr>) NGid" using p NDeny Some True by (simp add: deny_writes_def)
          then show ?thesis using t 2 sub_ok_cong [OF ok, of t] by (simp add: ue_inv_def)
        qed
      next
        case False
        then show ?thesis using run NDeny p same [of NGid] Some by (auto simp: deny_writes_def)
      qed
    qed
  next
    case NGid
    show ?thesis
    proof (cases "the_map cfg (gid_map cfg) (u_gid K)")
      case None
      then show ?thesis using run NGid p same [of NClose] by (auto simp: map_writes_def gid_writes_def)
    next
      case (Some m)
      obtain r u where u: "update_map tb K m (proc_file K ''gid_map'') s = (r, u)" by force
      have "t = (if r = - 1 then par_fails tb ''update_map: gid_map'' (errno (par_proc u)) u else u\<lparr>par := NClose\<rparr>)"
        using run NGid Some u by (simp split: if_splits)
      then show ?thesis using update_step_inv [OF u ok, of NClose] p NGid Some by (simp add: map_writes_def gid_writes_def)
    qed
  next
    case NClose
    then show ?thesis using run p sub_ok_cong [OF ok, of t] by (auto simp: ue_inv_def)
  next
    case NWait
    show ?thesis
    proof (cases b)
      case True
      with run NWait obtain st where x: "sub s = XExit st" and "par t = NExit EXIT_SUCCESS" "sub t = sub s" "\<not> par_end t" "writes t = writes s"
        by (auto simp: par_exit_def split: sub_at.splits)
      then show ?thesis using p NWait by (simp add: ue_inv_def)
    qed (use run NWait par_fails_inv [OF ok] in auto)
  qed (use run in simp)
qed

lemma childFunc_inv:
  assumes inv: "ue_inv K cfg argv s" and run: "childFunc tb K cfg argv b n (sub s) s = Some t"
  shows "ue_inv K cfg argv t"
proof -
  have ne: "\<forall>e. sub s \<noteq> XExit e" using run by auto
  have p: "par_ok K cfg s (par s)" and ok: "sub_ok K cfg argv s (sub s)" using inv by (simp_all add: ue_inv_def)
  have "par t = par s \<and> par_end t = par_end s \<and> writes t = writes s"
    using run by (cases "sub s") (auto simp: sub_fails_def Let_def split: option.splits if_splits)
  then have "par_ok K cfg t (par t)" using par_ok_cong [OF p, of t] ne by auto
  moreover have "sub_ok K cfg argv t (sub t)"
    using run ok by (cases "sub s") (auto simp: sub_fails_def Let_def split: option.splits if_splits)
  ultimately show ?thesis by (simp add: ue_inv_def)
qed

lemma ue_step_inv: "ue_inv K cfg argv s \<Longrightarrow> ue_step tb K cfg pname argv b s t \<Longrightarrow> ue_inv K cfg argv t"
  by (auto elim!: ue_step.cases intro: userns_parent_inv childFunc_inv)

section \<open>Termination\<close>

fun par_left :: "par_at \<Rightarrow> int" where
  "par_left NUid = 5" | "par_left NDeny = 4" | "par_left NGid = 3" | "par_left NClose = 2" | "par_left NWait = 1" | "par_left (NExit st) = 0"

fun sub_left :: "sub_at \<Rightarrow> int" where
  "sub_left XClose = 7" | "sub_left XRead = 6" | "sub_left XSec = 5" | "sub_left XUid = 4" | "sub_left XAmb = 3" | "sub_left XExec = 2"
| "sub_left (XRun cmd) = 1" | "sub_left (XExit st) = 0"

definition ue_left :: "ue \<Rightarrow> int" where
  "ue_left s = par_left (par s) + sub_left (sub s)"

lemma ue_left_nonneg: "0 \<le> ue_left s"
proof -
  have "0 \<le> par_left (par s)" by (cases "par s") auto
  moreover have "0 \<le> sub_left (sub s)" by (cases "sub s") auto
  ultimately show ?thesis by (simp add: ue_left_def)
qed

lemma parent_moves:
  assumes "userns_parent tb K cfg pname b (par s) s = Some t"
  shows "par_left (par t) < par_left (par s) \<and> sub t = sub s"
  using assms
  by (cases "par s")
     (auto simp: par_fails_def par_exit_def split: option.splits prod.splits if_splits sub_at.splits elim: update_map_cases setgroups_cases)

lemma child_moves:
  assumes "childFunc tb K cfg argv b n (sub s) s = Some t"
  shows "sub_left (sub t) < sub_left (sub s) \<and> par t = par s"
  using assms by (cases "sub s") (auto simp: sub_fails_def Let_def split: option.splits if_splits)

lemma ue_step_left: "ue_step tb K cfg pname argv b s t \<Longrightarrow> ue_left t < ue_left s"
  by (erule ue_step.cases) (auto simp: ue_left_def dest!: parent_moves child_moves)

definition ue_finished :: "ue \<Rightarrow> bool" where
  "ue_finished s \<longleftrightarrow> (\<exists>st. par s = NExit st) \<and> (\<exists>st. sub s = XExit st)"

lemma ue_progress:
  assumes inv: "ue_inv K cfg argv s" and nf: "\<not> ue_finished s"
  shows "\<exists>t. ue_step tb K cfg pname argv True s t"
proof (cases "\<exists>st. sub s = XExit st")
  case True
  then have "\<not> (\<exists>st. par s = NExit st)" using nf by (simp add: ue_finished_def)
  then have "\<exists>t. userns_parent tb K cfg pname True (par s) s = Some t"
    using True by (cases "par s") (auto split: option.splits prod.splits)
  then show ?thesis using ue_step.parent by blast
next
  case False
  show ?thesis
  proof (cases "sub s = XRead \<and> par_end s")
    case True
    then have "\<exists>t. userns_parent tb K cfg pname True (par s) s = Some t"
      using inv by (cases "par s") (auto simp: ue_inv_def split: option.splits prod.splits)
    then show ?thesis using ue_step.parent by blast
  next
    case can: False
    have "\<exists>t. childFunc tb K cfg argv True 0 (sub s) s = Some t"
      using False can inv by (cases "sub s") (auto simp: ue_inv_def Let_def)
    then show ?thesis using ue_step.child by blast
  qed
qed

interpretation ues: bounded_system "ue_step tb K cfg pname argv True" "ue_step tb K cfg pname argv False" "ue_inv K cfg argv" ue_left 0 ue_finished
  by unfold_locales (auto intro: ue_step_inv ue_left_nonneg ue_step_left less_imp_le ue_progress)

text \<open>
  C39: When the child of \<^verbatim>\<open>userns_child_exec.c\<close> runs the command, however parent and child were interleaved, it runs exactly the
  command of the command line with the securebits, user ID and ambient capabilities asked for, and the parent has either
  written all ID maps - UID map, \<^verbatim>\<open>setgroups\<close>, GID map, in this order, with newlines for commas - or it has
  exited because it failed.  Whatever fails, both processes end after at most 12 steps, and neither waits for ever.
\<close>

theorem userns_maps_before_command:
  assumes "run_of (ue_step tb K cfg pname argv True) (ue_step tb K cfg pname argv False) n k (ue_start cfg K pname p) t"
  shows "(case sub t of
            XRun cmd \<Rightarrow>
              cmd = argv \<and> x_secbits t = secbits cfg \<and> x_uid t = (if newuid cfg \<ge> 0 then Some (newuid cfg) else None) \<and>
              x_ambient t = (if useAmbient cfg then raiseAmbientCaps K else 0) \<and>
              (writes t = map_writes K cfg \<or> par t = NExit EXIT_FAILURE)
          | _ \<Rightarrow> True) \<and>
    (par t = NExit EXIT_SUCCESS \<longrightarrow> writes t = map_writes K cfg) \<and>
    n \<le> 12 \<and> ((\<exists>u. ue_step tb K cfg pname argv True t u) \<or> ue_finished t)"
proof -
  note st = ue_start_inv [of K cfg argv pname p]
  have inv: "ue_inv K cfg argv t" by (rule ues.run_inv [OF assms st])
  have "int n \<le> 12" using ues.run_bounded [OF st assms] by (simp add: ue_left_def ue_start_def)
  moreover have "(\<exists>u. ue_step tb K cfg pname argv True t u) \<or> ue_finished t" using ues.stuck_finished [OF st assms] by blast
  moreover have "writes t = map_writes K cfg \<or> par t = NExit EXIT_FAILURE" if "\<not> par_end t"
    using inv that by (cases "par t") (auto simp: ue_inv_def)
  moreover have "writes t = map_writes K cfg" if "par t = NExit EXIT_SUCCESS"
    using inv that by (auto simp: ue_inv_def)
  ultimately show ?thesis using inv by (cases "sub t") (auto simp: ue_inv_def)
qed

section \<open>Runs\<close>

definition no_maps :: userns_calls where
  "no_maps = \<lparr>u_open = (\<lambda>f. Some 1), u_write = (\<lambda>f m. Inr (length m)), u_uid = 1000, u_gid = 1000, u_child = 7, u_securebits = None,
              u_setresuid = None, u_ambient = (\<lambda>_. False), u_creds = None, u_exec = None\<rparr>"

definition root_shell :: settings where
  "root_shell = default_settings\<lparr>flags := CLONE_NEWUSER, create_root_mappings := True\<rparr>"

text \<open>A schedule of steps of the parent (\<open>True\<close>) and of the child, the last one first.\<close>

fun ue_exec :: "env_tables \<Rightarrow> userns_calls \<Rightarrow> settings \<Rightarrow> string \<Rightarrow> string list \<Rightarrow> bool list \<Rightarrow> ue \<Rightarrow> ue option" where
  "ue_exec tb K cfg pname argv [] s = Some s"
| "ue_exec tb K cfg pname argv (a # as) s =
     (case ue_exec tb K cfg pname argv as s of
        None \<Rightarrow> None
      | Some t \<Rightarrow> if a then userns_parent tb K cfg pname True (par t) t else childFunc tb K cfg argv True 0 (sub t) t)"

lemma ue_exec_run:
  "ue_exec tb K cfg pname argv as s = Some t \<Longrightarrow>
     run_of (ue_step tb K cfg pname argv True) (ue_step tb K cfg pname argv False) (length as) 0 s t"
proof (induction as arbitrary: t)
  case (Cons a as)
  then obtain u where u: "ue_exec tb K cfg pname argv as s = Some u"
    "(if a then userns_parent tb K cfg pname True (par u) u else childFunc tb K cfg argv True 0 (sub u) u) = Some t"
    by (auto split: option.splits)
  have "ue_step tb K cfg pname argv True u t" using u(2) by (cases a) (auto intro: ue_step.intros)
  then show ?case using run_own [OF Cons.IH [OF u(1)]] by simp
qed (simp add: run_nil)

lemmas ue_eval = ue_start_def the_map_def root_shell_def default_settings_def no_maps_def update_map_def file_error_def par_fails_def
  par_exit_def Let_def

text \<open>
  The pipe is also closed when the parent fails: the command then runs although its maps were not written.
\<close>

lemma userns_runs_unmapped:
  "\<exists>t. run_of (ue_step tb no_maps root_shell pname [''sh''] True) (ue_step tb no_maps root_shell pname [''sh''] False) 7 0
     (ue_start root_shell no_maps pname p) t \<and> sub t = XRun [''sh''] \<and> writes t = [] \<and> map_writes no_maps root_shell \<noteq> []"
proof -
  define as where "as = [False, False, False, False, False, False, True]"
  have "\<exists>t. ue_exec tb no_maps root_shell pname [''sh''] as (ue_start root_shell no_maps pname p) = Some t \<and> sub t = XRun [''sh''] \<and> writes t = []"
    by (simp add: as_def ue_eval)
  moreover have "length as = 7" by (simp add: as_def)
  moreover have "map_writes no_maps root_shell \<noteq> []" by (simp add: map_writes_def uid_writes_def the_map_def root_shell_def)
  ultimately show ?thesis using ue_exec_run by metis
qed

definition all_maps :: userns_calls where
  "all_maps = no_maps\<lparr>u_open := \<lambda>f. None\<rparr>"

definition no_tables :: env_tables where
  "no_tables = \<lparr>ename = (\<lambda>_. []), MAX_ENAME = 0, strerror = (\<lambda>_. [])\<rparr>"

definition mapped_shell :: ue where
  "mapped_shell = the (ue_exec no_tables all_maps root_shell ''u'' [''sh''] [False, False, False, False, False, True, False, True, True, True]
                         (ue_start root_shell all_maps ''u'' fresh_proc))"

lemma mapped_shell_run:
  "ue_exec no_tables all_maps root_shell ''u'' [''sh''] [False, False, False, False, False, True, False, True, True, True]
     (ue_start root_shell all_maps ''u'' fresh_proc) = Some mapped_shell \<and>
   sub mapped_shell = XRun [''sh''] \<and> par mapped_shell = NWait"
  by (simp add: mapped_shell_def ue_eval all_maps_def proc_setgroups_write_def)

theorem userns_maps_before_command_witness:
  "sub mapped_shell = XRun [''sh''] \<and> writes mapped_shell = map_writes all_maps root_shell \<and> map_writes all_maps root_shell \<noteq> []"
proof -
  have "map_writes all_maps root_shell \<noteq> []" by (simp add: map_writes_def uid_writes_def the_map_def root_shell_def)
  then show ?thesis
    using userns_maps_before_command [OF ue_exec_run [OF conjunct1 [OF mapped_shell_run]]] mapped_shell_run by auto
qed

end
