(* ===== verification/Svsem_Init.thy ===== *)
theory Svsem_Init
  imports Bounded_System Get_Num
begin

text \<open>
  Creating and initialising a semaphore: \<^verbatim>\<open>svsem/svsem_good_init.c\<close> and \<^verbatim>\<open>svsem/svsem_bad_init.c\<close>.
  Any number of processes run one of the programs at the same time.  A new semaphore set has an
  arbitrary value, and \<^verbatim>\<open>sem_otime\<close> is 0 until the first \<^verbatim>\<open>semop()\<close>.
  The lemmas show that with the first program every operation counts, while the second one loses operations.
\<close>

section \<open>Semaphore sets\<close>

record semset =
  semval :: int
  sem_otime :: bool     \<comment> \<open>whether it is nonzero\<close>

abbreviation (input) SEMVMX :: int where "SEMVMX \<equiv> 32767"

text \<open>\<^verbatim>\<open>semop()\<close> with one operation: \<open>None\<close> while it blocks, \<open>Inl\<close> an error.\<close>

definition do_semop :: "int \<Rightarrow> semset \<Rightarrow> (int + semset) option" where
  "do_semop v q =
     (if v = 0 then (if semval q = 0 then Some (Inr (q\<lparr>sem_otime := True\<rparr>)) else None)
      else if semval q + v < 0 then None
      else if semval q + v > SEMVMX then Some (Inl 34)
      else Some (Inr \<lparr>semval = semval q + v, sem_otime = True\<rparr>))"

section \<open>svsem_good_init.c\<close>

datatype good_at = GGet | GSetval | GDummy | GGet2 | GTry nat | GOp | GExit int

text \<open>A process and its argument \<^verbatim>\<open>sem-op\<close>.\<close>

record gproc =
  g_at :: good_at
  g_arg :: string

record gsys =
  gset :: "semset option"
  gprocs :: "gproc list"

definition MAX_TRIES :: nat where "MAX_TRIES = 10"

text \<open>\<^verbatim>\<open>getInt()\<close> may end the process; its result is stored in a \<^verbatim>\<open>short\<close>.\<close>

definition good_op :: "string \<Rightarrow> int option" where
  "good_op arg = (case getInt (Some arg) 0 (Some ''sem-op'') fresh_proc of Done n _ \<Rightarrow> Some (sint (word_of_int n :: 16 word)) | Halt h _ \<Rightarrow> None)"

text \<open>One system call of a process: its new point and the new set.  \<open>ok\<close> is whether the call works, \<open>v0\<close> the value of a new set.\<close>

fun good_init :: "bool \<Rightarrow> int \<Rightarrow> string \<Rightarrow> good_at \<Rightarrow> semset option \<Rightarrow> (good_at \<times> semset option) option" where
  "good_init ok v0 arg GGet q =
     Some (if \<not> ok then (GExit EXIT_FAILURE, q)
           else case q of None \<Rightarrow> (GSetval, Some \<lparr>semval = v0, sem_otime = False\<rparr>) | Some _ \<Rightarrow> (GGet2, q))"
| "good_init ok v0 arg GSetval q =
     Some (if \<not> ok then (GExit EXIT_FAILURE, q) else (GDummy, map_option (\<lambda>x. x\<lparr>semval := 0\<rparr>) q))"
| "good_init ok v0 arg GDummy q =
     (if \<not> ok then Some (GExit EXIT_FAILURE, q)
      else case q of
        None \<Rightarrow> Some (GExit EXIT_FAILURE, q)
      | Some x \<Rightarrow>
          (case do_semop 0 x of
             None \<Rightarrow> None
           | Some (Inl e) \<Rightarrow> Some (GExit EXIT_FAILURE, q)
           | Some (Inr y) \<Rightarrow> Some (GOp, Some y)))"
| "good_init ok v0 arg GGet2 q = Some (if \<not> ok \<or> q = None then (GExit EXIT_FAILURE, q) else (GTry 0, q))"
| "good_init ok v0 arg (GTry j) q =
     Some (if \<not> ok then (GExit EXIT_FAILURE, q)
           else case q of
             None \<Rightarrow> (GExit EXIT_FAILURE, q)
           | Some x \<Rightarrow>
               if sem_otime x then (GOp, q)
               else if Suc j < MAX_TRIES then (GTry (Suc j), q)
               else (GExit EXIT_FAILURE, q))"
| "good_init ok v0 arg GOp q =
     (case good_op arg of
        None \<Rightarrow> Some (GExit EXIT_FAILURE, q)
      | Some v \<Rightarrow>
          if \<not> ok then Some (GExit EXIT_FAILURE, q)
          else case q of
            None \<Rightarrow> Some (GExit EXIT_FAILURE, q)
          | Some x \<Rightarrow>
              (case do_semop v x of
                 None \<Rightarrow> None
               | Some (Inl e) \<Rightarrow> Some (GExit EXIT_FAILURE, q)
               | Some (Inr y) \<Rightarrow> Some (GExit EXIT_SUCCESS, Some y)))"
| "good_init ok v0 arg (GExit st) q = None"

inductive good_step :: "int \<Rightarrow> bool \<Rightarrow> gsys \<Rightarrow> gsys \<Rightarrow> bool" for v0 ok where
  good: "i < length (gprocs s) \<Longrightarrow> good_init ok v0 (g_arg (gprocs s ! i)) (g_at (gprocs s ! i)) (gset s) = Some (a, q) \<Longrightarrow>
         good_step v0 ok s \<lparr>gset = q, gprocs = (gprocs s)[i := (gprocs s ! i)\<lparr>g_at := a\<rparr>]\<rparr>"

definition good_start :: "string list \<Rightarrow> gsys" where
  "good_start args = \<lparr>gset = None, gprocs = map (\<lambda>a. \<lparr>g_at = GGet, g_arg = a\<rparr>) args\<rparr>"

section \<open>Invariant\<close>

abbreviation creating :: "gproc \<Rightarrow> bool" where "creating p \<equiv> g_at p = GSetval \<or> g_at p = GDummy"

definition op_of :: "gproc \<Rightarrow> int" where
  "op_of p = (case good_op (g_arg p) of None \<Rightarrow> 0 | Some v \<Rightarrow> v)"

text \<open>What the operations of the processes that have succeeded add up to.\<close>

definition applied :: "gproc list \<Rightarrow> int" where
  "applied ps = sumw (\<lambda>p. if g_at p = GExit EXIT_SUCCESS then op_of p else 0) ps"

definition unborn :: "gproc \<Rightarrow> bool" where
  "unborn p \<longleftrightarrow> g_at p = GGet \<or> g_at p = GExit EXIT_FAILURE"

definition operating :: "gproc \<Rightarrow> bool" where
  "operating p \<longleftrightarrow> g_at p = GOp \<or> g_at p = GExit EXIT_SUCCESS"

fun tries_ok :: "good_at \<Rightarrow> bool" where
  "tries_ok (GTry j) = (j < MAX_TRIES)" | "tries_ok _ = True"

definition good_inv :: "gsys \<Rightarrow> bool" where
  "good_inv s \<longleftrightarrow> (\<forall>p\<in>set (gprocs s). tries_ok (g_at p)) \<and>
     (case gset s of
        None \<Rightarrow> \<forall>p\<in>set (gprocs s). unborn p
      | Some x \<Rightarrow>
          cnt creating (gprocs s) \<le> 1 \<and>
          (if sem_otime x
           then cnt creating (gprocs s) = 0 \<and> semval x = applied (gprocs s) \<and> 0 \<le> semval x \<and> semval x \<le> SEMVMX
           else cnt operating (gprocs s) = 0 \<and> (cnt (\<lambda>p. g_at p = GDummy) (gprocs s) = 0 \<or> semval x = 0)))"

lemma good_start_inv: "good_inv (good_start args)"
  by (auto simp: good_inv_def good_start_def unborn_def)

lemma cnt_zero_applied: "cnt operating ps = 0 \<Longrightarrow> applied ps = 0"
  using sumw_cong [of ps "\<lambda>p. if g_at p = GExit EXIT_SUCCESS then op_of p else 0" "\<lambda>_. 0"]
  by (auto simp: applied_def cnt_zero operating_def)

lemma good_step_inv:
  assumes inv: "good_inv s" and step: "good_step v0 b s t"
  shows "good_inv t"
  using step
proof (cases rule: good_step.cases)
  case (good i a q)
  let ?p = "gprocs s ! i"
  note u = sumw_update [OF good(2)]
  have mem: "?p \<in> set (gprocs s)" using good(2) by simp
  have t: "gset t = q" "gprocs t = (gprocs s)[i := ?p\<lparr>g_at := a\<rparr>]" using good(1) by simp_all
  have tries: "\<forall>p\<in>set (gprocs t). tries_ok (g_at p)" if "tries_ok a"
    using inv that by (auto simp: good_inv_def t dest!: set_update_subset_insert [THEN subsetD])
  have app: "applied (gprocs t) = applied (gprocs s) - (if g_at ?p = GExit EXIT_SUCCESS then op_of ?p else 0) + (if a = GExit EXIT_SUCCESS then op_of ?p else 0)"
    by (simp add: applied_def t u op_of_def)
  show ?thesis
  proof (cases "gset s")
    case None
    then have all: "\<forall>p\<in>set (gprocs s). unborn p" using inv by (simp add: good_inv_def)
    then have g: "g_at ?p = GGet" using mem good(3) by (auto simp: unborn_def)
    show ?thesis
    proof (cases b)
      case True
      then have a: "a = GSetval" "q = Some \<lparr>semval = v0, sem_otime = False\<rparr>" using good(3) g None by simp_all
      have z: "cnt creating (gprocs s) = 0" "cnt operating (gprocs s) = 0" "cnt (\<lambda>p. g_at p = GDummy) (gprocs s) = 0"
        using all by (auto simp: cnt_zero unborn_def operating_def)
      then show ?thesis using tries g by (simp add: good_inv_def t u a operating_def)
    next
      case False
      then have a: "a = GExit EXIT_FAILURE" "q = None" using good(3) g None by simp_all
      then show ?thesis using tries all by (auto simp: good_inv_def t unborn_def dest!: set_update_subset_insert [THEN subsetD])
    qed
  next
    case (Some x)
    note I = inv [unfolded good_inv_def Some option.case]
    have c0: "0 \<le> cnt creating (gprocs s)" "0 \<le> cnt operating (gprocs s)" "0 \<le> cnt (\<lambda>p. g_at p = GDummy) (gprocs s)" by simp_all
    have c1: "creating ?p \<Longrightarrow> 1 \<le> cnt creating (gprocs s)" by (rule cnt_at [OF good(2)])
    have c2: "operating ?p \<Longrightarrow> 1 \<le> cnt operating (gprocs s)" by (rule cnt_at [OF good(2)])
    have c3: "g_at ?p = GDummy \<Longrightarrow> 1 \<le> cnt (\<lambda>p. g_at p = GDummy) (gprocs s)" by (rule cnt_at [OF good(2)])
    have m: "tries_ok (g_at ?p)" using I mem by blast
    note z = cnt_zero_applied [of "gprocs s"]
    show ?thesis
      by (cases "g_at ?p"; cases "sem_otime x";
          use I good(3) Some tries c0 c1 c2 c3 m z app in
            \<open>auto simp: good_inv_def t u operating_def do_semop_def op_of_def MAX_TRIES_def split: if_splits option.splits\<close>)
  qed
qed

section \<open>Termination\<close>

fun g_left :: "good_at \<Rightarrow> int" where
  "g_left GGet = 14" | "g_left GSetval = 3" | "g_left GDummy = 2" | "g_left GGet2 = 13" | "g_left (GTry j) = 12 - int j" | "g_left GOp = 1" | "g_left (GExit st) = 0"

definition good_left :: "gsys \<Rightarrow> int" where
  "good_left s = sumw (\<lambda>p. g_left (g_at p)) (gprocs s)"

text \<open>A process is done, or waits in the \<^verbatim>\<open>semop()\<close> it was asked to perform.\<close>

definition good_rest :: "gsys \<Rightarrow> gproc \<Rightarrow> bool" where
  "good_rest s p \<longleftrightarrow> (\<exists>st. g_at p = GExit st) \<or>
     g_at p = GOp \<and> (case gset s of None \<Rightarrow> False | Some x \<Rightarrow>
       (case good_op (g_arg p) of None \<Rightarrow> False | Some v \<Rightarrow> if v = 0 then semval x \<noteq> 0 else semval x + v < 0))"

definition good_finished :: "gsys \<Rightarrow> bool" where
  "good_finished s \<longleftrightarrow> list_all (good_rest s) (gprocs s)"

lemma good_init_left:
  assumes "good_init b v0 arg a q = Some (a', q')" "tries_ok a"
  shows "g_left a' < g_left a"
  using assms by (cases a) (auto simp: MAX_TRIES_def split: option.splits sum.splits if_splits)

lemma good_step_left:
  assumes inv: "good_inv s" and step: "good_step v0 b s t"
  shows "good_left t < good_left s"
  using step
proof (cases rule: good_step.cases)
  case (good i a q)
  have "tries_ok (g_at (gprocs s ! i))" using inv good(2) by (simp add: good_inv_def)
  then have "g_left a < g_left (g_at (gprocs s ! i))" by (rule good_init_left [OF good(3)])
  then show ?thesis using good(1) by (simp add: good_left_def sumw_update [OF good(2)])
qed

lemma good_left_nonneg:
  assumes "good_inv s"
  shows "0 \<le> good_left s"
proof -
  have "0 \<le> g_left a" if "tries_ok a" for a using that by (cases a) (auto simp: MAX_TRIES_def)
  then show ?thesis using assms by (auto simp: good_left_def good_inv_def intro!: sumw_nonneg)
qed

lemma good_progress:
  assumes inv: "good_inv s" and nf: "\<not> good_finished s"
  shows "\<exists>t. good_step v0 True s t"
proof -
  obtain i where i: "i < length (gprocs s)" and nr: "\<not> good_rest s (gprocs s ! i)" using nf by (auto simp: good_finished_def list_all_length)
  have mem: "gprocs s ! i \<in> set (gprocs s)" using i by simp
  have d: "semval x = 0" if "g_at (gprocs s ! i) = GDummy" "gset s = Some x" for x
  proof -
    have "1 \<le> cnt (\<lambda>p. g_at p = GDummy) (gprocs s)" "1 \<le> cnt creating (gprocs s)" using that by (auto intro!: cnt_at [OF i])
    then show ?thesis using inv that(2) by (auto simp: good_inv_def split: if_splits)
  qed
  have "\<exists>r. good_init True v0 (g_arg (gprocs s ! i)) (g_at (gprocs s ! i)) (gset s) = Some r"
    using nr d by (cases "g_at (gprocs s ! i)") (auto simp: good_rest_def do_semop_def split: option.splits if_splits)
  then show ?thesis using good_step.good [OF i] by fastforce
qed

interpretation gs: bounded_system "good_step v0 True" "good_step v0 False" good_inv good_left 0 good_finished
  by unfold_locales (auto intro: good_step_inv good_left_nonneg good_step_left less_imp_le good_progress)

lemma good_args:
  assumes "run_of (good_step v0 True) (good_step v0 False) n k s t"
  shows "map g_arg (gprocs t) = map g_arg (gprocs s)"
  using assms
proof (induction rule: run_of.induct)
  case (run_own n k s t u)
  from run_own(2,3) show ?case by (auto simp: map_update elim!: good_step.cases) (metis list_update_id nth_map)
next
  case (run_env n k s t u)
  from run_env(2,3) show ?case by (auto simp: map_update elim!: good_step.cases) (metis list_update_id nth_map)
qed simp

text \<open>
  C40: Any number of processes run \<^verbatim>\<open>svsem_good_init.c\<close> at the same time, and calls may fail.  At any time, once a process has exited
  successfully the semaphore has been initialised, its value is the sum of the operations of all processes
  that exited successfully - none is lost, whatever the value of a new semaphore - and it is in range.
  At most one process initialises it.  The processes stop after at most 14 steps each, and one that has
  not ended then waits in the operation it was asked to perform, which the value of the semaphore forbids.
\<close>

theorem good_init_correct:
  assumes "run_of (good_step v0 True) (good_step v0 False) n k (good_start args) t"
  shows "map g_arg (gprocs t) = args \<and>
    ((\<forall>p\<in>set (gprocs t). g_at p \<noteq> GExit EXIT_SUCCESS) \<or>
     (\<exists>v. gset t = Some \<lparr>semval = v, sem_otime = True\<rparr> \<and> v = applied (gprocs t) \<and> 0 \<le> v \<and> v \<le> SEMVMX)) \<and>
    cnt creating (gprocs t) \<le> 1 \<and> int n \<le> 14 * int (length args) \<and> ((\<exists>u. good_step v0 True t u) \<or> good_finished t)"
proof -
  note st = good_start_inv [of args]
  have inv: "good_inv t" by (rule gs.run_inv [OF assms st])
  have "map g_arg (gprocs t) = args" using good_args [OF assms] by (simp add: good_start_def comp_def)
  moreover have "(\<forall>p\<in>set (gprocs t). g_at p \<noteq> GExit EXIT_SUCCESS) \<or>
      (\<exists>v. gset t = Some \<lparr>semval = v, sem_otime = True\<rparr> \<and> v = applied (gprocs t) \<and> 0 \<le> v \<and> v \<le> SEMVMX)"
  proof (cases "gset t")
    case None
    then show ?thesis using inv by (auto simp: good_inv_def unborn_def)
  next
    case (Some x)
    have "x = \<lparr>semval = semval x, sem_otime = True\<rparr>" if "sem_otime x" using that by (cases x) simp
    then show ?thesis using inv Some by (auto simp: good_inv_def cnt_zero operating_def split: if_splits)
  qed
  moreover have "cnt creating (gprocs t) \<le> 1"
  proof (cases "gset t")
    case None
    then have "cnt creating (gprocs t) = 0" using inv by (auto simp: good_inv_def unborn_def cnt_zero)
    then show ?thesis by simp
  next
    case (Some x)
    then show ?thesis using inv by (auto simp: good_inv_def)
  qed
  moreover have "sumw (\<lambda>p. g_left (g_at p)) (map (\<lambda>a. \<lparr>g_at = GGet, g_arg = a\<rparr>) as) = 14 * int (length as)" for as by (induction as) auto
  then have "int n \<le> 14 * int (length args)" using gs.run_bounded [OF st assms] by (simp add: good_left_def good_start_def)
  moreover have "(\<exists>u. good_step v0 True t u) \<or> good_finished t" using gs.stuck_finished [OF st assms] by blast
  ultimately show ?thesis by blast
qed

section \<open>svsem_bad_init.c\<close>

datatype bad_at = BGet | BSetval | BGet2 | BOp | BExit int

fun bad_init :: "bool \<Rightarrow> int \<Rightarrow> bad_at \<Rightarrow> semset option \<Rightarrow> (bad_at \<times> semset option) option" where
  "bad_init ok v0 BGet q =
     Some (if \<not> ok then (BExit EXIT_FAILURE, q)
           else case q of None \<Rightarrow> (BSetval, Some \<lparr>semval = v0, sem_otime = False\<rparr>) | Some _ \<Rightarrow> (BGet2, q))"
| "bad_init ok v0 BSetval q = Some (if \<not> ok then (BExit EXIT_FAILURE, q) else (BOp, map_option (\<lambda>x. x\<lparr>semval := 0\<rparr>) q))"
| "bad_init ok v0 BGet2 q = Some (if \<not> ok \<or> q = None then (BExit EXIT_FAILURE, q) else (BOp, q))"
| "bad_init ok v0 BOp q =
     (if \<not> ok then Some (BExit EXIT_FAILURE, q)
      else case q of
        None \<Rightarrow> Some (BExit EXIT_FAILURE, q)
      | Some x \<Rightarrow>
          (case do_semop 1 x of
             None \<Rightarrow> None
           | Some (Inl e) \<Rightarrow> Some (BExit EXIT_FAILURE, q)
           | Some (Inr y) \<Rightarrow> Some (BExit EXIT_SUCCESS, Some y)))"
| "bad_init ok v0 (BExit st) q = None"

text \<open>Two processes, the first one moving at \<open>True\<close>.\<close>

fun bad_run :: "int \<Rightarrow> bool list \<Rightarrow> bad_at \<times> bad_at \<times> semset option \<Rightarrow> (bad_at \<times> bad_at \<times> semset option) option" where
  "bad_run v0 [] s = Some s"
| "bad_run v0 (m # ms) (a, b, q) =
     (if m then (case bad_init True v0 a q of None \<Rightarrow> None | Some (a', q') \<Rightarrow> bad_run v0 ms (a', b, q'))
      else (case bad_init True v0 b q of None \<Rightarrow> None | Some (b', q') \<Rightarrow> bad_run v0 ms (a, b', q')))"

text \<open>
  The race that the program demonstrates: whatever the value of a new semaphore, as long as 1 can be added to it, both processes
  can add 1 and exit successfully and the semaphore is 1.
\<close>

lemma bad_init_loses:
  assumes "0 \<le> v0" "v0 < SEMVMX"
  shows "\<exists>ms. bad_run v0 ms (BGet, BGet, None) =
    Some (BExit EXIT_SUCCESS, BExit EXIT_SUCCESS, Some \<lparr>semval = 1, sem_otime = True\<rparr>)"
  by (rule exI [of _ "[True, False, False, False, True, True]"]) (use assms in \<open>simp add: do_semop_def\<close>)

section \<open>A run\<close>

text \<open>The processes that move, the last one first.\<close>

fun good_run :: "nat list \<Rightarrow> gsys \<Rightarrow> gsys option" where
  "good_run [] s = Some s"
| "good_run (i # is) s =
     (case good_run is s of
        None \<Rightarrow> None
      | Some t \<Rightarrow>
          if i < length (gprocs t) then
            (case good_init True 5 (g_arg (gprocs t ! i)) (g_at (gprocs t ! i)) (gset t) of
               None \<Rightarrow> None
             | Some (a, q) \<Rightarrow> Some \<lparr>gset = q, gprocs = (gprocs t)[i := (gprocs t ! i)\<lparr>g_at := a\<rparr>]\<rparr>)
          else None)"

lemma good_run_run: "good_run is s = Some t \<Longrightarrow> run_of (good_step 5 True) (good_step 5 False) (length is) 0 s t"
proof (induction "is" arbitrary: t)
  case (Cons i "is")
  then obtain u where u: "good_run is s = Some u" "good_step 5 True u t"
    by (auto split: option.splits if_splits intro: good_step.intros)
  then show ?case using run_own [OF Cons.IH [OF u(1)] u(2)] by simp
qed (simp add: run_nil)

definition good_demo :: gsys where
  "good_demo = \<lparr>gset = Some \<lparr>semval = 5, sem_otime = True\<rparr>,
                gprocs = [\<lparr>g_at = GExit 0, g_arg = ''2''\<rparr>, \<lparr>g_at = GExit 0, g_arg = ''3''\<rparr>]\<rparr>"

lemma good_op_demo: "good_op ''2'' = Some 2" "good_op ''3'' = Some 3"
  by code_simp+

lemma good_demo_run: "run_of (good_step 5 True) (good_step 5 False) 9 0 (good_start [''2'', ''3'']) good_demo"
proof -
  define as where "as = [0 :: nat, 1, 1, 0, 1, 0, 1, 1, 0]"
  have "good_run as (good_start [''2'', ''3'']) = Some good_demo"
    by (simp add: as_def good_start_def good_demo_def do_semop_def good_op_demo MAX_TRIES_def)
  moreover have "length as = 9" by (simp add: as_def)
  ultimately show ?thesis using good_run_run by metis
qed

theorem good_init_correct_witness:
  "gset good_demo = Some \<lparr>semval = 5, sem_otime = True\<rparr> \<and> applied (gprocs good_demo) = 5 \<and> good_finished good_demo"
  using good_init_correct [OF good_demo_run] by (auto simp: good_demo_def good_finished_def good_rest_def)

end
