(* ===== verification/Spec2Isabelle.thy ===== *)
theory Spec2Isabelle
  imports Dtree_Props Seccomp Acl Prod_Cons Seqnum Environ Raw_Udp Shm_Xfr Ns_Capable Thread_Incr Prod_Condvar Multijoin Barrier Fcntl_Locking Svsem_Op Process_Lib Msg_File Pipe_Case Userns_Exec Svsem_Init
begin

text \<open>
  A verification library for the example programs of "The Linux Programming Interface".

  The repository is a collection of some five hundred C files: a small library under \<^verbatim>\<open>lib/\<close>, functions
  that several programs of a directory share, and programs of one file each.  The library models
  the programs with an algorithm, a protocol or a state of their own, from the
  command line to the exit status where that is possible.

  \<^bold>\<open>Conventions.\<close>
  A C function that may end the process returns a \<open>run\<close> (theory \<open>Tlpi_Prelude\<close>): \<open>Done\<close> with the result and
  the new state, or \<open>Halt\<close> with an exit status, a signal, \<open>Blocked\<close> (waiting for ever) or \<open>Fault\<close> (an access out of
  bounds or another undefined behaviour).  \<open>andThen\<close> sequences such functions and \<open>holds\<close> asserts about both
  outcomes.  Calls of the kernel, of \<^verbatim>\<open>libacl\<close>, \<^verbatim>\<open>libcap\<close> and of the name services are functions that the
  definitions take as arguments, usually as the fields of a record; what the programs rely on is a
  hypothesis of the theorem concerned, and most theorems hold for every behaviour of these
  calls, failures included.  Numbers keep their width where the programs depend on it (\<open>32 word\<close>, or \<open>int\<close>
  with explicit limits); character strings are \<open>string\<close> without the null byte.
  A concurrent program is a state record with the point each thread or process has reached, and a
  step relation that lets any of them move; steps of the environment such as spurious wakeups are a
  second relation.  \<open>run_of own env n k s t\<close> says that \<open>n\<close> steps and \<open>k\<close> steps of the environment lead from \<open>s\<close> to \<open>t\<close>.

  \<^bold>\<open>The theories and the code they model.\<close>

  \<^item> \<open>Tlpi_Prelude\<close>: runs, assertions, the C string functions, linear searches.  \<open>C_Numbers\<close>: \<^verbatim>\<open>strtol()\<close>,
    \<^verbatim>\<open>atoi()\<close> and decimal output for 64-bit \<^verbatim>\<open>long\<close> and 32-bit \<^verbatim>\<open>int\<close>.  \<open>C_Stdio\<close>: \<^verbatim>\<open>fgets()\<close> and
    the conversions of \<^verbatim>\<open>sscanf()\<close> the programs use.
  \<^item> \<open>Dtree_Cache\<close>, \<open>Dtree_Tree\<close>, \<open>Dtree_Events\<close>, \<open>Dtree_Main\<close>, \<open>Dtree_Props\<close>: \<^verbatim>\<open>inotify/inotify_dtree.c\<close>, which mirrors a directory
    tree from inotify events.  The record \<open>dt\<close> holds its global variables.  The watch-list cache implements a
    finite map from watch descriptors to pathnames (locale \<open>watch_store\<close>, interpreted on the functions of the program);
    the tree operations transform that map; every event and every command keeps the
    invariant; the event loop stays inside its buffer and makes progress; renaming a directory rewrites
    exactly the pathnames below it, moving it out of the tree removes them.
  \<^item> \<open>Bpf\<close>, \<open>Seccomp\<close>: the classic BPF machine and the seven filter programs under \<^verbatim>\<open>seccomp/\<close>.  Every filter
    is accepted by the kernel's checker and equals its policy for all calls, architectures
    and arguments; the main programs run under their filter.
  \<^item> \<open>Acl\<close>: \<^verbatim>\<open>users_groups/ugid_functions.c\<close>, \<^verbatim>\<open>acl/acl_update.c\<close>, \<^verbatim>\<open>acl/acl_view.c\<close>.  The specification parser inverts
    printing and accepts only well-formed entries; updating an ACL refines updates of a finite map.
  \<^item> \<open>Get_Num\<close>: \<^verbatim>\<open>lib/error_functions.c\<close> and \<^verbatim>\<open>lib/get_num.c\<close>.  \<^verbatim>\<open>getInt()\<close> accepts exactly the numerals it should.
  \<^item> \<open>Stream_Io\<close>: \<^verbatim>\<open>sockets/rdwrn.c\<close>, \<^verbatim>\<open>read_line.c\<close>, \<^verbatim>\<open>read_line_buf.c\<close>.  The functions depend on
    the byte stream and not on how it is cut into pieces.
  \<^item> \<open>Seqnum\<close>: \<^verbatim>\<open>sockets/inet_sockets.c\<close> and the four programs \<^verbatim>\<open>is_seqnum_*.c\<close>.  Client and server understand each other,
    granted sequences are disjoint, and which paths leak a descriptor.
  \<^item> \<open>Environ\<close>: \<^verbatim>\<open>proc/setenv.c\<close> and \<^verbatim>\<open>procexec/execlp.c\<close>.  The environment is a map; the search of \<^verbatim>\<open>PATH\<close>
    follows the standard; where both files go wrong.
  \<^item> \<open>Raw_Udp\<close>: \<^verbatim>\<open>sockets/raw_send_udp.c\<close>, byte by byte, with the checksum that a receiver verifies.
  \<^item> \<open>Ns_Capable\<close>: \<^verbatim>\<open>namespaces/ns_capable.c\<close> over a tree of user namespaces.
  \<^item> \<open>Svsem_Op\<close>: \<^verbatim>\<open>svsem/svsem_op.c\<close>.  The parser of semaphore operations accepts exactly its grammar, and the program
    makes one \<^verbatim>\<open>semop()\<close> call per argument.
  \<^item> \<open>Process_Lib\<close>: \<^verbatim>\<open>procexec/system.c\<close>, \<^verbatim>\<open>procexec/print_wait_status.c\<close>, \<^verbatim>\<open>daemons/become_daemon.c\<close>.  \<^verbatim>\<open>system()\<close>
    restores the signal state on every path, a wait status is described as the event it encodes, and what a daemon is.
  \<^item> \<open>Bounded_System\<close>: the locales \<open>transition_system\<close> and \<open>bounded_system\<close>.  Whoever interprets the second one, with an
    invariant, a potential that every step decreases, and the fact that an unfinished state has a step,
    obtains that runs are bounded, never stuck, and end.  It is interpreted for each of the concurrent programs:
  \<^item> \<open>Prod_Cons\<close> (\<^verbatim>\<open>threads/prod_cons_cv.c\<close>), \<open>Prod_Condvar\<close> (\<^verbatim>\<open>threads/prod_condvar.c\<close>), \<open>Multijoin\<close>
    (\<^verbatim>\<open>threads/thread_multijoin.c\<close>), \<open>Barrier\<close> (\<^verbatim>\<open>threads/pthread_barrier_demo.c\<close>), \<open>Shm_Xfr\<close> (\<^verbatim>\<open>svshm/svshm_xfr_*.c\<close> with
    \<^verbatim>\<open>svsem/binary_sems.c\<close>), and \<open>Thread_Incr\<close> (\<^verbatim>\<open>threads/thread_incr*.c\<close>, \<^verbatim>\<open>psem/thread_incr_psem.c\<close>), where the locale \<open>lock\<close>
    states what the programs need of a mutex, a spin lock, a read/write lock or a semaphore, and is
    interpreted on the four.
  \<^item> The same interface serves the programs of several processes.  \<open>Record_Locks\<close>: \<^verbatim>\<open>filelock/region_locking.c\<close> and
    \<^verbatim>\<open>filelock/create_pid_file.c\<close> over a table of byte-range locks; at most one caller of \<^verbatim>\<open>createPidFile()\<close> runs.
    \<open>Fcntl_Locking\<close>: copies of \<^verbatim>\<open>filelock/i_fcntl_locking.c\<close>, from the command line to the locks.
    \<open>Msg_File\<close>: \<^verbatim>\<open>svmsg/svmsg_file_*\<close>, a server that forks a child per request, and any number of clients.
    \<open>Pipe_Case\<close>: \<^verbatim>\<open>pipes/change_case.c\<close>, parent and child with two pipes.
    \<open>Userns_Exec\<close>: \<^verbatim>\<open>namespaces/userns_child_exec.c\<close> and \<^verbatim>\<open>namespaces/userns_functions.c\<close>, where the child waits for its ID maps.
    \<open>Svsem_Init\<close>: \<^verbatim>\<open>svsem/svsem_good_init.c\<close>, where no operation on the semaphore is lost, and \<^verbatim>\<open>svsem/svsem_bad_init.c\<close>, where one is.
    Failing calls are steps of the environment in the last four, so the theorems tell what holds with any failures and what
    holds without.

  \<^bold>\<open>Bounds and fuel.\<close>
  No function has fuel.  Loops over input recurse on the input; where the recursion is not structural the
  termination proof has a measure: the bytes left in the event buffer, the events of the kernel still to come,
  the remaining instructions of a filter, the depth of a user namespace, the text of semaphore operations not yet parsed.  Waiting for input that does not come is \<open>Blocked\<close>.
  Servers handle the finite list of connections they are given.  For the concurrent programs the potentials
  (\<open>pc_potential\<close>, \<open>pcv_left\<close>, \<open>mj_left\<close>, \<open>bar_left\<close>, \<open>incr_left\<close>, \<open>xfr_left\<close>, \<open>cpf_left\<close>, \<open>csys_left\<close>, \<open>mf_left\<close>, \<open>cc_left\<close>,
  \<open>ue_left\<close>, \<open>good_left\<close>) bound the number of steps of every run.

  \<^bold>\<open>Not modelled.\<close>
  Programs that only call the kernel or a library and print what it returns, which is most of
  \<^verbatim>\<open>cap\<close>, \<^verbatim>\<open>files\<close>, \<^verbatim>\<open>filesys\<close>, \<^verbatim>\<open>memalloc\<close>, \<^verbatim>\<open>mmap\<close>, \<^verbatim>\<open>procpri\<close>, \<^verbatim>\<open>procres\<close>, \<^verbatim>\<open>syslim\<close>, \<^verbatim>\<open>sysinfo\<close>, \<^verbatim>\<open>time\<close>, \<^verbatim>\<open>vmem\<close>, \<^verbatim>\<open>xattr\<close>; programs whose
  point is an effect inside the kernel (scheduling, terminals, pseudoterminals, process groups,
  namespaces other than in \<open>Ns_Capable\<close> and \<open>Userns_Exec\<close>); signal handlers that interrupt other code at any point; the Go programs and
  the shell scripts.  Inside the modelled programs, the wording of diagnostics is kept where it depends on data and
  dropped elsewhere; timing (\<^verbatim>\<open>sleep()\<close>) is covered by considering all interleavings; memory exhaustion is
  modelled where the program tests for it.  The generated table of error names is a parameter.
\<close>

end
